(* ===== verification/Prelude.thy ===== *)
theory Prelude
  imports Main "HOL-Library.Word"
begin

text \<open>
  The vocabulary the components share: the machine types of the sources, the result type
  of code that can return, throw or wait for ever, the operations of \<open>std::string\<close>
  and \<open><cctype>\<close> the sources call, and generic lemmas on lists and positions.
\<close>

unbundle bit_operations_syntax

named_theorems outcome_simps \<open>sequencing of operations that may throw or block\<close>
named_theorems string_simps \<open>searching and cutting strings\<close>

section \<open>Machine types\<close>

type_synonym u8 = "8 word"
type_synonym u16 = "16 word"
type_synonym u32 = "32 word"
type_synonym u64 = "64 word"

abbreviation byte_of :: "char \<Rightarrow> u8" where
  "byte_of c \<equiv> of_char c"

abbreviation char_of_byte :: "u8 \<Rightarrow> char" where
  "char_of_byte b \<equiv> char_of (unat b)"

lemma byte_of_char_of_byte [simp]: "byte_of (char_of_byte b) = b"
proof -
  have "byte_of (char_of_byte b) = of_nat (of_char (char_of_byte b))"
    by (rule of_nat_of_char [symmetric])
  also have "\<dots> = of_nat (unat b mod 256)"
    by (simp only: of_char_of)
  also have "unat b mod 256 = unat b"
  proof (rule mod_less)
    have "unat b < 2 ^ LENGTH(8)" by (rule unsigned_less)
    then show "unat b < 256" by simp
  qed
  finally show ?thesis by simp
qed

lemma char_of_byte_byte_of [simp]: "char_of_byte (byte_of c) = c"
proof -
  have "unat (byte_of c) = unat (of_nat (of_char c) :: u8)"
    by (simp only: of_nat_of_char)
  also have "\<dots> = of_char c"
    using nat_of_char_less_256 [of c] by (simp add: unat_of_nat)
  finally show ?thesis by simp
qed

section \<open>Results: return, exception, blocked\<close>

text \<open>
  The C++ exceptions the sources throw or catch. \<open>Block\<close> is the outcome of a call that
  never comes back: the trace of the environment ends while the code waits for more.
\<close>

datatype exn =
    Port_not_opened
  | Serial_exception
  | IO_exception
  | Invalid_argument
  | Out_of_range
  | Unknown_mode
  | Unsupported_device
  | Null_pointer
  | Yaml_exception
  | Runtime_error

datatype ('a, 's) outcome = Ret 'a 's | Throw exn 's | Block 's

primrec final_state :: "('a, 's) outcome \<Rightarrow> 's" where
  "final_state (Ret x s) = s"
| "final_state (Throw e s) = s"
| "final_state (Block s) = s"

primrec is_ret :: "('a, 's) outcome \<Rightarrow> bool" where
  "is_ret (Ret x s) = True"
| "is_ret (Throw e s) = False"
| "is_ret (Block s) = False"

definition seq :: "('a, 's) outcome \<Rightarrow> ('a \<Rightarrow> 's \<Rightarrow> ('b, 's) outcome) \<Rightarrow> ('b, 's) outcome" where
  "seq m k = (case m of Ret x s \<Rightarrow> k x s | Throw e s \<Rightarrow> Throw e s | Block s \<Rightarrow> Block s)"

lemma seq_Ret [simp, outcome_simps]: "seq (Ret x s) k = k x s"
  and seq_Throw [simp, outcome_simps]: "seq (Throw e s) k = Throw e s"
  and seq_Block [simp, outcome_simps]: "seq (Block s) k = Block s"
  by (simp_all add: seq_def)

lemma seq_assoc [outcome_simps]: "seq (seq m k) h = seq m (\<lambda>x s. seq (k x s) h)"
  by (cases m) simp_all

lemma seq_eq_Ret_iff:
  "seq m k = Ret y t \<longleftrightarrow> (\<exists>x s. m = Ret x s \<and> k x s = Ret y t)"
  by (cases m) simp_all

lemma seq_eq_Throw_iff:
  "seq m k = Throw e t \<longleftrightarrow> m = Throw e t \<or> (\<exists>x s. m = Ret x s \<and> k x s = Throw e t)"
  by (cases m) simp_all

text \<open>The result of a pure routine that may throw, inside stateful code.\<close>

definition lift_sum :: "exn + 'a \<Rightarrow> 's \<Rightarrow> ('a, 's) outcome" where
  "lift_sum r s = (case r of Inl e \<Rightarrow> Throw e s | Inr x \<Rightarrow> Ret x s)"

lemma lift_sum_simps [simp, outcome_simps]:
  "lift_sum (Inl e) s = Throw e s" "lift_sum (Inr x) s = Ret x s"
  by (simp_all add: lift_sum_def)

lemma lift_sum_eq_Ret_iff [outcome_simps]: "lift_sum r s = Ret x t \<longleftrightarrow> r = Inr x \<and> t = s"
  by (cases r) auto

lemma seq_cong [fundef_cong]:
  assumes "m = m'" and "\<And>x s. m' = Ret x s \<Longrightarrow> k x s = k' x s"
  shows "seq m k = seq m' k'"
  using assms by (cases m') simp_all

section \<open>Results of pure routines that may throw\<close>

definition try_then :: "exn + 'a \<Rightarrow> ('a \<Rightarrow> exn + 'b) \<Rightarrow> exn + 'b" where
  "try_then m k = (case m of Inl e \<Rightarrow> Inl e | Inr x \<Rightarrow> k x)"

named_theorems throw_simps \<open>when a throwing computation returns\<close>

lemma try_then_Inr [simp]: "try_then (Inr x) k = k x"
  and try_then_Inl [simp]: "try_then (Inl e) k = Inl e"
  by (simp_all add: try_then_def)

lemma try_then_eq_Inr [throw_simps]: "try_then m k = Inr y \<longleftrightarrow> (\<exists>x. m = Inr x \<and> k x = Inr y)"
  by (cases m) simp_all

section \<open>Strings: std::string and cctype in the C locale\<close>

definition isdigit :: "char \<Rightarrow> bool" where
  "isdigit c \<longleftrightarrow> 48 \<le> (of_char c :: nat) \<and> (of_char c :: nat) \<le> 57"

definition isspace :: "char \<Rightarrow> bool" where
  "isspace c \<longleftrightarrow> (of_char c :: nat) = 32 \<or> 9 \<le> (of_char c :: nat) \<and> (of_char c :: nat) \<le> 13"

definition to_lower :: "char \<Rightarrow> char" where
  "to_lower c =
     (if 65 \<le> (of_char c :: nat) \<and> (of_char c :: nat) \<le> 90 then char_of ((of_char c :: nat) + 32)
      else c)"

lemma to_lower_idem [simp]: "to_lower (to_lower c) = to_lower c"
proof (cases "65 \<le> (of_char c :: nat) \<and> (of_char c :: nat) \<le> 90")
  case True
  then have "(of_char (char_of ((of_char c :: nat) + 32)) :: nat) = of_char c + 32"
    by (simp only: of_char_of) simp
  with True show ?thesis by (simp add: to_lower_def)
next
  case False
  then have "to_lower c = c" by (simp only: to_lower_def if_False)
  then show ?thesis by simp
qed

definition starts_with :: "string \<Rightarrow> string \<Rightarrow> bool" where
  "starts_with s p \<longleftrightarrow> take (length p) s = p"

text \<open>\<open>s.find(pat)\<close>: the first position where \<open>pat\<close> occurs, \<open>None\<close> for \<open>npos\<close>.\<close>

fun str_find :: "string \<Rightarrow> string \<Rightarrow> nat option" where
  "str_find pat [] = (if pat = [] then Some 0 else None)"
| "str_find pat (c # cs) =
     (if starts_with (c # cs) pat then Some 0 else map_option Suc (str_find pat cs))"

definition contains :: "string \<Rightarrow> string \<Rightarrow> bool" where
  "contains s pat \<longleftrightarrow> str_find pat s \<noteq> None"

text \<open>\<open>s.substr(pos, len)\<close> throws \<open>std::out_of_range\<close> when \<open>pos > s.size()\<close>.\<close>

definition substr :: "string \<Rightarrow> nat \<Rightarrow> nat \<Rightarrow> exn + string" where
  "substr s pos len = (if length s < pos then Inl Out_of_range else Inr (take len (drop pos s)))"

lemma starts_with_iff [string_simps]: "starts_with s p \<longleftrightarrow> (\<exists>v. s = p @ v)"
  unfolding starts_with_def by (metis append_eq_conv_conj append_take_drop_id)

lemma starts_with_append [simp]: "starts_with (p @ v) p"
  by (simp add: starts_with_def)

lemma contains_Nil [simp]: "contains [] pat \<longleftrightarrow> pat = []"
  by (simp add: contains_def)

lemma contains_Cons: "contains (c # s) pat \<longleftrightarrow> starts_with (c # s) pat \<or> contains s pat"
  by (simp add: contains_def)

lemma contains_iff [string_simps]: "contains s pat \<longleftrightarrow> (\<exists>u v. s = u @ pat @ v)"
proof (induction s)
  case Nil
  then show ?case by simp
next
  case (Cons c s)
  show ?case
  proof
    assume "contains (c # s) pat"
    then show "\<exists>u v. c # s = u @ pat @ v"
      using Cons.IH by (metis append_Cons append_Nil contains_Cons starts_with_iff)
  next
    assume "\<exists>u v. c # s = u @ pat @ v"
    then obtain u v where uv: "c # s = u @ pat @ v" by blast
    show "contains (c # s) pat"
    proof (cases u)
      case Nil
      with uv show ?thesis by (metis append_Nil contains_Cons starts_with_iff)
    next
      case (Cons d u')
      with uv have "s = u' @ pat @ v" by simp
      then show ?thesis using Cons.IH contains_Cons by blast
    qed
  qed
qed

section \<open>Lists\<close>

lemma nth_append_right [simp]: "(xs @ ys) ! (length xs + i) = ys ! i"
  by (simp add: nth_append)

text \<open>A list of naturals is a permutation of an initial segment, decided by computation.\<close>

definition is_perm :: "nat list \<Rightarrow> bool" where
  "is_perm xs \<longleftrightarrow> sort xs = [0..<length xs]"

lemma is_perm_bij:
  assumes "is_perm xs"
  shows "bij_betw (\<lambda>i. xs ! i) {..<length xs} {..<length xs}"
proof -
  have "sort xs = [0..<length xs]" using assms by (simp add: is_perm_def)
  then have "set (sort xs) = {..<length xs}" and "distinct (sort xs)"
    by (simp_all only: set_upt distinct_upt) auto
  then have "set xs = {..<length xs}" and "distinct xs" by simp_all
  then show ?thesis
    by (metis bij_betw_nth)
qed

section \<open>Little-endian words in a byte list\<close>

definition le32 :: "u8 list \<Rightarrow> nat \<Rightarrow> u32" where
  "le32 bs i = push_bit 24 (ucast (bs ! (i + 3))) OR push_bit 16 (ucast (bs ! (i + 2))) OR
     push_bit 8 (ucast (bs ! (i + 1))) OR ucast (bs ! i)"

definition le16 :: "u8 list \<Rightarrow> nat \<Rightarrow> u16" where
  "le16 bs i = push_bit 8 (ucast (bs ! (i + 1))) OR ucast (bs ! i)"

definition u16_bytes :: "u16 \<Rightarrow> u8 list" where
  "u16_bytes w = [ucast w, ucast (drop_bit 8 w)]"

definition u32_bytes :: "u32 \<Rightarrow> u8 list" where
  "u32_bytes w = [ucast w, ucast (drop_bit 8 w), ucast (drop_bit 16 w), ucast (drop_bit 24 w)]"

lemma length_word_bytes [simp]: "length (u16_bytes v) = 2" "length (u32_bytes w) = 4"
  by (simp_all add: u16_bytes_def u32_bytes_def)

lemma le16_u16_bytes [simp]: "le16 (xs @ u16_bytes w @ ys) (length xs) = w"
proof -
  have "le16 (xs @ u16_bytes w @ ys) (length xs) = push_bit 8 (ucast (ucast (drop_bit 8 w) :: u8)) OR ucast (ucast w :: u8)"
    by (simp add: le16_def u16_bytes_def nth_append)
  also have "\<dots> = w"
    by (rule bit_word_eqI) (auto simp: bit_simps)
  finally show ?thesis .
qed

lemma le32_u32_bytes [simp]: "le32 (xs @ u32_bytes w @ ys) (length xs) = w"
proof -
  have "le32 (xs @ u32_bytes w @ ys) (length xs) =
      push_bit 24 (ucast (ucast (drop_bit 24 w) :: u8)) OR push_bit 16 (ucast (ucast (drop_bit 16 w) :: u8)) OR
      push_bit 8 (ucast (ucast (drop_bit 8 w) :: u8)) OR ucast (ucast w :: u8)"
    by (simp add: le32_def u32_bytes_def nth_append)
  also have "\<dots> = w"
    proof (rule bit_word_eqI)
    fix n assume "n < LENGTH(32)"
    then consider "n < 8" | "8 \<le> n" "n < 16" | "16 \<le> n" "n < 24" | "24 \<le> n" "n < 32" by fastforce
    then show "bit (push_bit 24 (ucast (ucast (drop_bit 24 w) :: u8) :: u32) OR push_bit 16 (ucast (ucast (drop_bit 16 w) :: u8)) OR
      push_bit 8 (ucast (ucast (drop_bit 8 w) :: u8)) OR ucast (ucast w :: u8)) n = bit w n"
      by cases (auto simp: bit_simps)
  qed
  finally show ?thesis .
qed

end
