(* ===== verification/Float_Model.thy ===== *)
theory Float_Model
  imports Prelude Complex_Main
begin

text \<open>
  The \<open>float\<close> and \<open>double\<close> arithmetic of the sources: IEEE 754 binary32 and binary64
  with round-to-nearest-even, as the C++ implementations the driver is built for provide
  it. A finite value is its sign, significand and unit exponent, so every operation is
  integer arithmetic and evaluates. The driver converts integers, adds, multiplies and divides
  by constants, negates, compares, narrows \<open>double\<close> to \<open>float\<close> and truncates to
  unsigned integers; those are the operations defined here.
\<close>

section \<open>Formats and values\<close>

record fmt =
  f_prec :: nat
  f_emin :: int
  f_emax :: int

definition binary32 :: fmt where
  "binary32 = \<lparr>f_prec = 24, f_emin = -149, f_emax = 104\<rparr>"

definition binary64 :: fmt where
  "binary64 = \<lparr>f_prec = 53, f_emin = -1074, f_emax = 971\<rparr>"

datatype ieee = F_NaN | F_Inf bool | F_Fin bool int int

text \<open>Bit length of a natural number, on \<open>int\<close> so that it evaluates in binary.\<close>

function blen :: "int \<Rightarrow> int" where
  "blen n = (if n \<le> 0 then 0 else 1 + blen (n div 2))"
  by pat_completeness auto
termination
  by (relation "measure nat") auto

declare blen.simps [simp del]

text \<open>
  The unit exponent of \<open>n / d\<close>: the \<open>e\<close> with
  \<open>2 ^ (p - 1) * 2 ^ e \<le> n / d < 2 ^ p * 2 ^ e\<close>.
\<close>

definition over_pow :: "int \<Rightarrow> int \<Rightarrow> int \<Rightarrow> int \<times> int" where
  "over_pow n d e = (if 0 \<le> e then (n, d * 2 ^ nat e) else (n * 2 ^ nat (- e), d))"

definition floor_log_frac :: "int \<Rightarrow> int \<Rightarrow> int" where
  "floor_log_frac n d =
     (let k = blen n - blen d; (a, b) = over_pow n d k
      in if b \<le> a then k else k - 1)"

definition unit_exp :: "fmt \<Rightarrow> int \<Rightarrow> int \<Rightarrow> int" where
  "unit_exp f n d = max (f_emin f) (floor_log_frac n d - int (f_prec f) + 1)"

text \<open>Round a quotient to the nearest integer, ties to even.\<close>

definition round_div :: "int \<Rightarrow> int \<Rightarrow> int" where
  "round_div a b =
     (let q = a div b; r = a mod b
      in if b < 2 * r \<or> (2 * r = b \<and> odd q) then q + 1 else q)"

definition round_frac :: "fmt \<Rightarrow> bool \<Rightarrow> int \<Rightarrow> int \<Rightarrow> ieee" where
  "round_frac f s n d =
     (if n = 0 then F_Fin s 0 (f_emin f)
      else
        let e = unit_exp f n d;
            (a, b) = over_pow n d e;
            m = round_div a b;
            (m', e') = (if m = 2 ^ f_prec f then (2 ^ (f_prec f - 1), e + 1) else (m, e))
        in if f_emax f < e' then F_Inf s else F_Fin s m' e')"

section \<open>Operations\<close>

definition f_of_int :: "fmt \<Rightarrow> int \<Rightarrow> ieee" where
  "f_of_int f i = round_frac f (i < 0) \<bar>i\<bar> 1"

definition scale :: "int \<Rightarrow> int \<Rightarrow> int \<times> int" where
  "scale m e = (if 0 \<le> e then (m * 2 ^ nat e, 1) else (m, 2 ^ nat (- e)))"

fun f_neg :: "ieee \<Rightarrow> ieee" where
  "f_neg F_NaN = F_NaN"
| "f_neg (F_Inf s) = F_Inf (\<not> s)"
| "f_neg (F_Fin s m e) = F_Fin (\<not> s) m e"

fun f_mul :: "fmt \<Rightarrow> ieee \<Rightarrow> ieee \<Rightarrow> ieee" where
  "f_mul f (F_Fin s m e) (F_Fin t k g) =
     (case scale (m * k) (e + g) of (n, d) \<Rightarrow> round_frac f (s \<noteq> t) n d)"
| "f_mul f F_NaN y = F_NaN"
| "f_mul f x F_NaN = F_NaN"
| "f_mul f (F_Inf s) (F_Inf t) = F_Inf (s \<noteq> t)"
| "f_mul f (F_Inf s) (F_Fin t k g) = (if k = 0 then F_NaN else F_Inf (s \<noteq> t))"
| "f_mul f (F_Fin s m e) (F_Inf t) = (if m = 0 then F_NaN else F_Inf (s \<noteq> t))"

fun f_div :: "fmt \<Rightarrow> ieee \<Rightarrow> ieee \<Rightarrow> ieee" where
  "f_div f (F_Fin s m e) (F_Fin t k g) =
     (if k = 0 then (if m = 0 then F_NaN else F_Inf (s \<noteq> t))
      else case scale m (e - g) of (n, d) \<Rightarrow> round_frac f (s \<noteq> t) n (d * k))"
| "f_div f F_NaN y = F_NaN"
| "f_div f x F_NaN = F_NaN"
| "f_div f (F_Inf s) (F_Inf t) = F_NaN"
| "f_div f (F_Inf s) (F_Fin t k g) = F_Inf (s \<noteq> t)"
| "f_div f (F_Fin s m e) (F_Inf t) = F_Fin (s \<noteq> t) 0 (f_emin f)"

fun f_cast :: "fmt \<Rightarrow> ieee \<Rightarrow> ieee" where
  "f_cast f (F_Fin s m e) = (case scale m e of (n, d) \<Rightarrow> round_frac f s n d)"
| "f_cast f F_NaN = F_NaN"
| "f_cast f (F_Inf s) = F_Inf s"

definition signed_at :: "bool \<Rightarrow> int \<Rightarrow> int \<Rightarrow> int \<Rightarrow> int" where
  "signed_at s m e g = (if s then - 1 else 1) * m * 2 ^ nat (e - g)"

text \<open>A sum that is zero is \<open>+0\<close>, unless both operands are \<open>-0\<close>.\<close>

fun f_add :: "fmt \<Rightarrow> ieee \<Rightarrow> ieee \<Rightarrow> ieee" where
  "f_add f (F_Fin s m e) (F_Fin t k g) =
     (let u = min e g; z = signed_at s m e u + signed_at t k g u
      in if z = 0 then F_Fin (s \<and> t) 0 (f_emin f)
         else case scale \<bar>z\<bar> u of (n, d) \<Rightarrow> round_frac f (z < 0) n d)"
| "f_add f F_NaN y = F_NaN"
| "f_add f x F_NaN = F_NaN"
| "f_add f (F_Inf s) (F_Inf t) = (if s = t then F_Inf s else F_NaN)"
| "f_add f (F_Inf s) (F_Fin t k g) = F_Inf s"
| "f_add f (F_Fin s m e) (F_Inf t) = F_Inf t"

text \<open>Comparisons: false on NaN, and the two zeros are equal.\<close>

fun f_less :: "ieee \<Rightarrow> ieee \<Rightarrow> bool" where
  "f_less (F_Fin s m e) (F_Fin t k g) =
     (signed_at s m e (min e g) < signed_at t k g (min e g))"
| "f_less F_NaN y = False"
| "f_less x F_NaN = False"
| "f_less (F_Inf s) (F_Inf t) = (s \<and> \<not> t)"
| "f_less (F_Inf s) (F_Fin t k g) = s"
| "f_less (F_Fin s m e) (F_Inf t) = (\<not> t)"

fun f_eq :: "ieee \<Rightarrow> ieee \<Rightarrow> bool" where
  "f_eq (F_Fin s m e) (F_Fin t k g) =
     (signed_at s m e (min e g) = signed_at t k g (min e g))"
| "f_eq (F_Inf s) (F_Inf t) = (s = t)"
| "f_eq x y = False"

text \<open>
  \<open>static_cast\<close> of a float to an unsigned integer of \<open>w\<close> bits truncates towards zero;
  it is undefined (\<open>None\<close>) where the truncated value does not fit.
\<close>

fun f_to_uint :: "nat \<Rightarrow> ieee \<Rightarrow> int option" where
  "f_to_uint w (F_Fin s m e) =
     (case scale m e of (n, d) \<Rightarrow>
        if n div d = 0 then Some 0 else if s \<or> 2 ^ w \<le> n div d then None else Some (n div d))"
| "f_to_uint w x = None"

section \<open>Values and rounding error\<close>

definition quot :: "int \<Rightarrow> int \<Rightarrow> real" where
  "quot n d = real_of_int n / real_of_int d"

fun f_val :: "ieee \<Rightarrow> real" where
  "f_val (F_Fin s m e) = (if s then - 1 else 1) * real_of_int m * 2 powi e"
| "f_val x = 0"

lemma two_powi_nat: "0 \<le> e \<Longrightarrow> (2::real) powi e = 2 ^ nat e"
  by (simp add: power_int_def)

lemma two_powi_neg: "e < 0 \<Longrightarrow> (2::real) powi e = 1 / 2 ^ nat (- e)"
  unfolding power_int_def by (simp add: power_one_over inverse_eq_divide)

lemma two_powi_pos [simp]: "0 < (2::real) powi e"
  by (simp add: zero_less_power_int)

lemma over_pow_pos:
  assumes "0 < d" "over_pow n d e = (a, b)"
  shows "0 < b" and "0 \<le> n \<Longrightarrow> 0 \<le> a" and "0 < n \<Longrightarrow> 0 < a"
  using assms by (auto simp: over_pow_def split: if_splits)

lemma over_pow_quot:
  assumes "0 < d" "over_pow n d e = (a, b)"
  shows "quot a b * 2 powi e = quot n d"
  using assms
  by (auto simp: over_pow_def quot_def two_powi_nat two_powi_neg field_simps split: if_splits)

lemma scale_quot:
  assumes "scale m e = (n, d)"
  shows "0 < d" and "quot n d = real_of_int m * 2 powi e" and "0 \<le> m \<Longrightarrow> 0 \<le> n"
    and "0 < m \<Longrightarrow> 0 < n"
  using assms by (auto simp: scale_def quot_def two_powi_nat two_powi_neg split: if_splits)

lemma blen_bounds: "0 < n \<Longrightarrow> 0 < blen n \<and> 2 ^ nat (blen n - 1) \<le> n \<and> n < 2 ^ nat (blen n)"
proof (induction n rule: blen.induct)
  case (1 n)
  show ?case
  proof (cases "n = 1")
    case True
    then show ?thesis by (simp add: blen.simps [of 1] blen.simps [of 0])
  next
    case False
    with "1.prems" have two: "2 \<le> n" by simp
    then have "\<not> n \<le> 0" and "0 < n div 2" by auto
    with "1.IH" have IH: "0 < blen (n div 2)" "2 ^ nat (blen (n div 2) - 1) \<le> n div 2"
        "n div 2 < 2 ^ nat (blen (n div 2))" by auto
    have b: "blen n = 1 + blen (n div 2)" using \<open>\<not> n \<le> 0\<close> by (simp add: blen.simps [of n])
    define k where "k = nat (blen (n div 2) - 1)"
    have k: "nat (blen (n div 2)) = Suc k" "nat (blen n - 1) = Suc k" "nat (blen n) = Suc (Suc k)"
      using IH(1) b by (auto simp: k_def)
    have "2 ^ k \<le> n div 2" "n div 2 < 2 ^ Suc k" using IH(2,3) k by (auto simp: k_def)
    then have "2 ^ Suc k \<le> n \<and> n < 2 ^ Suc (Suc k)" by auto
    then show ?thesis using b IH(1) k by simp
  qed
qed

lemma blen_real:
  assumes "0 < n"
  shows "2 powi (blen n - 1) \<le> real_of_int n" and "real_of_int n < 2 powi (blen n)"
proof -
  from blen_bounds [OF assms] have b: "0 < blen n" "2 ^ nat (blen n - 1) \<le> n" "n < 2 ^ nat (blen n)"
    by auto
  from b(2) have "real_of_int (2 ^ nat (blen n - 1)) \<le> real_of_int n" by (simp only: of_int_le_iff)
  then show "2 powi (blen n - 1) \<le> real_of_int n" using b(1) by (simp add: two_powi_nat)
  from b(3) have "real_of_int n < real_of_int (2 ^ nat (blen n))" by (simp only: of_int_less_iff)
  then show "real_of_int n < 2 powi (blen n)" using b(1) by (simp add: two_powi_nat)
qed

lemma floor_log_frac_bounds:
  assumes "0 < n" "0 < d"
  shows "2 powi (floor_log_frac n d) \<le> quot n d" and "quot n d < 2 powi (floor_log_frac n d + 1)"
proof -
  define k where "k = blen n - blen d"
  obtain a b where ab: "over_pow n d k = (a, b)" by (cases "over_pow n d k")
  have b0: "0 < b" using over_pow_pos(1) assms ab by blast
  have q: "quot a b * 2 powi k = quot n d" using over_pow_quot assms ab by blast
  have d0: "0 < real_of_int d" using assms by simp
  have "quot n d < 2 powi (blen n) / real_of_int d"
    unfolding quot_def using blen_real(2) [OF assms(1)] d0 by (simp add: divide_strict_right_mono)
  also have "\<dots> \<le> 2 powi (blen n) / 2 powi (blen d - 1)"
    using blen_real(1) [OF assms(2)] by (simp add: frac_le)
  also have "\<dots> = 2 powi (k + 1)"
    by (simp add: k_def power_int_diff [symmetric] algebra_simps)
  finally have hi: "quot n d < 2 powi (k + 1)" .
  have "2 powi (k - 1) = 2 powi (blen n - 1) / (2::real) powi (blen d)"
    by (simp add: k_def power_int_diff [symmetric] algebra_simps)
  also have "\<dots> \<le> 2 powi (blen n - 1) / real_of_int d"
    using blen_real(2) [OF assms(2)] d0 by (simp add: frac_le)
  also have "\<dots> \<le> quot n d"
    unfolding quot_def using blen_real(1) [OF assms(1)] d0 by (simp add: divide_right_mono)
  finally have lo: "2 powi (k - 1) \<le> quot n d" .
  have fl: "floor_log_frac n d = (if b \<le> a then k else k - 1)"
    by (simp add: floor_log_frac_def Let_def ab flip: k_def)
  have ba: "b \<le> a \<longleftrightarrow> 1 \<le> quot a b" using b0 by (simp add: quot_def)
  have kq: "1 \<le> quot a b \<longleftrightarrow> 2 powi k \<le> quot n d"
  proof -
    have "1 \<le> quot a b \<longleftrightarrow> 1 * 2 powi k \<le> quot a b * 2 powi k" by (simp only: mult_le_cancel_right_pos [OF two_powi_pos])
    then show ?thesis by (simp add: q)
  qed
  show "2 powi (floor_log_frac n d) \<le> quot n d" using fl ba kq lo by simp
  show "quot n d < 2 powi (floor_log_frac n d + 1)" using fl ba kq hi by (cases "b \<le> a") auto
qed

lemma round_div_error:
  assumes "0 < b"
  shows "\<bar>real_of_int (round_div a b) - quot a b\<bar> \<le> 1 / 2"
proof -
  define q r where "q = a div b" and "r = a mod b"
  have a: "a = b * q + r" by (simp add: q_def r_def)
  have r: "0 \<le> r" "r < b" using assms by (simp_all add: r_def)
  define x where "x = real_of_int r / real_of_int b"
  have q: "quot a b = real_of_int q + x"
    unfolding quot_def a x_def using assms by (simp add: field_simps)
  have x: "0 \<le> x" "x < 1" using r assms by (simp_all add: x_def)
  have up: "1 / 2 \<le> x" if "b \<le> 2 * r"
    using that assms by (simp add: x_def field_simps)
  have down: "x \<le> 1 / 2" if "2 * r \<le> b"
    using that assms by (simp add: x_def field_simps)
  show ?thesis
  proof (cases "b < 2 * r \<or> (2 * r = b \<and> odd q)")
    case True
    then have "round_div a b = q + 1" and "1 / 2 \<le> x"
      using up by (auto simp: round_div_def Let_def simp flip: q_def r_def)
    then show ?thesis using q x by simp
  next
    case False
    then have "round_div a b = q" and "x \<le> 1 / 2"
      using down by (auto simp: round_div_def Let_def simp flip: q_def r_def)
    then show ?thesis using q x by simp
  qed
qed


lemma round_div_nonneg: "0 \<le> a \<Longrightarrow> 0 < b \<Longrightarrow> 0 \<le> round_div a b"
  by (simp add: round_div_def Let_def pos_imp_zdiv_nonneg_iff)

lemma round_div_le:
  assumes "0 < b" and "quot a b \<le> real_of_int c"
  shows "round_div a b \<le> c"
proof -
  have "real_of_int (round_div a b) \<le> real_of_int c + 1 / 2"
    using round_div_error [OF assms(1), of a] assms(2) by arith
  then show ?thesis by linarith
qed

lemma round_div_exact: "0 < b \<Longrightarrow> quot a b = real_of_int c \<Longrightarrow> round_div a b = c"
  using round_div_error [of b a] by linarith

text \<open>The significand before the carry: at most \<open>2 ^ p\<close>.\<close>

lemma unit_exp_upper:
  assumes "0 < n" "0 < d"
  shows "quot n d < 2 powi (unit_exp f n d + int (f_prec f))"
proof -
  have "quot n d < 2 powi (floor_log_frac n d + 1)"
    using floor_log_frac_bounds(2) [OF assms] .
  also have "\<dots> \<le> 2 powi (unit_exp f n d + int (f_prec f))"
    by (rule power_int_increasing) (auto simp: unit_exp_def)
  finally show ?thesis .
qed

lemma round_frac_cases:
  assumes n: "0 < n" and d: "0 < d" and p: "0 < f_prec f"
  obtains (overflow) "round_frac f s n d = F_Inf s"
  | (finite) m e where "round_frac f s n d = F_Fin s m e" and "0 \<le> m" and "m < 2 ^ f_prec f"
      and "f_emin f \<le> e" and "e \<le> f_emax f"
      and "\<bar>real_of_int m * 2 powi e - quot n d\<bar> \<le> 2 powi (unit_exp f n d) / 2"
proof -
  define e where "e = unit_exp f n d"
  obtain a b where ab: "over_pow n d e = (a, b)" by (cases "over_pow n d e")
  have b0: "0 < b" and a0: "0 < a" using over_pow_pos [OF d ab] n by auto
  have q: "quot a b * 2 powi e = quot n d" by (rule over_pow_quot [OF d ab])
  define m where "m = round_div a b"
  define m' e' where "m' = (if m = 2 ^ f_prec f then 2 ^ (f_prec f - 1) else m)"
    and "e' = (if m = 2 ^ f_prec f then e + 1 else e)"
  have val: "real_of_int m' * 2 powi e' = real_of_int m * 2 powi e"
    using p by (cases "f_prec f") (auto simp: m'_def e'_def power_int_add)
  have "quot a b * 2 powi e < 2 powi (int (f_prec f)) * 2 powi e"
    using unit_exp_upper [OF n d, of f] q by (simp add: e_def power_int_add mult.commute)
  then have "quot a b < 2 ^ f_prec f"
    using mult_less_cancel_right_pos [OF two_powi_pos [of e]] by (simp add: two_powi_nat)
  then have "quot a b \<le> real_of_int (2 ^ f_prec f)" by simp
  then have "m \<le> 2 ^ f_prec f" unfolding m_def by (rule round_div_le [OF b0])
  then have mlt: "m' < 2 ^ f_prec f" using p by (auto simp: m'_def)
  have m0: "0 \<le> m'" using round_div_nonneg [of a b] a0 b0 by (simp add: m'_def m_def)
  have emin: "f_emin f \<le> e'" by (auto simp: e'_def e_def unit_exp_def)
  have "\<bar>real_of_int m * 2 powi e - quot n d\<bar> = \<bar>real_of_int m - quot a b\<bar> * 2 powi e"
    unfolding q [symmetric] by (simp add: abs_mult flip: left_diff_distrib)
  also have "\<dots> \<le> 1 / 2 * 2 powi e"
    by (rule mult_right_mono) (use round_div_error [OF b0] in \<open>auto simp: m_def less_imp_le\<close>)
  finally have err: "\<bar>real_of_int m' * 2 powi e' - quot n d\<bar> \<le> 2 powi e / 2" by (simp add: val)
  have rf: "round_frac f s n d = (if f_emax f < e' then F_Inf s else F_Fin s m' e')"
    using n ab by (simp add: round_frac_def Let_def m'_def e'_def flip: e_def m_def)
  show thesis
  proof (cases "f_emax f < e'")
    case True
    then show ?thesis using overflow rf by simp
  next
    case False
    then show ?thesis using finite [of m' e'] rf m0 mlt emin err by (simp add: e_def)
  qed
qed

lemma powi_less_cancel: "2 powi i < (2::real) powi j \<Longrightarrow> i < j"
  by (meson leD linorder_not_less power_int_increasing one_le_numeral)

text \<open>A value the format represents is not rounded.\<close>

lemma round_frac_exact:
  assumes m: "0 < m" "m < 2 ^ f_prec f" and e: "f_emin f \<le> e" and d: "0 < d"
    and q: "quot n d = real_of_int m * 2 powi e"
    and p: "0 < f_prec f" and em: "f_emin f \<le> f_emax f" and top: "m < 2 ^ g" "e + int g \<le> f_emax f + int (f_prec f)"
  shows "\<exists>m' e'. round_frac f s n d = F_Fin s m' e' \<and> 0 < m' \<and> real_of_int m' * 2 powi e' = real_of_int m * 2 powi e"
proof -
  have "0 < quot n d" using q m by simp
  then have n: "0 < n" using d by (auto simp: quot_def zero_less_divide_iff)
  define k where "k = floor_log_frac n d"
  have lo: "2 powi k \<le> quot n d" using floor_log_frac_bounds(1) [OF n d] by (simp add: k_def)
  have kp: "k - int (f_prec f) < e"
  proof -
    have "real_of_int m < real_of_int (2 ^ f_prec f)" using m by (simp only: of_int_less_iff)
    then have "quot n d < 2 powi (int (f_prec f)) * 2 powi e"
      unfolding q by (simp add: two_powi_nat)
    with lo have "2 powi k < (2::real) powi (int (f_prec f) + e)" by (simp add: power_int_add)
    then show ?thesis using powi_less_cancel by fastforce
  qed
  have kg: "k < int g + e"
  proof -
    have "real_of_int m < real_of_int (2 ^ g)" using top by (simp only: of_int_less_iff)
    then have "quot n d < 2 powi (int g) * 2 powi e"
      unfolding q by (simp add: two_powi_nat)
    with lo have "2 powi k < (2::real) powi (int g + e)" by (simp add: power_int_add)
    then show ?thesis using powi_less_cancel by fastforce
  qed
  define u where "u = unit_exp f n d"
  have ue: "u \<le> e" using kp e by (simp add: u_def unit_exp_def k_def)
  obtain a b where ab: "over_pow n d u = (a, b)" by (cases "over_pow n d u")
  have b0: "0 < b" using over_pow_pos [OF d ab] by auto
  have "quot a b * 2 powi u = real_of_int (m * 2 ^ nat (e - u)) * 2 powi u"
    using over_pow_quot [OF d ab] q ue by (simp add: two_powi_nat [symmetric] power_int_diff)
  then have "quot a b = real_of_int (m * 2 ^ nat (e - u))" by simp
  then have rd: "round_div a b = m * 2 ^ nat (e - u)" by (rule round_div_exact [OF b0])
  define r where "r = m * 2 ^ nat (e - u)"
  have r0: "0 < r" using m by (simp add: r_def)
  have val: "real_of_int r * 2 powi u = real_of_int m * 2 powi e"
    using ue by (simp add: r_def two_powi_nat [symmetric] power_int_diff)
  have rlt: "r < 2 ^ f_prec f"
  proof -
    have "real_of_int r * 2 powi u < 2 powi (int (f_prec f)) * 2 powi u"
      using unit_exp_upper [OF n d, of f] q val by (simp add: u_def power_int_add mult.commute)
    then have "real_of_int r < 2 ^ f_prec f"
      using mult_less_cancel_right_pos [OF two_powi_pos [of u]] by (simp add: two_powi_nat)
    then have "real_of_int r < real_of_int (2 ^ f_prec f)" by simp
    then show ?thesis by (simp only: of_int_less_iff)
  qed
  have "u \<le> f_emax f"
  proof (cases "u = f_emin f")
    case True
    then show ?thesis using em by simp
  next
    case False
    then have "u = k - int (f_prec f) + 1" by (auto simp: u_def unit_exp_def k_def max_def split: if_splits)
    with kg top show ?thesis by simp
  qed
  then have "round_frac f s n d = F_Fin s r u"
    using n ab rd rlt by (simp add: round_frac_def Let_def flip: u_def r_def)
  then show ?thesis using r0 val by blast
qed

section \<open>Canonical values and their 32-bit patterns\<close>

fun f_canon :: "fmt \<Rightarrow> ieee \<Rightarrow> bool" where
  "f_canon f (F_Fin s m e) \<longleftrightarrow>
     0 \<le> m \<and> m < 2 ^ f_prec f \<and> f_emin f \<le> e \<and> e \<le> f_emax f \<and>
     (2 ^ (f_prec f - 1) \<le> m \<or> e = f_emin f)"
| "f_canon f x \<longleftrightarrow> True"

definition f32_bits :: "ieee \<Rightarrow> u32" where
  "f32_bits x =
     (case x of
        F_NaN \<Rightarrow> 0x7FC00000
      | F_Inf s \<Rightarrow> word_of_int ((if s then 2 ^ 31 else 0) + 255 * 2 ^ 23)
      | F_Fin s m e \<Rightarrow>
          word_of_int ((if s then 2 ^ 31 else 0) +
            (if m < 2 ^ 23 then m else (e + 150) * 2 ^ 23 + (m - 2 ^ 23))))"

definition f32_of_bits :: "u32 \<Rightarrow> ieee" where
  "f32_of_bits w =
     (let v = uint w; s = (2 ^ 31 \<le> v); field = v div 2 ^ 23 mod 256; frac = v mod 2 ^ 23
      in if field = 255 then (if frac = 0 then F_Inf s else F_NaN)
         else if field = 0 then F_Fin s frac (- 149)
         else F_Fin s (frac + 2 ^ 23) (field - 150))"

lemma uint_word_of_int_u32: "0 \<le> v \<Longrightarrow> v < 2 ^ 32 \<Longrightarrow> uint (word_of_int v :: u32) = v"
  by (simp add: uint_word_of_int)

lemma f32_of_bits_fields:
  fixes s :: bool and fi fr :: int
  assumes "0 \<le> fr" "fr < 2 ^ 23" "0 \<le> fi" "fi < 256"
  defines "v \<equiv> (if s then 2 ^ 31 else 0) + (fi * 2 ^ 23 + fr)"
  shows "(2 ^ 31 \<le> v) = s" and "v div 2 ^ 23 mod 256 = fi" and "v mod 2 ^ 23 = fr"
    and "0 \<le> v" and "v < 2 ^ 32"
proof -
  have v: "v = ((if s then 256 else 0) + fi) * 2 ^ 23 + fr" by (simp add: v_def)
  have hi: "v div 2 ^ 23 = (if s then 256 else 0) + fi"
    unfolding v using assms by simp
  show "v mod 2 ^ 23 = fr" unfolding v using assms by (simp only: mod_mult_self3 mod_pos_pos_trivial)
  show "v div 2 ^ 23 mod 256 = fi" unfolding hi using assms by simp
  show "(2 ^ 31 \<le> v) = s" "0 \<le> v" "v < 2 ^ 32" using assms by (auto simp: v_def)
qed

lemma f32_of_bits_word:
  assumes "0 \<le> fr" "fr < 2 ^ 23" "0 \<le> fi" "fi < 256"
  shows "f32_of_bits (word_of_int ((if s then 2 ^ 31 else 0) + (fi * 2 ^ 23 + fr))) =
     (if fi = 255 then (if fr = 0 then F_Inf s else F_NaN)
      else if fi = 0 then F_Fin s fr (- 149)
      else F_Fin s (fr + 2 ^ 23) (fi - 150))"
  unfolding f32_of_bits_def Let_def
  by (simp only: uint_word_of_int_u32 f32_of_bits_fields [OF assms])

lemma f32_bits_roundtrip: "f_canon binary32 x \<Longrightarrow> f32_of_bits (f32_bits x) = x"
proof (cases x)
  case F_NaN
  then show ?thesis by (simp add: f32_bits_def f32_of_bits_def)
next
  case (F_Inf s)
  have "f32_of_bits (word_of_int ((if s then 2 ^ 31 else 0) + (255 * 2 ^ 23 + 0))) = F_Inf s"
    by (subst f32_of_bits_word) simp_all
  then show ?thesis by (simp add: F_Inf f32_bits_def)
next
  case (F_Fin s m e)
  assume "f_canon binary32 x"
  then have c: "0 \<le> m" "m < 2 ^ 24" "- 149 \<le> e" "e \<le> 104" "2 ^ 23 \<le> m \<or> e = - 149"
    by (simp_all add: F_Fin binary32_def)
  show ?thesis
  proof (cases "m < 2 ^ 23")
    case True
    then have e: "e = - 149" using c by auto
    have "f32_of_bits (word_of_int ((if s then 2 ^ 31 else 0) + (0 * 2 ^ 23 + m))) = F_Fin s m (- 149)"
      by (subst f32_of_bits_word) (use c True in simp_all)
    then show ?thesis using True e by (simp add: F_Fin f32_bits_def)
  next
    case False
    have "f32_of_bits (word_of_int ((if s then 2 ^ 31 else 0) + ((e + 150) * 2 ^ 23 + (m - 2 ^ 23)))) =
        F_Fin s m e"
      by (subst f32_of_bits_word) (use c False in simp_all)
    then show ?thesis using False by (simp add: F_Fin f32_bits_def del: Suc_eq_plus1)
  qed
qed

lemma round_frac_canon:
  assumes n: "0 \<le> n" and d: "0 < d" and p: "0 < f_prec f" and em: "f_emin f \<le> f_emax f"
  shows "f_canon f (round_frac f s n d)"
proof (cases "n = 0")
  case True
  then show ?thesis using em by (simp add: round_frac_def)
next
  case False
  with n have n: "0 < n" by simp
  define e where "e = unit_exp f n d"
  obtain a b where ab: "over_pow n d e = (a, b)" by (cases "over_pow n d e")
  have b0: "0 < b" using over_pow_pos [OF d ab] by auto
  have low: "2 ^ (f_prec f - 1) \<le> round_div a b" if "e \<noteq> f_emin f"
  proof -
    have fl: "floor_log_frac n d = e + int (f_prec f - 1)"
      using that p by (auto simp: e_def unit_exp_def max_def split: if_splits)
    have "2 powi (int (f_prec f - 1)) * 2 powi e \<le> quot a b * 2 powi e"
      using floor_log_frac_bounds(1) [OF n d] over_pow_quot [OF d ab]
      by (simp add: fl power_int_add mult.commute)
    then have "real_of_int (2 ^ (f_prec f - 1)) \<le> quot a b"
      by (simp add: two_powi_nat)
    then have "real_of_int (2 ^ (f_prec f - 1)) - 1 / 2 \<le> real_of_int (round_div a b)"
      using round_div_error [OF b0, of a] by linarith
    then show ?thesis by linarith
  qed
  show ?thesis
  proof (rule round_frac_cases [OF n d p, of s])
    assume "round_frac f s n d = F_Inf s"
    then show ?thesis by simp
  next
    fix m' e'
    assume finite: "round_frac f s n d = F_Fin s m' e'" "0 \<le> m'" "m' < 2 ^ f_prec f"
      "f_emin f \<le> e'" "e' \<le> f_emax f"
    have "2 ^ (f_prec f - 1) \<le> m' \<or> e' = f_emin f"
      using finite(1) n ab low
      by (auto simp: round_frac_def Let_def simp flip: e_def split: if_splits)
    with finite show ?thesis by simp
  qed
qed

lemma binary32_fmt [simp]:
  "f_prec binary32 = 24" "f_emin binary32 = - 149" "f_emax binary32 = 104"
  by (simp_all add: binary32_def)

lemma binary64_fmt [simp]:
  "f_prec binary64 = 53" "f_emin binary64 = - 1074" "f_emax binary64 = 971"
  by (simp_all add: binary64_def)

lemma f_of_int_canon32 [simp]: "f_canon binary32 (f_of_int binary32 i)"
  by (simp add: f_of_int_def round_frac_canon)

lemma f_neg_canon [simp]: "f_canon f (f_neg x) = f_canon f x"
  by (cases x) simp_all

lemma f_mul_canon32:
  assumes "f_canon binary32 x" "f_canon binary32 y"
  shows "f_canon binary32 (f_mul binary32 x y)"
proof (cases "\<exists>s m e t k g. x = F_Fin s m e \<and> y = F_Fin t k g")
  case True
  then obtain s m e t k g where xy: "x = F_Fin s m e" "y = F_Fin t k g" by blast
  obtain n d where nd: "scale (m * k) (e + g) = (n, d)" by (cases "scale (m * k) (e + g)")
  have "0 \<le> m * k" using assms xy by simp
  then show ?thesis using scale_quot(1,3) [OF nd] by (simp add: xy nd round_frac_canon)
next
  case False
  then show ?thesis by (cases x; cases y) auto
qed

lemma f_div_canon32:
  assumes "f_canon binary32 x" "f_canon binary32 y"
  shows "f_canon binary32 (f_div binary32 x y)"
proof (cases "\<exists>s m e t k g. x = F_Fin s m e \<and> y = F_Fin t k g")
  case True
  then obtain s m e t k g where xy: "x = F_Fin s m e" "y = F_Fin t k g" by blast
  obtain n d where nd: "scale m (e - g) = (n, d)" by (cases "scale m (e - g)")
  have "0 \<le> m" "0 \<le> k" using assms xy by simp_all
  then show ?thesis using scale_quot(1,3) [OF nd]
    by (cases "k = 0") (simp_all add: xy nd round_frac_canon)
next
  case False
  then show ?thesis by (cases x; cases y) auto
qed

lemma f_of_int_exact32:
  assumes "\<bar>i\<bar> < 2 ^ 24"
  shows "\<exists>m e. f_of_int binary32 i = F_Fin (i < 0) m e \<and> real_of_int m * 2 powi e = real_of_int \<bar>i\<bar>"
proof (cases "i = 0")
  case True
  then show ?thesis by (simp add: f_of_int_def round_frac_def)
next
  case False
  then have "\<exists>m e. round_frac binary32 (i < 0) \<bar>i\<bar> 1 = F_Fin (i < 0) m e \<and> 0 < m \<and>
      real_of_int m * 2 powi e = real_of_int \<bar>i\<bar> * 2 powi 0"
    by (intro round_frac_exact [where g = 24]) (use assms in \<open>auto simp: quot_def\<close>)
  then show ?thesis by (auto simp: f_of_int_def)
qed

lemma f_of_int_val32: "\<bar>i\<bar> < 2 ^ 24 \<Longrightarrow> f_val (f_of_int binary32 i) = real_of_int i"
  using f_of_int_exact32 [of i] by auto

section \<open>The normal range\<close>

text \<open>In the normal range the result is finite, normal, and within half a unit: a relative error.\<close>

lemma round_frac_normal:
  assumes n: "0 < n" and d: "0 < d" and p: "1 < f_prec f" and em: "f_emin f < f_emax f"
    and lo: "2 powi (f_emin f + int (f_prec f) - 1) \<le> quot n d"
    and hi: "quot n d < 2 powi (f_emax f + int (f_prec f) - 1)"
  obtains m e where "round_frac f s n d = F_Fin s m e" and "2 ^ (f_prec f - 1) \<le> m"
    and "\<bar>real_of_int m * 2 powi e - quot n d\<bar> \<le> quot n d * 2 powi (- int (f_prec f))"
proof -
  define k where "k = floor_log_frac n d"
  have k: "2 powi k \<le> quot n d" "quot n d < 2 powi (k + 1)"
    using floor_log_frac_bounds [OF n d] by (simp_all add: k_def)
  have "2 powi (f_emin f + int (f_prec f) - 1) < (2::real) powi (k + 1)" using lo k(2) by linarith
  then have k1: "f_emin f + int (f_prec f) - 1 \<le> k" using powi_less_cancel by fastforce
  have "2 powi k < (2::real) powi (f_emax f + int (f_prec f) - 1)" using hi k(1) by linarith
  then have k2: "k < f_emax f + int (f_prec f) - 1" by (rule powi_less_cancel)
  have u: "unit_exp f n d = k - int (f_prec f) + 1" using k1 by (simp add: unit_exp_def k_def)
  have p': "0 < f_prec f" using p by simp
  show thesis
  proof (rule round_frac_cases [OF n d p', of s])
    assume "round_frac f s n d = F_Inf s"
    then have False
      using n k2 u by (auto simp: round_frac_def Let_def split: prod.splits if_splits)
    then show thesis ..
  next
    fix m e
    assume fin: "round_frac f s n d = F_Fin s m e" "0 \<le> m" "m < 2 ^ f_prec f" "f_emin f \<le> e"
      "e \<le> f_emax f" and err: "\<bar>real_of_int m * 2 powi e - quot n d\<bar> \<le> 2 powi (unit_exp f n d) / 2"
    have "unit_exp f n d = 1 + (k + (- int (f_prec f)))" unfolding u by simp
    then have "2 powi (unit_exp f n d) = (2::real) powi (1 + (k + (- int (f_prec f))))" by simp
    also have "\<dots> = 2 powi 1 * (2 powi k * 2 powi (- int (f_prec f)))"
      by (metis power_int_add zero_neq_numeral)
    finally have "2 powi (unit_exp f n d) / 2 = (2::real) powi k * 2 powi (- int (f_prec f))" by simp
    also have "\<dots> \<le> quot n d * 2 powi (- int (f_prec f))"
      by (rule mult_right_mono [OF k(1)]) (simp add: less_imp_le)
    finally have err2: "\<bar>real_of_int m * 2 powi e - quot n d\<bar> \<le> quot n d * 2 powi (- int (f_prec f))"
      using err by linarith
    have "f_canon f (round_frac f s n d)" using n d p em by (intro round_frac_canon) auto
    then have c: "2 ^ (f_prec f - 1) \<le> m \<or> e = f_emin f" using fin(1) by simp
    have "2 ^ (f_prec f - 1) \<le> m"
    proof (rule ccontr)
      assume neg: "\<not> ?thesis"
      then have e: "e = f_emin f" and "m \<le> 2 ^ (f_prec f - 1) - 1" using c by auto
      then have "real_of_int m \<le> real_of_int (2 ^ (f_prec f - 1) - 1)" by (simp only: of_int_le_iff)
      then have "real_of_int m * 2 powi e \<le> (2 ^ (f_prec f - 1) - 1) * 2 powi e"
        by (intro mult_right_mono) (simp_all add: less_imp_le)
      moreover have "2 powi (f_emin f + int (f_prec f) - 1) = 2 ^ (f_prec f - 1) * (2::real) powi e"
      proof -
        have "f_emin f + int (f_prec f) - 1 = int (f_prec f - 1) + e" using p e by simp
        then show ?thesis by (simp only: power_int_add two_powi_nat) (simp add: power_int_add two_powi_nat)
      qed
      ultimately have gap: "real_of_int m * 2 powi e \<le> 2 powi (f_emin f + int (f_prec f) - 1) - 2 powi e"
        by (simp add: algebra_simps)
      have "k = f_emin f + int (f_prec f) - 1"
      proof (rule ccontr)
        assume "k \<noteq> f_emin f + int (f_prec f) - 1"
        then have "unit_exp f n d \<noteq> f_emin f" using u by simp
        moreover have "e = unit_exp f n d \<or> e = unit_exp f n d + 1"
          using fin(1) n by (auto simp: round_frac_def Let_def split: prod.splits if_splits)
        moreover have "f_emin f \<le> unit_exp f n d" by (simp add: unit_exp_def)
        ultimately show False using e by auto
      qed
      then have "unit_exp f n d = e" using u e by simp
      then have "\<bar>real_of_int m * 2 powi e - quot n d\<bar> \<le> 2 powi e / 2" using err by (simp only:)
      then have "quot n d - real_of_int m * 2 powi e \<le> 2 powi e / 2" by linarith
      moreover have "0 < (2::real) powi e" by simp
      ultimately show False using gap lo by linarith
    qed
    then show thesis using that fin(1) err2 by blast
  qed
qed

lemma f_less_val:
  "f_less (F_Fin s m e) (F_Fin t k g) \<longleftrightarrow> f_val (F_Fin s m e) < f_val (F_Fin t k g)"
proof -
  define u where "u = min e g"
  have v: "f_val (F_Fin r i h) = real_of_int (signed_at r i h u) * 2 powi u" if "u \<le> h" for r i h
  proof -
    have "(2::real) powi h = 2 ^ nat (h - u) * 2 powi u"
      using that by (simp add: two_powi_nat [symmetric] power_int_add [symmetric])
    then show ?thesis by (simp add: signed_at_def)
  qed
  have "f_val (F_Fin s m e) < f_val (F_Fin t k g) \<longleftrightarrow>
      real_of_int (signed_at s m e u) * 2 powi u < real_of_int (signed_at t k g u) * 2 powi u"
    using v [of e s m] v [of g t k] by (simp add: u_def)
  also have "\<dots> \<longleftrightarrow> real_of_int (signed_at s m e u) < real_of_int (signed_at t k g u)"
    by (rule mult_less_cancel_right_pos) simp
  finally show ?thesis by (simp add: u_def)
qed

section \<open>Relative error of the operations\<close>

lemma round_frac_rel:
  assumes n: "0 < n" and d: "0 < d" and p: "1 < f_prec f" and em: "f_emin f < f_emax f"
    and lo: "2 powi (f_emin f + int (f_prec f) - 1) \<le> quot n d"
    and hi: "quot n d < 2 powi (f_emax f + int (f_prec f) - 1)"
  shows "\<exists>m e. round_frac f s n d = F_Fin s m e \<and> 2 ^ (f_prec f - 1) \<le> m \<and> m < 2 ^ f_prec f \<and>
    f_emin f \<le> e \<and> e \<le> f_emax f \<and>
    \<bar>real_of_int m * 2 powi e - quot n d\<bar> \<le> quot n d * 2 powi (- int (f_prec f))"
proof -
  obtain m e where me: "round_frac f s n d = F_Fin s m e" "2 ^ (f_prec f - 1) \<le> m"
    "\<bar>real_of_int m * 2 powi e - quot n d\<bar> \<le> quot n d * 2 powi (- int (f_prec f))"
    by (rule round_frac_normal [OF n d p em lo hi])
  have "f_canon f (round_frac f s n d)" using n d p em by (intro round_frac_canon) auto
  then show ?thesis using me by auto
qed

lemma f_div_rel:
  assumes m: "0 < m" and k: "0 < k" and p: "1 < f_prec f" and em: "f_emin f < f_emax f"
    and q: "q = (real_of_int m * 2 powi e) / (real_of_int k * 2 powi g)"
    and lo: "2 powi (f_emin f + int (f_prec f) - 1) \<le> q" and hi: "q < 2 powi (f_emax f + int (f_prec f) - 1)"
  shows "\<exists>m' e'. f_div f (F_Fin s m e) (F_Fin t k g) = F_Fin (s \<noteq> t) m' e' \<and>
    2 ^ (f_prec f - 1) \<le> m' \<and> m' < 2 ^ f_prec f \<and> f_emin f \<le> e' \<and> e' \<le> f_emax f \<and>
    \<bar>real_of_int m' * 2 powi e' - q\<bar> \<le> q * 2 powi (- int (f_prec f))"
proof -
  obtain n d where nd: "scale m (e - g) = (n, d)" by (cases "scale m (e - g)")
  have "quot n (d * k) = quot n d / real_of_int k" by (simp add: quot_def)
  also have "\<dots> = q" using scale_quot(2) [OF nd] k by (simp add: q power_int_diff)
  finally have qq: "quot n (d * k) = q" .
  have "0 < n" "0 < d * k" using scale_quot(1,4) [OF nd] m k by simp_all
  then show ?thesis using round_frac_rel [of n "d * k" f "s \<noteq> t"] p em lo hi qq nd k by simp
qed

lemma f_mul_rel:
  assumes m: "0 < m" and k: "0 < k" and p: "1 < f_prec f" and em: "f_emin f < f_emax f"
    and q: "q = (real_of_int m * 2 powi e) * (real_of_int k * 2 powi g)"
    and lo: "2 powi (f_emin f + int (f_prec f) - 1) \<le> q" and hi: "q < 2 powi (f_emax f + int (f_prec f) - 1)"
  shows "\<exists>m' e'. f_mul f (F_Fin s m e) (F_Fin t k g) = F_Fin (s \<noteq> t) m' e' \<and>
    2 ^ (f_prec f - 1) \<le> m' \<and> m' < 2 ^ f_prec f \<and> f_emin f \<le> e' \<and> e' \<le> f_emax f \<and>
    \<bar>real_of_int m' * 2 powi e' - q\<bar> \<le> q * 2 powi (- int (f_prec f))"
proof -
  obtain n d where nd: "scale (m * k) (e + g) = (n, d)" by (cases "scale (m * k) (e + g)")
  have qq: "quot n d = q" using scale_quot(2) [OF nd] by (simp add: q power_int_add)
  have "0 < n" "0 < d" using scale_quot(1,4) [OF nd] m k by simp_all
  then show ?thesis using round_frac_rel [of n d f "s \<noteq> t"] p em lo hi qq nd by simp
qed

lemma f_cast_rel:
  assumes m: "0 < m" and p: "1 < f_prec f" and em: "f_emin f < f_emax f"
    and q: "q = real_of_int m * 2 powi e"
    and lo: "2 powi (f_emin f + int (f_prec f) - 1) \<le> q" and hi: "q < 2 powi (f_emax f + int (f_prec f) - 1)"
  shows "\<exists>m' e'. f_cast f (F_Fin s m e) = F_Fin s m' e' \<and>
    2 ^ (f_prec f - 1) \<le> m' \<and> m' < 2 ^ f_prec f \<and> f_emin f \<le> e' \<and> e' \<le> f_emax f \<and>
    \<bar>real_of_int m' * 2 powi e' - q\<bar> \<le> q * 2 powi (- int (f_prec f))"
proof -
  obtain n d where nd: "scale m e = (n, d)" by (cases "scale m e")
  have "0 < n" "0 < d" using scale_quot(1,4) [OF nd] m by simp_all
  then show ?thesis using round_frac_rel [of n d f s] p em lo hi nd scale_quot(2) [OF nd] q by simp
qed

text \<open>An integer below \<open>2 ^ 53\<close> is exact as a double.\<close>

lemma f_of_int_exact64:
  assumes "\<bar>i\<bar> < 2 ^ 53"
  shows "\<exists>m e. f_of_int binary64 i = F_Fin (i < 0) m e \<and> 0 \<le> m \<and> real_of_int m * 2 powi e = real_of_int \<bar>i\<bar>"
proof (cases "i = 0")
  case True
  then show ?thesis by (simp add: f_of_int_def round_frac_def)
next
  case False
  then have "\<exists>m e. round_frac binary64 (i < 0) \<bar>i\<bar> 1 = F_Fin (i < 0) m e \<and> 0 < m \<and>
      real_of_int m * 2 powi e = real_of_int \<bar>i\<bar> * 2 powi 0"
    by (intro round_frac_exact [where g = 53]) (use assms in \<open>auto simp: quot_def\<close>)
  then show ?thesis by (auto simp: f_of_int_def)
qed

lemma f_eq_zero: "f_eq (F_Fin s m e) (F_Fin t 0 g) \<longleftrightarrow> m = 0"
  by (simp add: signed_at_def)

section \<open>Sums and casts are canonical\<close>

lemma f_add_canon64: "f_canon binary64 (f_add binary64 x y)"
proof (cases "\<exists>s m e t k g. x = F_Fin s m e \<and> y = F_Fin t k g")
  case True
  then obtain s m e t k g where xy: "x = F_Fin s m e" "y = F_Fin t k g" by blast
  define z where "z = signed_at s m e (min e g) + signed_at t k g (min e g)"
  obtain n d where nd: "scale \<bar>z\<bar> (min e g) = (n, d)" by (cases "scale \<bar>z\<bar> (min e g)")
  have "f_add binary64 x y = (if z = 0 then F_Fin (s \<and> t) 0 (f_emin binary64) else round_frac binary64 (z < 0) n d)"
    using nd by (simp add: xy z_def Let_def)
  moreover have "f_canon binary64 (round_frac binary64 b n d)" for b
    using scale_quot(1,3) [OF nd] by (intro round_frac_canon) auto
  ultimately show ?thesis by simp
next
  case False
  then show ?thesis by (cases x; cases y) auto
qed

lemma f_cast_canon32: "f_canon binary64 x \<Longrightarrow> f_canon binary32 (f_cast binary32 x)"
proof (cases x)
  case (F_Fin s m e)
  obtain n d where nd: "scale m e = (n, d)" by (cases "scale m e")
  assume "f_canon binary64 x"
  then have "0 \<le> m" by (simp add: F_Fin)
  then have "f_canon binary32 (round_frac binary32 s n d)"
    using scale_quot(1,3) [OF nd] by (intro round_frac_canon) auto
  then show ?thesis using nd by (simp add: F_Fin)
qed auto

end
