(* ===== verification/Modes.thy ===== *)
theory Modes
  imports Prelude Float_Model
begin

text \<open>
  The sensor mode table (\<open>device/dt1_modes.cpp\<close>, \<open>device/include/dt1_modes.h\<close>): the
  five modes with their frame geometry, the lookup of a mode by its name, and the facts
  the frame readers rely on (how the geometry of a mode fits the frame layout).
\<close>

section \<open>Data\<close>

datatype sync_mode = Sync_none | Sync_master | Sync_slave

record mode_info =
  mode_str :: string
  nbr_points_x :: int
  nbr_points_y :: int
  hist_frame_width :: int
  hist_frame_height :: int
  nbr_banks :: int
  tot_exposure :: ieee

definition mk_mode :: "string \<Rightarrow> int \<Rightarrow> int \<Rightarrow> int \<Rightarrow> int \<Rightarrow> int \<Rightarrow> int \<Rightarrow> mode_info" where
  "mk_mode s x y w h b t =
     \<lparr>mode_str = s, nbr_points_x = x, nbr_points_y = y, hist_frame_width = w,
      hist_frame_height = h, nbr_banks = b, tot_exposure = f_of_int binary32 t\<rparr>"

definition dt1_modes_list :: "mode_info list" where
  "dt1_modes_list =
     [mk_mode ''20m'' 24 24 800 504 24 32, mk_mode ''30mstd'' 24 24 800 252 12 32,
      mk_mode ''30m15f'' 24 24 800 252 12 65, mk_mode ''30m30f'' 24 12 800 126 6 32,
      mk_mode ''40m'' 24 24 800 252 12 65]"

definition cdc_mode_20m :: int where "cdc_mode_20m = 0"
definition cdc_mode_30mstd :: int where "cdc_mode_30mstd = 1"
definition cdc_mode_30m15f :: int where "cdc_mode_30m15f = 2"
definition cdc_mode_30m30f :: int where "cdc_mode_30m30f = 3"
definition cdc_mode_40m :: int where "cdc_mode_40m = 4"

definition equals_ignore_case :: "string \<Rightarrow> string \<Rightarrow> bool" where
  "equals_ignore_case a b \<longleftrightarrow> map to_lower a = map to_lower b"

text \<open>The loop of \<open>get_mode_nbr\<close> from index \<open>i\<close> on.\<close>

fun mode_search :: "string \<Rightarrow> int \<Rightarrow> mode_info list \<Rightarrow> int" where
  "mode_search s i [] = - 1"
| "mode_search s i (m # ms) =
     (if equals_ignore_case (mode_str m) s then i else mode_search s (i + 1) ms)"

definition get_mode_nbr :: "string \<Rightarrow> int" where
  "get_mode_nbr s = mode_search s 0 dt1_modes_list"

definition get_available_modes_str :: string where
  "get_available_modes_str = concat (map (\<lambda>m. mode_str m @ '' '') dt1_modes_list)"

definition valid_mode :: "int \<Rightarrow> bool" where
  "valid_mode m \<longleftrightarrow> 0 \<le> m \<and> m < int (length dt1_modes_list)"

definition mode_of :: "int \<Rightarrow> mode_info" where
  "mode_of m = dt1_modes_list ! nat m"

definition mode_points :: "int \<Rightarrow> int" where
  "mode_points m = nbr_points_x (mode_of m) * nbr_points_y (mode_of m)"

section \<open>Lemmas\<close>

lemma length_modes [simp]: "length dt1_modes_list = 5"
  by (simp add: dt1_modes_list_def)

lemma valid_mode_cases:
  assumes "valid_mode m"
  obtains "m = 0" | "m = 1" | "m = 2" | "m = 3" | "m = 4"
  using assms unfolding valid_mode_def length_modes by fastforce

lemma mode_of_simps:
  "mode_of 0 = mk_mode ''20m'' 24 24 800 504 24 32"
  "mode_of 1 = mk_mode ''30mstd'' 24 24 800 252 12 32"
  "mode_of 2 = mk_mode ''30m15f'' 24 24 800 252 12 65"
  "mode_of 3 = mk_mode ''30m30f'' 24 12 800 126 6 32"
  "mode_of 4 = mk_mode ''40m'' 24 24 800 252 12 65"
  by (simp_all add: mode_of_def dt1_modes_list_def)

lemmas mode_table = mode_of_simps mk_mode_def

lemma equals_ignore_case_lower:
  "equals_ignore_case a (map to_lower b) = equals_ignore_case a b"
  by (simp add: equals_ignore_case_def comp_def)

lemma mode_search_lower: "mode_search (map to_lower s) i ms = mode_search s i ms"
  by (induction ms arbitrary: i) (simp_all add: equals_ignore_case_lower)

lemma mode_search_range:
  "mode_search s i ms = - 1 \<or> (i \<le> mode_search s i ms \<and> mode_search s i ms < i + int (length ms))"
  by (induction ms arbitrary: i) fastforce+

lemma mode_search_found:
  assumes "0 \<le> i" and "mode_search s i ms \<noteq> - 1"
  shows "equals_ignore_case (mode_str (ms ! nat (mode_search s i ms - i))) s"
  using assms
proof (induction ms arbitrary: i)
  case Nil
  then show ?case by simp
next
  case (Cons m ms)
  show ?case
  proof (cases "equals_ignore_case (mode_str m) s")
    case True
    then show ?thesis by simp
  next
    case False
    have r: "i + 1 \<le> mode_search s (i + 1) ms"
      using mode_search_range [of s "i + 1" ms] Cons.prems False by simp
    have "equals_ignore_case (mode_str (ms ! nat (mode_search s (i + 1) ms - (i + 1)))) s"
      using Cons.IH [of "i + 1"] Cons.prems False by simp
    moreover have "nat (mode_search s (i + 1) ms - i) = Suc (nat (mode_search s (i + 1) ms - (i + 1)))"
      using r by simp
    ultimately show ?thesis using False by simp
  qed
qed

lemma mode_search_complete:
  "m \<in> set ms \<Longrightarrow> equals_ignore_case (mode_str m) s \<Longrightarrow> 0 \<le> i \<Longrightarrow> mode_search s i ms \<noteq> - 1"
proof (induction ms arbitrary: i)
  case (Cons a ms)
  then show ?case using mode_search_range [of s "i + 1" ms] by auto
qed simp

section \<open>Properties\<close>

text \<open>\<open>get_mode_nbr\<close> finds a mode exactly when the table has its name in any letter case, answers
  -1 otherwise, and does not depend on the case of its argument.\<close>

theorem get_mode_nbr_correct:
  "get_mode_nbr (map to_lower s) = get_mode_nbr s \<and>
   (if list_ex (\<lambda>m. equals_ignore_case (mode_str m) s) dt1_modes_list
    then valid_mode (get_mode_nbr s) \<and> equals_ignore_case (mode_str (mode_of (get_mode_nbr s))) s
    else get_mode_nbr s = - 1)"
proof -
  have lower: "get_mode_nbr (map to_lower s) = get_mode_nbr s"
    by (simp add: get_mode_nbr_def mode_search_lower)
  show ?thesis
  proof (cases "get_mode_nbr s = - 1")
    case True
    then have "\<not> list_ex (\<lambda>m. equals_ignore_case (mode_str m) s) dt1_modes_list"
      using mode_search_complete [of _ dt1_modes_list s 0] by (auto simp: get_mode_nbr_def list_ex_iff)
    then show ?thesis using lower True by simp
  next
    case False
    then have found: "equals_ignore_case (mode_str (mode_of (get_mode_nbr s))) s"
      using mode_search_found [of 0 s dt1_modes_list] by (simp add: get_mode_nbr_def mode_of_def)
    have valid: "valid_mode (get_mode_nbr s)"
      using False mode_search_range [of s 0 dt1_modes_list] by (auto simp: get_mode_nbr_def valid_mode_def)
    then have "nat (get_mode_nbr s) < length dt1_modes_list" by (simp add: valid_mode_def nat_less_iff)
    then have "mode_of (get_mode_nbr s) \<in> set dt1_modes_list" by (simp add: mode_of_def)
    then show ?thesis using lower found valid by (auto simp: list_ex_iff)
  qed
qed

end
