(* ===== verification/List_Ports.thy ===== *)
theory List_Ports
  imports Prelude
begin

text \<open>
  Port enumeration of the vendored serial library on Linux
  (\<open>dependencies/serial/src/impl/list_ports/list_ports_linux.cc\<close>). The file system is
  the environment: the first line of a file (empty if the file does not open), whether a
  path exists, its real path (empty if there is none), and the paths \<open>glob\<close> finds.
\<close>

record sysfs =
  fs_read_line :: "string \<Rightarrow> string"
  fs_exists :: "string \<Rightarrow> bool"
  fs_realpath :: "string \<Rightarrow> string"

record port_info =
  port :: string
  description :: string
  hardware_id :: string

text \<open>\<open>rfind("/")\<close>: the last position of the character.\<close>

fun rfind_char :: "char \<Rightarrow> string \<Rightarrow> nat option" where
  "rfind_char c [] = None"
| "rfind_char c (x # xs) =
     (case rfind_char c xs of Some i \<Rightarrow> Some (Suc i)
      | None \<Rightarrow> if x = c then Some 0 else None)"

definition basename :: "string \<Rightarrow> string" where
  "basename path =
     (case rfind_char (CHR ''/'') path of None \<Rightarrow> path | Some pos \<Rightarrow> drop (pos + 1) path)"

definition dirname :: "string \<Rightarrow> string" where
  "dirname path =
     (case rfind_char (CHR ''/'') path of None \<Rightarrow> path
      | Some pos \<Rightarrow> if pos = 0 then ''/'' else take pos path)"

text \<open>\<open>%s\<close> prints the characters before the first NUL of \<open>c_str()\<close>.\<close>

definition c_str :: "string \<Rightarrow> string" where
  "c_str s = takeWhile (\<lambda>c. c \<noteq> CHR 0x00) s"

definition usb_sysfs_friendly_name :: "sysfs \<Rightarrow> string \<Rightarrow> string" where
  "usb_sysfs_friendly_name fs path =
     (let manufacturer = fs_read_line fs (path @ ''/manufacturer'');
          product = fs_read_line fs (path @ ''/product'');
          serial = fs_read_line fs (path @ ''/serial'')
      in if manufacturer = [] \<and> product = [] \<and> serial = [] then []
         else c_str manufacturer @ '' '' @ c_str product @ '' '' @ c_str serial)"

definition usb_sysfs_hw_string :: "sysfs \<Rightarrow> string \<Rightarrow> string" where
  "usb_sysfs_hw_string fs path =
     (let serial = fs_read_line fs (path @ ''/serial'');
          serial' = (if serial \<noteq> [] then ''SNR='' @ c_str serial else serial);
          vid = fs_read_line fs (path @ ''/idVendor'');
          pid = fs_read_line fs (path @ ''/idProduct'')
      in ''USB VID:PID='' @ c_str vid @ '':'' @ c_str pid @ '' '' @ c_str serial')"

definition get_sysfs_info :: "sysfs \<Rightarrow> string \<Rightarrow> string \<times> string" where
  "get_sysfs_info fs device_path =
     (let device_name = basename device_path;
          sys_device_path = ''/sys/class/tty/'' @ c_str device_name @ ''/device'';
          (friendly, hw) =
            (if take 6 device_name = ''ttyUSB'' then
               (let p = dirname (dirname (fs_realpath fs sys_device_path))
                in if fs_exists fs p then (usb_sysfs_friendly_name fs p, usb_sysfs_hw_string fs p)
                   else ([], []))
             else if take 6 device_name = ''ttyACM'' then
               (let p = dirname (fs_realpath fs sys_device_path)
                in if fs_exists fs p then (usb_sysfs_friendly_name fs p, usb_sysfs_hw_string fs p)
                   else ([], []))
             else
               (let p = sys_device_path @ ''/id''
                in if fs_exists fs p then ([], fs_read_line fs p) else ([], [])))
      in (if friendly = [] then device_name else friendly, if hw = [] then ''n/a'' else hw))"

definition list_ports :: "sysfs \<Rightarrow> string list \<Rightarrow> port_info list" where
  "list_ports fs devices_found =
     map (\<lambda>device. case get_sysfs_info fs device of (friendly_name, hw) \<Rightarrow>
            \<lparr>port = device, description = friendly_name, hardware_id = hw\<rparr>) devices_found"

text \<open>
  The patterns searched, in their order, and \<open>glob\<close>: \<open>g\<close> gives the paths of one pattern, and every
  further pattern appends to what was found.
\<close>

definition search_globs :: "string list" where
  "search_globs = [''/dev/ttyACM*'', ''/dev/ttyS*'', ''/dev/ttyUSB*'', ''/dev/tty.*'', ''/dev/cu.*'', ''/dev/rfcomm*'']"

definition glob_paths :: "(string \<Rightarrow> string list) \<Rightarrow> string list \<Rightarrow> string list" where
  "glob_paths g patterns = (case patterns of [] \<Rightarrow> [] | p # ps \<Rightarrow> fold (\<lambda>q found. found @ g q) ps (g p))"

section \<open>Lemmas\<close>

lemma fold_append_concat: "fold (\<lambda>q found. found @ g q) ps xs = xs @ concat (map g ps)"
  by (induction ps arbitrary: xs) simp_all

lemma glob_paths_concat: "glob_paths g patterns = concat (map g patterns)"
  by (cases patterns) (simp_all add: glob_paths_def fold_append_concat)

lemma rfind_char_None [simp]: "rfind_char c xs = None \<longleftrightarrow> c \<notin> set xs"
  by (induction xs) (auto split: option.splits)

lemma rfind_char_append:
  "c \<notin> set ys \<Longrightarrow> rfind_char c (xs @ c # ys) = Some (length xs)"
  by (induction xs) (simp_all add: rfind_char_None [THEN iffD2])

lemma basename_append: "CHR ''/'' \<notin> set ys \<Longrightarrow> basename (xs @ CHR ''/'' # ys) = ys"
  by (simp add: basename_def rfind_char_append)

lemma dirname_append:
  "CHR ''/'' \<notin> set ys \<Longrightarrow> xs \<noteq> [] \<Longrightarrow> dirname (xs @ CHR ''/'' # ys) = xs"
  by (simp add: dirname_def rfind_char_append)

text \<open>Every description is either the bare device name or a name with two separators.\<close>

lemma friendly_name_shape:
  "usb_sysfs_friendly_name fs p = [] \<or>
   (\<exists>m q s. usb_sysfs_friendly_name fs p = m @ '' '' @ q @ '' '' @ s)"
  by (simp add: usb_sysfs_friendly_name_def Let_def) blast

lemma get_sysfs_info_shape:
  "fst (get_sysfs_info fs d) = basename d \<or>
   (\<exists>m q s. fst (get_sysfs_info fs d) = m @ '' '' @ q @ '' '' @ s)"
proof -
  have "fst (get_sysfs_info fs d) = basename d \<or>
      (\<exists>p. fst (get_sysfs_info fs d) = usb_sysfs_friendly_name fs p \<and>
           usb_sysfs_friendly_name fs p \<noteq> [])"
    unfolding get_sysfs_info_def Let_def by (simp split: prod.splits) metis
  then show ?thesis using friendly_name_shape by metis
qed

end
