(* ===== verification/Device_Text.thy ===== *)
theory Device_Text
  imports Prelude Float_Model List_Ports "HOL-Library.Sublist"
begin

text \<open>
  The static text routines of \<open>device/dt1_device.cpp\<close>: the choice of the serial port
  (\<open>find_port\<close>), the hardware id in the answer to \<open>ver\<close> (\<open>get_word_from\<close>,
  \<open>get_hw_id\<close>) and the firmware version gate (\<open>is_supported_device\<close>).
\<close>

section \<open>find_port\<close>

definition port_matches :: "string \<Rightarrow> string \<Rightarrow> exn + bool" where
  "port_matches serial_number desc =
     (let len = max 7 (length serial_number)
      in case substr desc 5 len of Inl e \<Rightarrow> Inl e
         | Inr a \<Rightarrow>
             if a = serial_number then Inr True
             else case substr desc 12 len of Inl e \<Rightarrow> Inl e | Inr b \<Rightarrow> Inr (b = serial_number))"

fun find_port_in :: "string \<Rightarrow> port_info list \<Rightarrow> exn + string" where
  "find_port_in serial_number [] = Inr []"
| "find_port_in serial_number (info # ports) =
     (if starts_with (description info) ''Sony'' \<and> contains (description info) ''AS-DT1'' then
        if serial_number = [] then Inr (port info)
        else case port_matches serial_number (description info) of
               Inl e \<Rightarrow> Inl e
             | Inr True \<Rightarrow> Inr (port info)
             | Inr False \<Rightarrow> find_port_in serial_number ports
      else find_port_in serial_number ports)"

definition find_port :: "string \<Rightarrow> sysfs \<Rightarrow> string list \<Rightarrow> exn + string" where
  "find_port serial_number fs devices_found =
     find_port_in serial_number (list_ports fs devices_found)"

section \<open>get_hw_id\<close>

text \<open>\<open>pos = None\<close> is \<open>std::string::npos\<close>, which is not below any size.\<close>

definition get_word_from :: "string \<Rightarrow> nat option \<Rightarrow> string" where
  "get_word_from str pos =
     (case pos of None \<Rightarrow> []
      | Some p \<Rightarrow> if length str \<le> p then [] else takeWhile (\<lambda>c. \<not> isspace c) (drop p str))"

text \<open>\<open>find(':', from)\<close> and the loop of \<open>get_hw_id\<close> over the colons.\<close>

definition find_char_from :: "char \<Rightarrow> string \<Rightarrow> nat \<Rightarrow> nat option" where
  "find_char_from c s from =
     (if length s < from then None else map_option ((+) from) (str_find [c] (drop from s)))"

lemma str_find_char_bound: "str_find [c] s = Some i \<Longrightarrow> i < length s"
  by (induction s arbitrary: i) (auto split: if_splits)

lemma find_char_from_bound: "find_char_from c s k = Some i \<Longrightarrow> k \<le> i \<and> i < length s"
  by (auto simp: find_char_from_def dest: str_find_char_bound split: if_splits)

function hw_id_scan :: "string \<Rightarrow> nat option \<Rightarrow> nat option" where
  "hw_id_scan s None = None"
| "hw_id_scan s (Some pos) =
     (if pos + 1 < length s \<and> isdigit (s ! (pos + 1)) then Some (pos + 1)
      else hw_id_scan s (find_char_from (CHR '':'') s (pos + 1)))"
  by pat_completeness auto
termination
proof (relation "measure (\<lambda>(s, p). case p of None \<Rightarrow> 0 | Some pos \<Rightarrow> Suc (length s - pos))")
  fix s :: string and pos
  show "((s, find_char_from (CHR '':'') s (pos + 1)), s, Some pos)
      \<in> measure (\<lambda>(s, p). case p of None \<Rightarrow> 0 | Some pos \<Rightarrow> Suc (length s - pos))"
    using find_char_from_bound [of "CHR '':''" s "pos + 1"] by (fastforce split: option.splits)
qed simp

definition get_hw_id :: "string \<Rightarrow> string" where
  "get_hw_id dev_info =
     get_word_from dev_info (hw_id_scan dev_info (find_char_from (CHR '':'') dev_info 0))"

section \<open>is_supported_device\<close>

definition is_num_char :: "char \<Rightarrow> bool" where
  "is_num_char c \<longleftrightarrow> isdigit c \<or> c = CHR ''.''"

definition digit_val :: "char \<Rightarrow> int" where
  "digit_val c = int (of_char c) - 48"

fun digits_val :: "int \<Rightarrow> string \<Rightarrow> int" where
  "digits_val acc [] = acc"
| "digits_val acc (c # cs) = digits_val (10 * acc + digit_val c) cs"

text \<open>
  \<open>std::stof\<close> on a string of digits and dots that starts with a digit: \<open>strtof\<close> reads
  digits, at most one dot and the digits after it, rounds that decimal once, and
  \<open>std::out_of_range\<close> is thrown on overflow and on an inexact subnormal result.
\<close>

definition strtof_parse :: "string \<Rightarrow> int \<times> int" where
  "strtof_parse s =
     (let whole = takeWhile isdigit s; rest = dropWhile isdigit s
      in case rest of
           [] \<Rightarrow> (digits_val 0 whole, 1)
         | c # ds \<Rightarrow>
             if c = CHR ''.'' then
               (let f = takeWhile isdigit ds in (digits_val 0 (whole @ f), 10 ^ length f))
             else (digits_val 0 whole, 1))"

definition stof :: "string \<Rightarrow> exn + ieee" where
  "stof s =
     (case strtof_parse s of (n, d) \<Rightarrow>
        case round_frac binary32 False n d of
          F_Fin t m e \<Rightarrow>
            (case scale m e of (a, b) \<Rightarrow>
               if m < 2 ^ 23 \<and> a * d \<noteq> n * b then Inl Out_of_range else Inr (F_Fin t m e))
        | _ \<Rightarrow> Inl Out_of_range)"

definition minimum_supported_version :: ieee where
  "minimum_supported_version = f_cast binary32 (round_frac binary64 False 101 100)"

definition is_supported_device :: "string \<Rightarrow> exn + bool" where
  "is_supported_device version =
     (let num = takeWhile is_num_char (dropWhile (\<lambda>c. \<not> isdigit c) version)
      in if num = [] then Inr (\<not> f_less (f_of_int binary32 0) minimum_supported_version)
         else case stof num of Inl e \<Rightarrow> Inl e
              | Inr v \<Rightarrow> Inr (\<not> f_less v minimum_supported_version))"

section \<open>Version gate\<close>

lemma digits_val_append: "digits_val acc (xs @ ys) = digits_val (digits_val acc xs) ys"
  by (induction xs arbitrary: acc) simp_all

lemma digit_val_range: "isdigit c \<Longrightarrow> 0 \<le> digit_val c \<and> digit_val c \<le> 9"
  by (simp add: isdigit_def digit_val_def)

lemma digits_val_nonneg: "0 \<le> acc \<Longrightarrow> list_all isdigit ds \<Longrightarrow> 0 \<le> digits_val acc ds"
proof (induction ds arbitrary: acc)
  case (Cons c ds)
  then show ?case using digit_val_range [of c] by simp
qed simp

lemma not_digit_dot [simp]: "\<not> isdigit (CHR ''.'')"
  by (simp add: isdigit_def)

lemma minimum_supported_version_eq: "minimum_supported_version = F_Fin False 8472494 (- 23)"
  unfolding minimum_supported_version_def by code_simp

lemma round_101: "round_frac binary32 False 101 100 = F_Fin False 8472494 (- 23)"
  by code_simp

lemma f_val_min: "f_val (F_Fin False 8472494 (- 23)) = 8472494 / 8388608"
  by (simp add: two_powi_neg)

lemma stof_hundredths:
  assumes n: "0 < n" "n < 10 ^ 30"
  obtains m e where "round_frac binary32 False n 100 = F_Fin False m e" and "2 ^ 23 \<le> m"
    and "\<bar>f_val (F_Fin False m e) - real_of_int n / 100\<bar> \<le> real_of_int n / 1677721600"
proof -
  have q: "quot n 100 = real_of_int n / 100" by (simp add: quot_def)
  have "(1::real) / 100 \<le> real_of_int n / 100" using n by simp
  then have lo: "2 powi (f_emin binary32 + int (f_prec binary32) - 1) \<le> quot n 100"
    unfolding q by (simp add: two_powi_neg)
  have "real_of_int n \<le> real_of_int (10 ^ 30)" using n by (simp only: of_int_le_iff less_imp_le)
  then have hi: "quot n 100 < 2 powi (f_emax binary32 + int (f_prec binary32) - 1)"
    unfolding q by (simp add: two_powi_nat)
  show thesis
  proof (rule round_frac_normal [OF n(1) _ _ _ lo hi, of False])
    fix m e
    assume "round_frac binary32 False n 100 = F_Fin False m e"
      and "2 ^ (f_prec binary32 - 1) \<le> m"
      and "\<bar>real_of_int m * 2 powi e - quot n 100\<bar> \<le> quot n 100 * 2 powi (- int (f_prec binary32))"
    then show thesis using that [of m e] by (simp add: q two_powi_neg)
  qed simp_all
qed

lemma version_compare:
  assumes n: "0 \<le> n" "n < 10 ^ 30"
  shows "\<exists>v. (case round_frac binary32 False n 100 of
          F_Fin t m e \<Rightarrow>
            (case scale m e of (a, b) \<Rightarrow>
               if m < 2 ^ 23 \<and> a * 100 \<noteq> n * b then Inl Out_of_range else Inr (F_Fin t m e))
        | _ \<Rightarrow> Inl Out_of_range) = Inr v \<and> (\<not> f_less v minimum_supported_version) = (101 \<le> n)"
proof -
  consider "n = 0" | "n = 101" | "0 < n" "n \<noteq> 101" using n by linarith
  then show ?thesis
  proof cases
    case 1
    then show ?thesis
      by (simp add: round_frac_def scale_def minimum_supported_version_eq signed_at_def)
  next
    case 2
    then show ?thesis by (simp add: round_101 minimum_supported_version_eq scale_def split: prod.splits)
  next
    case 3
    obtain m e where me: "round_frac binary32 False n 100 = F_Fin False m e" "2 ^ 23 \<le> m"
      and err: "\<bar>f_val (F_Fin False m e) - real_of_int n / 100\<bar> \<le> real_of_int n / 1677721600"
      using stof_hundredths [OF 3(1) n(2)] by blast
    have "f_less (F_Fin False m e) minimum_supported_version \<longleftrightarrow> n < 101"
    proof (cases "n < 101")
      case True
      then have "real_of_int n \<le> 100" by simp
      then have "f_val (F_Fin False m e) < 8472494 / 8388608" using err by linarith
      then show ?thesis using True unfolding minimum_supported_version_eq f_less_val f_val_min by simp
    next
      case False
      then have "102 \<le> real_of_int n" using 3 by simp
      then have "8472494 / 8388608 < f_val (F_Fin False m e)" using err by linarith
      then show ?thesis using False unfolding minimum_supported_version_eq f_less_val f_val_min by simp
    qed
    then show ?thesis using me by (auto split: prod.splits)
  qed
qed

lemma is_supported_device_gate:
  assumes pre: "list_all (\<lambda>c. \<not> isdigit c) pre"
    and ds: "ds \<noteq> []" "list_all isdigit ds" and ab: "isdigit a" "isdigit b"
    and suf: "suf = [] \<or> \<not> isdigit (hd suf)"
    and small: "digits_val 0 (ds @ [a, b]) < 10 ^ 30"
  shows "is_supported_device (pre @ ds @ CHR ''.'' # a # b # suf) =
    Inr (101 \<le> digits_val 0 (ds @ [a, b]))"
proof -
  define num where "num = takeWhile is_num_char (ds @ CHR ''.'' # a # b # suf)"
  have drop: "dropWhile (\<lambda>c. \<not> isdigit c) (pre @ ds @ CHR ''.'' # a # b # suf) = ds @ CHR ''.'' # a # b # suf"
    using pre ds by (cases ds) (auto simp: dropWhile_append2 list_all_iff)
  define tl where "tl = takeWhile is_num_char suf"
  have num: "num = ds @ CHR ''.'' # a # b # tl"
    unfolding num_def tl_def using ds ab
    by (subst takeWhile_append2) (auto simp: list_all_iff is_num_char_def)
  have tl: "takeWhile isdigit tl = []"
    using suf unfolding tl_def by (cases suf) auto
  have "takeWhile isdigit num = ds" and "dropWhile isdigit num = CHR ''.'' # a # b # tl"
    using ds by (auto simp: num takeWhile_append2 dropWhile_append2 list_all_iff)
  then have parse: "strtof_parse num = (digits_val 0 (ds @ [a, b]), 100)"
    using ab tl by (simp add: strtof_parse_def Let_def)
  have "0 \<le> digits_val 0 (ds @ [a, b])"
    by (rule digits_val_nonneg) (use ds ab in simp_all)
  then obtain v where "stof num = Inr v" "(\<not> f_less v minimum_supported_version) = (101 \<le> digits_val 0 (ds @ [a, b]))"
    using version_compare small by (fastforce simp: stof_def parse)
  moreover have "num \<noteq> []" using ds by (simp add: num)
  ultimately show ?thesis
    by (simp add: is_supported_device_def Let_def drop flip: num_def)
qed

section \<open>The choice of the port\<close>

definition sony_dt1 :: "string \<Rightarrow> bool" where
  "sony_dt1 desc \<longleftrightarrow> starts_with desc ''Sony'' \<and> contains desc ''AS-DT1''"

definition is_wanted :: "string \<Rightarrow> port_info \<Rightarrow> bool" where
  "is_wanted w info \<longleftrightarrow>
     sony_dt1 (description info) \<and> (w = [] \<or> port_matches w (description info) = Inr True)"

lemma sony_dt1_length:
  assumes "sony_dt1 desc" and "desc = m @ '' '' @ q @ '' '' @ s"
  shows "12 \<le> length desc"
proof -
  obtain r where r: "desc = ''Sony'' @ r"
    using assms(1) by (auto simp: sony_dt1_def starts_with_iff)
  obtain u v where uv: "desc = u @ ''AS-DT1'' @ v"
    using assms(1) unfolding sony_dt1_def contains_iff by blast
  have "4 \<le> length u"
  proof (rule ccontr)
    assume "\<not> ?thesis"
    then consider "length u = 0" | "length u = 1" | "length u = 2" | "length u = 3" by linarith
    then show False
      using r uv by cases (auto simp: length_Suc_conv numeral_eq_Suc)
  qed
  then obtain u' where "u = ''Sony'' @ u'"
    using r uv by (metis append_eq_append_conv_if append_eq_conv_conj length_Cons list.size(3)
        numeral_nat(2) One_nat_def Suc_1 add.commute add_Suc_right eval_nat_numeral(3)
        plus_1_eq_Suc numeral_Bit0 append_take_drop_id)
  then have "desc = ''Sony'' @ u' @ ''AS-DT1'' @ v" using uv by simp
  then have "10 \<le> length (filter (\<lambda>c. c \<noteq> CHR '' '') desc)" by simp
  moreover have "2 \<le> length (filter (\<lambda>c. c = CHR '' '') desc)"
    using assms(2) by simp
  ultimately show ?thesis
    using sum_length_filter_compl [of "\<lambda>c. c = CHR '' ''" desc] by simp
qed

lemma port_matches_total: "12 \<le> length desc \<Longrightarrow> \<exists>b. port_matches w desc = Inr b"
  by (auto simp: port_matches_def substr_def Let_def)

lemma find_port_in_spec:
  assumes "\<forall>info \<in> set ports. sony_dt1 (description info) \<longrightarrow> 12 \<le> length (description info)"
  shows "find_port_in w ports = Inr (case find (is_wanted w) ports of None \<Rightarrow> [] | Some i \<Rightarrow> port i)"
  using assms
proof (induction ports)
  case Nil
  then show ?case by simp
next
  case (Cons info ports)
  then have IH: "find_port_in w ports = Inr (case find (is_wanted w) ports of None \<Rightarrow> [] | Some i \<Rightarrow> port i)"
    by simp
  show ?case
  proof (cases "sony_dt1 (description info) \<and> w \<noteq> []")
    case True
    then obtain b where "port_matches w (description info) = Inr b"
      using Cons.prems port_matches_total by fastforce
    moreover from this True have "is_wanted w info = b" by (simp add: is_wanted_def)
    ultimately show ?thesis using True IH by (cases b) (simp_all add: sony_dt1_def)
  next
    case False
    then have "is_wanted w info = sony_dt1 (description info)"
      and "w = [] \<or> \<not> sony_dt1 (description info)" by (auto simp: is_wanted_def)
    then show ?thesis using IH by (auto simp: sony_dt1_def)
  qed
qed

text \<open>The paths the search patterns of \<open>list_ports\<close> can give.\<close>

definition glob_path :: "string \<Rightarrow> bool" where
  "glob_path d \<longleftrightarrow>
     (\<exists>n. d = ''/dev/'' @ n \<and> CHR ''/'' \<notin> set n \<and>
        (starts_with n ''tty'' \<or> starts_with n ''cu.'' \<or> starts_with n ''rfcomm''))"

lemma list_ports_long:
  assumes "\<forall>d \<in> set devs. glob_path d" and "info \<in> set (list_ports fs devs)"
    and "sony_dt1 (description info)"
  shows "12 \<le> length (description info)"
proof -
  obtain d where d: "d \<in> set devs" "description info = fst (get_sysfs_info fs d)"
    using assms(2) by (auto simp: list_ports_def split: prod.splits)
  have "description info \<noteq> basename d"
  proof
    assume eq: "description info = basename d"
    obtain n where n: "d = ''/dev'' @ CHR ''/'' # n" "CHR ''/'' \<notin> set n"
      and st: "starts_with n ''tty'' \<or> starts_with n ''cu.'' \<or> starts_with n ''rfcomm''"
      using assms(1) d(1) by (auto simp: glob_path_def)
    have "basename d = n" unfolding n(1) by (rule basename_append [OF n(2)])
    then have "starts_with n ''Sony''" using eq assms(3) by (simp add: sony_dt1_def)
    then show False using st by (auto simp: starts_with_iff)
  qed
  then obtain m q s where "description info = m @ '' '' @ q @ '' '' @ s"
    using get_sysfs_info_shape [of fs d] d(2) by auto
  with assms(3) show ?thesis by (rule sony_dt1_length)
qed

lemma find_port_spec:
  assumes "\<forall>d \<in> set devs. glob_path d"
  shows "find_port w fs devs =
    Inr (case find (is_wanted w) (list_ports fs devs) of None \<Rightarrow> [] | Some i \<Rightarrow> port i)"
  unfolding find_port_def
  by (rule find_port_in_spec) (use list_ports_long [OF assms] in blast)

lemma serial_match:
  assumes "w \<noteq> []" "list_all isdigit w" and desc: "description info = ''Sony AS-DT1 '' @ s"
  shows "is_wanted w info \<longleftrightarrow> (if 7 \<le> length w then prefix w s else s = w)"
proof -
  have sony: "sony_dt1 (description info)"
    unfolding sony_dt1_def contains_iff desc
    by (auto simp: starts_with_def intro: exI [of _ "''Sony ''"])
  have 5: "substr (description info) 5 k = Inr (take k (''AS-DT1 '' @ s))" for k
    by (simp add: desc substr_def)
  have 12: "substr (description info) 12 k = Inr (take k s)" for k
    by (simp add: desc substr_def)
  have "take (max 7 (length w)) (''AS-DT1 '' @ s) \<noteq> w"
    using assms(1,2) by (cases w) (auto simp: isdigit_def)
  then have "is_wanted w info \<longleftrightarrow> take (max 7 (length w)) s = w"
    using sony assms(1) by (simp add: is_wanted_def port_matches_def Let_def 5 12)
  also have "\<dots> \<longleftrightarrow> (if 7 \<le> length w then prefix w s else s = w)"
  proof (cases "7 \<le> length w")
    case True
    then show ?thesis by (auto simp: max_def prefix_def) (metis append_take_drop_id)+
  next
    case False
    then show ?thesis by (auto simp: max_def min_def split: if_splits)
  qed
  finally show ?thesis .
qed

lemma friendly_name_sony:
  assumes "fs_read_line fs (p @ ''/manufacturer'') = ''Sony''"
    and "fs_read_line fs (p @ ''/product'') = ''AS-DT1''"
    and "fs_read_line fs (p @ ''/serial'') = s" and "CHR 0x00 \<notin> set s"
  shows "usb_sysfs_friendly_name fs p = ''Sony AS-DT1 '' @ s"
proof -
  have "takeWhile (\<lambda>c. c \<noteq> CHR 0x00) s = s"
    using assms(4) by (auto simp: takeWhile_eq_all_conv)
  then show ?thesis using assms by (simp add: usb_sysfs_friendly_name_def Let_def c_str_def)
qed

section \<open>The hardware id\<close>

text \<open>The reference: the word after the first colon that a digit follows.\<close>

fun word_after_colon_digit :: "string \<Rightarrow> string" where
  "word_after_colon_digit [] = []"
| "word_after_colon_digit (x # xs) =
     (if x = CHR '':'' \<and> xs \<noteq> [] \<and> isdigit (hd xs) then takeWhile (\<lambda>c. \<not> isspace c) xs
      else word_after_colon_digit xs)"

lemma find_char_from_step:
  "k < length s \<Longrightarrow>
   find_char_from c s k = (if s ! k = c then Some k else find_char_from c s (Suc k))"
  by (auto simp: find_char_from_def Cons_nth_drop_Suc [symmetric] starts_with_def option.map_comp intro!: option.map_cong)

lemma hw_id_scan_from:
  assumes "k \<le> length s"
  shows "get_word_from s (hw_id_scan s (find_char_from (CHR '':'') s k)) = word_after_colon_digit (drop k s)"
  using assms
proof (induction "length s - k" arbitrary: k)
  case 0
  then have "k = length s" by simp
  then show ?case by (simp add: find_char_from_def get_word_from_def)
next
  case (Suc n)
  then have k: "k < length s" by simp
  have d: "drop k s = s ! k # drop (Suc k) s" using k by (simp add: Cons_nth_drop_Suc)
  have IH: "get_word_from s (hw_id_scan s (find_char_from (CHR '':'') s (Suc k))) =
      word_after_colon_digit (drop (Suc k) s)"
    using Suc k by simp
  have hd: "drop (Suc k) s \<noteq> [] \<and> isdigit (hd (drop (Suc k) s)) \<longleftrightarrow>
      Suc k < length s \<and> isdigit (s ! Suc k)"
    by (auto simp: hd_drop_conv_nth)
  show ?case
  proof (cases "s ! k = CHR '':''")
    case True
    then have "find_char_from (CHR '':'') s k = Some k" using k by (simp add: find_char_from_step)
    then show ?thesis using True IH hd by (simp add: d get_word_from_def)
  next
    case False
    then show ?thesis using k IH by (simp add: find_char_from_step d)
  qed
qed

lemma get_hw_id_spec: "get_hw_id s = word_after_colon_digit s"
  using hw_id_scan_from [of 0 s] by (simp add: get_hw_id_def)

section \<open>Decimal output\<close>

text \<open>\<open>printf\<close> of a non-negative integer, and of a finite double with two decimals (exact, ties to even).\<close>

fun dec_digits :: "nat \<Rightarrow> int \<Rightarrow> string \<Rightarrow> string" where
  "dec_digits 0 n acc = acc"
| "dec_digits (Suc k) n acc =
     (let acc' = char_of (48 + nat (n mod 10)) # acc
      in if n div 10 = 0 then acc' else dec_digits k (n div 10) acc')"

definition dec_str :: "int \<Rightarrow> string" where
  "dec_str n = dec_digits (nat (blen n) + 1) n []"

definition two_digits :: "int \<Rightarrow> string" where
  "two_digits n = [char_of (48 + nat (n div 10 mod 10)), char_of (48 + nat (n mod 10))]"

fun fixed2_str :: "ieee \<Rightarrow> string" where
  "fixed2_str (F_Fin s m e) =
     (case scale m e of (n, d) \<Rightarrow>
        let h = round_div (n * 100) d
        in (if s then ''-'' else []) @ dec_str (h div 100) @ ''.'' @ two_digits (h mod 100))"
| "fixed2_str (F_Inf s) = (if s then ''-inf'' else ''inf'')"
| "fixed2_str F_NaN = ''nan''"

lemma char_of_digit:
  assumes "0 \<le> k" "k \<le> (9::int)"
  shows "isdigit (char_of (48 + nat k))" and "digit_val (char_of (48 + nat k)) = k"
proof -
  have "(of_char (char_of (48 + nat k)) :: nat) = 48 + nat k"
    using assms by (simp only: of_char_of) simp
  then show "isdigit (char_of (48 + nat k))" "digit_val (char_of (48 + nat k)) = k"
    using assms by (simp_all add: isdigit_def digit_val_def)
qed

lemma dec_digits_val:
  "0 \<le> n \<Longrightarrow> n < 10 ^ Suc k \<Longrightarrow>
   \<exists>ds. dec_digits (Suc k) n acc = ds @ acc \<and> ds \<noteq> [] \<and> list_all isdigit ds \<and> digits_val 0 ds = n"
proof (induction k arbitrary: n acc)
  case 0
  then show ?case using char_of_digit [of n] by (intro exI [of _ "[char_of (48 + nat n)]"]) simp
next
  case (Suc k)
  let ?c = "char_of (48 + nat (n mod 10))"
  have c: "isdigit ?c" "digit_val ?c = n mod 10" by (rule char_of_digit; simp)+
  show ?case
  proof (cases "n div 10 = 0")
    case True
    then have "n mod 10 = n" by presburger
    then show ?thesis using True c by (intro exI [of _ "[?c]"]) (simp add: Let_def)
  next
    case False
    have "0 \<le> n div 10" "n div 10 < 10 ^ Suc k" using Suc.prems by auto
    then obtain ds where ds: "dec_digits (Suc k) (n div 10) (?c # acc) = ds @ ?c # acc"
      "list_all isdigit ds" "digits_val 0 ds = n div 10"
      using Suc.IH by meson
    then have "dec_digits (Suc (Suc k)) n acc = (ds @ [?c]) @ acc" using False by (simp add: Let_def)
    moreover have "digits_val 0 (ds @ [?c]) = n" using ds c by (simp add: digits_val_append)
    ultimately show ?thesis using ds c by (intro exI [of _ "ds @ [?c]"]) simp
  qed
qed

lemma dec_str_val:
  assumes "0 \<le> n"
  shows "dec_str n \<noteq> []" and "list_all isdigit (dec_str n)" and "digits_val 0 (dec_str n) = n"
proof -
  have "n < 10 ^ Suc (nat (blen n))"
  proof (cases "n = 0")
    case False
    then have "n < 2 ^ nat (blen n)" using blen_bounds assms by simp
    also have "\<dots> \<le> 10 ^ nat (blen n)" by (rule power_mono) simp_all
    also have "\<dots> \<le> 10 ^ Suc (nat (blen n))" by simp
    finally show ?thesis .
  qed simp
  then show "dec_str n \<noteq> []" "list_all isdigit (dec_str n)" "digits_val 0 (dec_str n) = n"
    using dec_digits_val [OF assms, of "nat (blen n)" "[]"] by (auto simp: dec_str_def)
qed

section \<open>Properties\<close>

text \<open>C26: the firmware gate: an answer that carries the version \<open>N.ab\<close> is accepted exactly from 1.01
  on, whatever surrounds the version, in spite of the rounding of \<open>stof\<close> and of the constant.\<close>

theorem version_gate:
  assumes "list_all (\<lambda>c. \<not> isdigit c) pre"
    and "ds \<noteq> []" "list_all isdigit ds" and "isdigit a" "isdigit b"
    and "suf = [] \<or> \<not> isdigit (hd suf)" and "digits_val 0 (ds @ [a, b]) < 10 ^ 30"
  shows "is_supported_device (pre @ ds @ CHR ''.'' # a # b # suf) =
    Inr (101 \<le> digits_val 0 (ds @ [a, b]))"
  using assms by (rule is_supported_device_gate)

lemma version_gate_witness:
  "is_supported_device ''Version: 1.00 rc'' = Inr False"
  using version_gate [of "''Version: ''" "''1''" "CHR ''0''" "CHR ''0''" "'' rc''"]
  by (simp add: isdigit_def digit_val_def)


text \<open>A file system with one AS-DT1 on \<open>/dev/ttyACM0\<close>.\<close>

definition sample_fs :: sysfs where
  "sample_fs =
     \<lparr>fs_read_line = (\<lambda>p. if p = ''/sys/usb/1/manufacturer'' then ''Sony''
        else if p = ''/sys/usb/1/product'' then ''AS-DT1''
        else if p = ''/sys/usb/1/serial'' then ''1234567'' else []),
      fs_exists = (\<lambda>p. p = ''/sys/usb/1''),
      fs_realpath = (\<lambda>p. ''/sys/usb/1/1-1'')\<rparr>"

lemma sample_ports:
  "list_ports sample_fs [''/dev/ttyACM0''] =
    [\<lparr>port = ''/dev/ttyACM0'', description = ''Sony AS-DT1 1234567'', hardware_id = ''USB VID:PID=: SNR=1234567''\<rparr>]"
  by code_simp


text \<open>for a port whose USB device names itself \<open>Sony\<close>, \<open>AS-DT1\<close> and a serial number, a wanted
  number of seven digits or more matches when it is a prefix of the serial number, a shorter one only when it is equal.\<close>

theorem serial_number_match:
  assumes "fs_read_line fs (p @ ''/manufacturer'') = ''Sony''"
    and "fs_read_line fs (p @ ''/product'') = ''AS-DT1''"
    and "fs_read_line fs (p @ ''/serial'') = s" and "CHR 0x00 \<notin> set s"
    and "w \<noteq> []" "list_all isdigit w"
    and "description info = usb_sysfs_friendly_name fs p"
  shows "is_wanted w info \<longleftrightarrow> (if 7 \<le> length w then prefix w s else s = w)"
  using assms friendly_name_sony [of fs p s] serial_match [of w info s] by simp

lemma serial_number_match_witness:
  "\<not> is_wanted ''123'' \<lparr>port = [], description = usb_sysfs_friendly_name sample_fs ''/sys/usb/1'', hardware_id = []\<rparr>"
  using serial_number_match [of sample_fs "''/sys/usb/1''" "''1234567''" "''123''"
      "\<lparr>port = [], description = usb_sysfs_friendly_name sample_fs ''/sys/usb/1'', hardware_id = []\<rparr>"]
  by (simp add: sample_fs_def isdigit_def)

text \<open>The scan of \<open>get_hw_id\<close> over the colons of the line equals the reference: the word after the
  first colon that a digit follows, empty when there is none; the loop ends on every input.\<close>

theorem get_hw_id_correct: "get_hw_id s = word_after_colon_digit s"
  by (rule get_hw_id_spec)

end
