(* ===== verification/Serial_Port.thy ===== *)
theory Serial_Port
  imports Prelude
begin

text \<open>
  The serial port of the vendored library (\<open>dependencies/serial/src/impl/unix.cc\<close> and
  \<open>serial.cc\<close>). Two levels: \<open>SerialImpl::read\<close>, \<open>write\<close>, \<open>open\<close> and
  \<open>close\<close> over the results of the system calls they make, in the order they make them,
  and the byte stream the rest of the program sees. The system calls are the environment: a
  call that finds no more results waits for ever.
\<close>

section \<open>The byte stream\<close>

text \<open>
  What arrives, in order: a byte, a period without bytes that outlasts the time limit of
  the read in progress, or the loss of the device.
\<close>

datatype rx = is_byte: Rx_byte char | Rx_quiet | Rx_gone

text \<open>\<open>read(size)\<close> on the stream.\<close>

fun stream_read :: "nat \<Rightarrow> string \<Rightarrow> rx list \<Rightarrow> (string, rx list) outcome" where
  "stream_read 0 acc r = Ret acc r"
| "stream_read (Suc n) acc [] = Block []"
| "stream_read (Suc n) acc (Rx_byte c # r) = stream_read n (acc @ [c]) r"
| "stream_read (Suc n) acc (Rx_quiet # r) = Ret acc r"
| "stream_read (Suc n) acc (Rx_gone # r) = Throw Serial_exception (Rx_gone # r)"

text \<open>\<open>Serial::readline\<close> with the default end of line and size limit, one byte at a time.\<close>

definition readline_limit :: nat where
  "readline_limit = 65536"

fun stream_readline :: "string \<Rightarrow> rx list \<Rightarrow> (string, rx list) outcome" where
  "stream_readline acc [] = Block []"
| "stream_readline acc (Rx_byte c # r) =
     (if c = CHR 0x0A then Ret (acc @ [c]) r
      else if Suc (length acc) = readline_limit then Ret (acc @ [c]) r
      else stream_readline (acc @ [c]) r)"
| "stream_readline acc (Rx_quiet # r) = Ret acc r"
| "stream_readline acc (Rx_gone # r) = Throw Serial_exception (Rx_gone # r)"

text \<open>For evaluation the limit is compared as an integer.\<close>

lemma stream_readline_code [code]:
  "stream_readline acc [] = Block []"
  "stream_readline acc (Rx_byte c # r) =
     (if c = CHR 0x0A then Ret (acc @ [c]) r
      else if int (length acc) = 65535 then Ret (acc @ [c]) r
      else stream_readline (acc @ [c]) r)"
  "stream_readline acc (Rx_quiet # r) = Ret acc r"
  "stream_readline acc (Rx_gone # r) = Throw Serial_exception (Rx_gone # r)"
  by (auto simp: readline_limit_def)

section \<open>SerialImpl::read\<close>

datatype select_result = Sel_ready | Sel_timeout | Sel_eintr | Sel_error | Sel_not_set

text \<open>
  The results one turn of the loop of \<open>SerialImpl::read\<close> may use: the time left, the
  outcome of \<open>pselect\<close>, of \<open>ioctl(TIOCINQ)\<close> (\<open>None\<close> for -1) and of \<open>::read\<close>
  (\<open>None\<close> for -1, no byte for 0).
\<close>

record read_turn =
  rt_remaining :: int
  rt_select :: select_result
  rt_available :: "nat option"
  rt_data :: "string option"

definition wait_readable :: "select_result \<Rightarrow> exn + bool" where
  "wait_readable r =
     (case r of Sel_ready \<Rightarrow> Inr True
      | Sel_timeout \<Rightarrow> Inr False
      | Sel_eintr \<Rightarrow> Inr False
      | Sel_error \<Rightarrow> Inl IO_exception
      | Sel_not_set \<Rightarrow> Inl IO_exception)"

text \<open>
  The loop. \<open>bulk\<close> is the condition \<open>size > 1 && inter_byte_timeout == Timeout::max()\<close>
  under which \<open>available()\<close> is asked first (and may throw).
\<close>

fun read_loop :: "bool \<Rightarrow> nat \<Rightarrow> string \<Rightarrow> read_turn list \<Rightarrow> (string, read_turn list) outcome" where
  "read_loop bulk sz acc [] = (if sz \<le> length acc then Ret acc [] else Block [])"
| "read_loop bulk sz acc (t # ts) =
     (if sz \<le> length acc then Ret acc (t # ts)
      else if rt_remaining t \<le> 0 then Ret acc ts
      else case wait_readable (rt_select t) of
        Inl e \<Rightarrow> Throw e ts
      | Inr ready \<Rightarrow>
          if \<not> ready then read_loop bulk sz acc ts
          else if bulk \<and> rt_available t = None then Throw IO_exception ts
          else case rt_data t of
            None \<Rightarrow> Throw Serial_exception ts
          | Some d \<Rightarrow>
              if d = [] then Throw Serial_exception ts
              else if length (acc @ d) = sz then Ret (acc @ d) ts
              else if length (acc @ d) < sz then read_loop bulk sz (acc @ d) ts
              else Throw Serial_exception ts)"

text \<open>\<open>SerialImpl::read\<close>: the check, the first \<open>::read\<close>, the loop.\<close>

definition impl_read ::
  "bool \<Rightarrow> bool \<Rightarrow> nat \<Rightarrow> string option \<Rightarrow> read_turn list \<Rightarrow> (string, read_turn list) outcome" where
  "impl_read opened no_inter_byte sz pre ts =
     (if \<not> opened then Throw Port_not_opened ts
      else read_loop (1 < sz \<and> no_inter_byte) sz (case pre of None \<Rightarrow> [] | Some d \<Rightarrow> d) ts)"

section \<open>Refinement: the system calls implement the stream\<close>

text \<open>The stream a list of turns stands for.\<close>

definition turn_stream :: "bool \<Rightarrow> read_turn \<Rightarrow> rx list" where
  "turn_stream bulk t =
     (if rt_remaining t \<le> 0 then [Rx_quiet]
      else case wait_readable (rt_select t) of
        Inl e \<Rightarrow> [Rx_gone]
      | Inr False \<Rightarrow> []
      | Inr True \<Rightarrow>
          if bulk \<and> rt_available t = None then [Rx_gone]
          else case rt_data t of None \<Rightarrow> [Rx_gone] | Some d \<Rightarrow> if d = [] then [Rx_gone] else map Rx_byte d)"

definition turns_stream :: "bool \<Rightarrow> read_turn list \<Rightarrow> rx list" where
  "turns_stream bulk ts = concat (map (turn_stream bulk) ts)"

text \<open>
  \<open>::read\<close> returns at most the bytes asked for: the documented contract of the call, for
  every turn that reads with \<open>k\<close> bytes already there.
\<close>

definition turn_bytes :: "bool \<Rightarrow> read_turn \<Rightarrow> nat" where
  "turn_bytes bulk t = length (filter is_byte (turn_stream bulk t))"

fun reads_bounded :: "bool \<Rightarrow> nat \<Rightarrow> nat \<Rightarrow> read_turn list \<Rightarrow> bool" where
  "reads_bounded bulk sz k [] = True"
| "reads_bounded bulk sz k (t # ts) =
     (k + turn_bytes bulk t \<le> sz \<and>
      (k + turn_bytes bulk t = sz \<or> reads_bounded bulk sz (k + turn_bytes bulk t) ts))"

definition same_outcome ::
  "bool \<Rightarrow> (string, read_turn list) outcome \<Rightarrow> (string, rx list) outcome \<Rightarrow> bool" where
  "same_outcome bulk m k =
     (case m of
        Ret x ts \<Rightarrow> k = Ret x (turns_stream bulk ts)
      | Throw e ts \<Rightarrow> \<not> is_ret k \<and> k \<noteq> Block (final_state k)
      | Block ts \<Rightarrow> k = Block (turns_stream bulk ts))"

lemma turns_stream_simps [simp]:
  "turns_stream bulk [] = []"
  "turns_stream bulk (t # ts) = turn_stream bulk t @ turns_stream bulk ts"
  by (simp_all add: turns_stream_def)

lemma filter_is_byte_map [simp]: "filter is_byte (map Rx_byte d) = map Rx_byte d"
  by (induction d) auto

lemma stream_read_bytes:
  "stream_read n acc (map Rx_byte d @ r) =
     (if n \<le> length d then Ret (acc @ take n d) (map Rx_byte (drop n d) @ r)
      else stream_read (n - length d) (acc @ d) r)"
proof (induction d arbitrary: n acc)
  case Nil
  then show ?case by (cases n) auto
next
  case (Cons c d)
  then show ?case by (cases n) auto
qed

lemma read_loop_refines:
  assumes "length acc \<le> sz" and "reads_bounded bulk sz (length acc) ts"
  shows "same_outcome bulk (read_loop bulk sz acc ts)
    (stream_read (sz - length acc) acc (turns_stream bulk ts))"
  using assms
proof (induction ts arbitrary: acc)
  case Nil
  then show ?case by (cases "sz - length acc") (auto simp: same_outcome_def)
next
  case (Cons t ts)
  show ?case
  proof (cases "sz - length acc")
    case 0
    then show ?thesis by (simp add: same_outcome_def)
  next
    case (Suc n)
    then have lt: "\<not> sz \<le> length acc" by simp
    consider (late) "rt_remaining t \<le> 0"
      | (err) e where "0 < rt_remaining t" "wait_readable (rt_select t) = Inl e"
      | (idle) "0 < rt_remaining t" "wait_readable (rt_select t) = Inr False"
      | (avail) "0 < rt_remaining t" "wait_readable (rt_select t) = Inr True" "bulk \<and> rt_available t = None"
      | (gone) "0 < rt_remaining t" "wait_readable (rt_select t) = Inr True"
          "\<not> (bulk \<and> rt_available t = None)" "rt_data t = None \<or> rt_data t = Some []"
      | (data) d where "0 < rt_remaining t" "wait_readable (rt_select t) = Inr True"
          "\<not> (bulk \<and> rt_available t = None)" "rt_data t = Some d" "d \<noteq> []"
      by (metis (full_types) not_less option.exhaust sum.exhaust)
    then show ?thesis
    proof cases
      case idle
      then have "turn_stream bulk t = []" by (simp add: turn_stream_def)
      then show ?thesis using Cons lt idle by (simp add: turn_bytes_def)
    next
      case data
      then have st: "turn_stream bulk t = map Rx_byte d" by (auto simp: turn_stream_def)
      then have nb: "turn_bytes bulk t = length d" by (simp add: turn_bytes_def)
      then have le: "length acc + length d \<le> sz" using Cons.prems by simp
      show ?thesis
      proof (cases "length acc + length d = sz")
        case True
        then show ?thesis using data lt st by (simp add: same_outcome_def stream_read_bytes)
      next
        case False
        then have "same_outcome bulk (read_loop bulk sz (acc @ d) ts)
            (stream_read (sz - length (acc @ d)) (acc @ d) (turns_stream bulk ts))"
          using Cons.prems nb le by (intro Cons.IH) auto
        moreover have "\<not> sz - length acc \<le> length d" "length acc + length d < sz"
          using False le by linarith+
        ultimately show ?thesis using data lt st by (auto simp: stream_read_bytes)
      qed
    qed (use Suc lt in \<open>auto simp: same_outcome_def turn_stream_def\<close>)
  qed
qed

section \<open>SerialImpl::write\<close>

text \<open>
  One turn of the write loop: the time left, \<open>pselect\<close>, and \<open>::write\<close>, which wrote
  some bytes, was interrupted (-1 with \<open>EINTR\<close>) or failed.
\<close>

datatype write_result = Wr_bytes nat | Wr_eintr | Wr_fail

record write_turn =
  wt_remaining :: int
  wt_select :: select_result
  wt_result :: write_result

fun write_loop :: "bool \<Rightarrow> nat \<Rightarrow> nat \<Rightarrow> write_turn list \<Rightarrow> (nat, write_turn list) outcome" where
  "write_loop first_iteration len written [] =
     (if len \<le> written then Ret written [] else Block [])"
| "write_loop first_iteration len written (t # ts) =
     (if len \<le> written then Ret written (t # ts)
      else if \<not> first_iteration \<and> wt_remaining t \<le> 0 then Ret written ts
      else case wt_select t of
        Sel_eintr \<Rightarrow> write_loop False len written ts
      | Sel_error \<Rightarrow> Throw IO_exception ts
      | Sel_timeout \<Rightarrow> Ret written ts
      | Sel_not_set \<Rightarrow> Throw IO_exception ts
      | Sel_ready \<Rightarrow>
          (case wt_result t of
             Wr_eintr \<Rightarrow> write_loop False len written ts
           | Wr_fail \<Rightarrow> Throw Serial_exception ts
           | Wr_bytes n \<Rightarrow>
               if n < 1 then Throw Serial_exception ts
               else if written + n = len then Ret (written + n) ts
               else if written + n < len then write_loop False len (written + n) ts
               else Throw Serial_exception ts))"

definition impl_write :: "bool \<Rightarrow> nat \<Rightarrow> write_turn list \<Rightarrow> (nat, write_turn list) outcome" where
  "impl_write opened len ts =
     (if \<not> opened then Throw Port_not_opened ts else write_loop True len 0 ts)"

text \<open>The time limit stops the loop: a turn with no time left.\<close>

definition write_stops :: "write_turn \<Rightarrow> bool" where
  "write_stops t \<longleftrightarrow> wt_remaining t \<le> 0"

lemma write_loop_bounds:
  "write_loop f len w ts = Ret n ts' \<Longrightarrow> w \<le> len \<Longrightarrow> w \<le> n \<and> n \<le> len"
proof (induction f len w ts rule: write_loop.induct)
  case (2 f len w t ts)
  then show ?case
    by (auto split: if_splits select_result.splits write_result.splits)
qed (auto split: if_splits)

lemma write_loop_returns:
  "\<exists>t \<in> set ts. wt_remaining t \<le> 0 \<Longrightarrow> write_loop False len w ts \<noteq> Block ts'"
proof (induction ts arbitrary: w)
  case (Cons t ts)
  then show ?case by (auto split: select_result.splits write_result.splits)
qed simp

section \<open>SerialImpl::open and close\<close>

text \<open>
  The descriptor state, with the descriptors the process holds open. \<open>open_results\<close> are
  the results of the successive \<open>::open\<close> calls; \<open>reconf\<close> is the exception
  \<open>reconfigurePort\<close> throws, if any.
\<close>

datatype open_result = Open_fd nat | Open_eintr | Open_error

record impl =
  im_port :: string
  im_fd :: "nat option"
  im_is_open :: bool
  im_held :: "nat list"

fun impl_open :: "open_result list \<Rightarrow> exn option \<Rightarrow> impl \<Rightarrow> (unit, impl) outcome" where
  "impl_open rs reconf s =
     (if im_port s = [] then Throw Invalid_argument s
      else if im_is_open s then Throw Serial_exception s
      else case rs of
        [] \<Rightarrow> Block s
      | Open_eintr # rs' \<Rightarrow> impl_open rs' reconf (s\<lparr>im_fd := None\<rparr>)
      | Open_error # rs' \<Rightarrow> Throw IO_exception (s\<lparr>im_fd := None\<rparr>)
      | Open_fd fd # rs' \<Rightarrow>
          (let s' = s\<lparr>im_fd := Some fd, im_held := fd # im_held s\<rparr>
           in case reconf of
                Some e \<Rightarrow> Throw e s'
              | None \<Rightarrow> Ret () (s'\<lparr>im_is_open := True\<rparr>)))"

definition impl_close :: "bool \<Rightarrow> impl \<Rightarrow> (unit, impl) outcome" where
  "impl_close close_ok s =
     (if im_is_open s then
        (case im_fd s of
           None \<Rightarrow> Ret () (s\<lparr>im_is_open := False\<rparr>)
         | Some fd \<Rightarrow>
             if close_ok then
               Ret () (s\<lparr>im_fd := None, im_held := remove1 fd (im_held s), im_is_open := False\<rparr>)
             else Throw IO_exception s)
      else Ret () s)"

definition impl_inv :: "impl \<Rightarrow> bool" where
  "impl_inv s \<longleftrightarrow> (im_is_open s \<longrightarrow> (\<exists>fd. im_fd s = Some fd \<and> fd \<in> set (im_held s)))"

lemma impl_open_inv: "impl_inv s \<Longrightarrow> impl_inv (final_state (impl_open rs reconf s))"
proof (induction rs reconf s rule: impl_open.induct)
  case (1 rs reconf s)
  show ?case
  proof (cases "im_port s = [] \<or> im_is_open s")
    case True
    with "1.prems" show ?thesis by auto
  next
    case False
    show ?thesis
    proof (cases rs)
      case Nil
      with "1.prems" False show ?thesis by simp
    next
      case (Cons r rs')
      with False "1.prems" "1.IH" show ?thesis
        by (cases r) (auto simp: impl_inv_def Let_def split: option.splits)
    qed
  qed
qed

lemma impl_close_inv: "impl_inv s \<Longrightarrow> impl_inv (final_state (impl_close ok s))"
  by (auto simp: impl_close_def impl_inv_def split: option.splits)

text \<open>Open and close as a pair give every descriptor back.\<close>

lemma impl_open_close:
  assumes "impl_open rs reconf s = Ret () s1" and "impl_close True s1 = Ret () s2"
  shows "im_held s2 = im_held s \<and> \<not> im_is_open s2 \<and> im_fd s2 = None"
  using assms
proof (induction rs reconf s rule: impl_open.induct)
  case (1 rs reconf s)
  from "1.prems"(1) have ok: "im_port s \<noteq> []" "\<not> im_is_open s" by (auto split: if_splits)
  show ?case
  proof (cases rs)
    case Nil
    with "1.prems" ok show ?thesis by simp
  next
    case (Cons r rs')
    then show ?thesis
    proof (cases r)
      case (Open_fd fd)
      with "1.prems" ok Cons show ?thesis
        by (auto simp: impl_close_def Let_def split: option.splits)
    next
      case Open_eintr
      then show ?thesis using "1.IH" "1.prems" ok Cons by fastforce
    next
      case Open_error
      with "1.prems" ok Cons show ?thesis by simp
    qed
  qed
qed

text \<open>An open that fails while configuring keeps its descriptor, and close does not release it.\<close>

lemma impl_open_reconfigure_fails:
  assumes "im_port s \<noteq> []" "\<not> im_is_open s"
  shows "impl_open (Open_fd fd # rs) (Some e) s =
      Throw e (s\<lparr>im_fd := Some fd, im_held := fd # im_held s\<rparr>)"
    and "impl_close ok (s\<lparr>im_fd := Some fd, im_held := fd # im_held s\<rparr>) =
      Ret () (s\<lparr>im_fd := Some fd, im_held := fd # im_held s\<rparr>)"
  using assms by (simp_all add: impl_close_def)

section \<open>The time limit\<close>

record timespec =
  tv_sec :: int
  tv_nsec :: int

definition ts_ns :: "timespec \<Rightarrow> int" where
  "ts_ns t = tv_sec t * 1000000000 + tv_nsec t"

definition ts_ok :: "timespec \<Rightarrow> bool" where
  "ts_ok t \<longleftrightarrow> 0 \<le> tv_nsec t \<and> tv_nsec t < 1000000000"

text \<open>C division truncates towards zero.\<close>

definition trunc_div :: "int \<Rightarrow> int \<Rightarrow> int" where
  "trunc_div a b = sgn a * sgn b * (\<bar>a\<bar> div \<bar>b\<bar>)"

text \<open>\<open>MillisecondTimer\<close>: the expiry, and the time remaining (a \<open>double\<close> sum truncated).\<close>

definition timer_expiry :: "timespec \<Rightarrow> int \<Rightarrow> timespec" where
  "timer_expiry now millis =
     (let nsec = tv_nsec now + millis * 1000000
      in if 1000000000 \<le> nsec then
           \<lparr>tv_sec = tv_sec now + nsec div 1000000000, tv_nsec = nsec mod 1000000000\<rparr>
         else now\<lparr>tv_nsec := nsec\<rparr>)"

definition timer_remaining :: "timespec \<Rightarrow> timespec \<Rightarrow> int" where
  "timer_remaining expiry now =
     trunc_div ((tv_sec expiry - tv_sec now) * 1000 * 1000000 + (tv_nsec expiry - tv_nsec now)) 1000000"

definition timespec_from_ms :: "int \<Rightarrow> timespec" where
  "timespec_from_ms millis =
     (let sec = millis div 1000 in \<lparr>tv_sec = sec, tv_nsec = (millis - sec * 1000) * 1000000\<rparr>)"

lemma timer_expiry_ns:
  assumes "ts_ok now" "0 \<le> millis"
  shows "ts_ok (timer_expiry now millis)"
    and "ts_ns (timer_expiry now millis) = ts_ns now + millis * 1000000"
  using assms by (auto simp: timer_expiry_def ts_ok_def ts_ns_def Let_def)

lemma timer_remaining_ns:
  "timer_remaining e now = trunc_div (ts_ns e - ts_ns now) 1000000"
  by (simp add: timer_remaining_def ts_ns_def algebra_simps)

lemma timer_expired_iff:
  assumes "ts_ok now" "0 \<le> millis"
  shows "timer_remaining (timer_expiry now millis) later \<le> 0 \<longleftrightarrow>
    (millis - 1) * 1000000 < ts_ns later - ts_ns now"
proof -
  define x where "x = ts_ns now + millis * 1000000 - ts_ns later"
  have "timer_remaining (timer_expiry now millis) later = trunc_div x 1000000"
    using timer_expiry_ns(2) [OF assms] by (simp add: timer_remaining_ns x_def)
  also have "trunc_div x 1000000 \<le> 0 \<longleftrightarrow> x < 1000000"
    by (auto simp: trunc_div_def sgn_if)
  finally show ?thesis by (auto simp: x_def algebra_simps)
qed

lemma timespec_from_ms_ok:
  "ts_ok (timespec_from_ms ms)" and "ts_ns (timespec_from_ms ms) = ms * 1000000"
  by (auto simp: timespec_from_ms_def ts_ok_def ts_ns_def Let_def)

section \<open>Properties\<close>



text \<open>\<open>SerialImpl::write\<close> reports at most the bytes it was given, and after its first turn the
  time limit ends it: with a turn that finds no time left it does not wait for ever.\<close>

theorem write_bounded:
  assumes "\<exists>t \<in> set ts. wt_remaining t \<le> 0"
  shows "case impl_write True len (t0 # ts) of Ret n ts' \<Rightarrow> n \<le> len | Throw e ts' \<Rightarrow> True | Block ts' \<Rightarrow> False"
proof -
  have nb: "write_loop False len w ts \<noteq> Block ts'" for w ts' by (rule write_loop_returns [OF assms])
  show ?thesis
  proof (cases "impl_write True len (t0 # ts)")
    case (Ret n ts')
    then show ?thesis using write_loop_bounds [of True len 0 "t0 # ts" n ts'] by (simp add: impl_write_def)
  next
    case (Block ts')
    then show ?thesis using nb
      by (auto simp: impl_write_def split: if_splits select_result.splits write_result.splits)
  qed simp
qed

lemma write_bounded_witness:
  "impl_write True 3 [\<lparr>wt_remaining = 0, wt_select = Sel_ready, wt_result = Wr_bytes 2\<rparr>,
     \<lparr>wt_remaining = 0, wt_select = Sel_ready, wt_result = Wr_bytes 1\<rparr>] = Ret 2 [] \<and>
   (case impl_write True 3 [\<lparr>wt_remaining = 0, wt_select = Sel_ready, wt_result = Wr_bytes 2\<rparr>,
     \<lparr>wt_remaining = 0, wt_select = Sel_ready, wt_result = Wr_bytes 1\<rparr>] of
      Ret n ts' \<Rightarrow> n \<le> 3 | Throw e ts' \<Rightarrow> True | Block ts' \<Rightarrow> False)"
  using write_bounded [of "[\<lparr>wt_remaining = 0, wt_select = Sel_ready, wt_result = Wr_bytes 1\<rparr>]" 3
      "\<lparr>wt_remaining = 0, wt_select = Sel_ready, wt_result = Wr_bytes 2\<rparr>"]
  by (simp add: impl_write_def)

text \<open>a port that is opened and closed again gives back every descriptor it took, and is closed.\<close>

theorem open_close_restores:
  assumes "impl_open rs reconf s = Ret () s1" and "impl_close True s1 = Ret () s2"
  shows "im_held s2 = im_held s \<and> \<not> im_is_open s2 \<and> im_fd s2 = None"
  using assms by (rule impl_open_close)

definition sample_impl :: impl where
  "sample_impl = \<lparr>im_port = ''/dev/ttyACM0'', im_fd = None, im_is_open = False, im_held = [3]\<rparr>"

lemma open_close_restores_witness:
  "impl_open [Open_eintr, Open_fd 7] None sample_impl =
     Ret () (sample_impl\<lparr>im_fd := Some 7, im_held := [7, 3], im_is_open := True\<rparr>) \<and>
   im_held (final_state (impl_close True (sample_impl\<lparr>im_fd := Some 7, im_held := [7, 3], im_is_open := True\<rparr>))) = [3]"
  using open_close_restores [of "[Open_eintr, Open_fd 7]" None sample_impl
      "sample_impl\<lparr>im_fd := Some 7, im_held := [7, 3], im_is_open := True\<rparr>"]
  by (simp add: sample_impl_def impl_close_def)

text \<open>C29: an open whose configuration fails keeps the descriptor it got, and closing the port afterwards
  does not release it: every failed attempt leaks one descriptor.\<close>

theorem open_failure_leaks:
  assumes "im_port s \<noteq> []" "\<not> im_is_open s"
  shows "\<exists>s1. impl_open (Open_fd fd # rs) (Some e) s = Throw e s1 \<and> im_held s1 = fd # im_held s \<and>
    impl_close ok s1 = Ret () s1"
  using impl_open_reconfigure_fails [OF assms] by auto

lemma open_failure_leaks_witness:
  "\<exists>s1. impl_open [Open_fd 7] (Some IO_exception) sample_impl = Throw IO_exception s1 \<and> im_held s1 = [7, 3] \<and>
    impl_close True s1 = Ret () s1"
  using open_failure_leaks [of sample_impl 7 "[]" IO_exception True] by (simp add: sample_impl_def)

text \<open>the timer of a read or write counts as expired exactly when less than one whole millisecond of
  its limit is left, across the carry of the nanoseconds into the seconds.\<close>

theorem timer_expires:
  assumes "ts_ok now" "0 \<le> millis"
  shows "timer_remaining (timer_expiry now millis) later \<le> 0 \<longleftrightarrow>
    (millis - 1) * 1000000 < ts_ns later - ts_ns now"
  using assms by (rule timer_expired_iff)

lemma timer_expires_witness:
  "0 < timer_remaining (timer_expiry \<lparr>tv_sec = 1, tv_nsec = 999000000\<rparr> 5) \<lparr>tv_sec = 2, tv_nsec = 3000000\<rparr>"
  using timer_expires [of "\<lparr>tv_sec = 1, tv_nsec = 999000000\<rparr>" 5 "\<lparr>tv_sec = 2, tv_nsec = 3000000\<rparr>"]
  by (simp add: ts_ok_def ts_ns_def not_le [symmetric])

end
