(* ===== verification/Serial_Config.thy ===== *)
theory Serial_Config
  imports Serial_Port
begin

text \<open>
  The configuration of the serial port: \<open>reconfigurePort\<close>, the setters, \<open>open\<close> and \<open>setPort\<close>
  with it, the waiting for byte times, the modem lines and \<open>readlines\<close>. The constants
  are those of the Linux headers; the terminal is a state the system calls change, and whether a
  call fails is the environment's choice.
\<close>

section \<open>Settings\<close>

text \<open>
  The enumerations of \<open>serial.h\<close>. A C++ enumeration can hold a value that names none of its
  enumerators, for which the code has a branch of its own.
\<close>

datatype bytesize = Fivebits | Sixbits | Sevenbits | Eightbits | Other_bytesize nat
datatype parity = Parity_none | Parity_odd | Parity_even | Parity_mark | Parity_space | Other_parity nat
datatype stopbits = Stopbits_one | Stopbits_two | Stopbits_one_point_five | Other_stopbits nat
datatype flowcontrol = Flow_none | Flow_software | Flow_hardware | Other_flow nat

primrec bytesize_val :: "bytesize \<Rightarrow> nat" where
  "bytesize_val Fivebits = 5"
| "bytesize_val Sixbits = 6"
| "bytesize_val Sevenbits = 7"
| "bytesize_val Eightbits = 8"
| "bytesize_val (Other_bytesize n) = n"

primrec parity_val :: "parity \<Rightarrow> nat" where
  "parity_val Parity_none = 0"
| "parity_val Parity_odd = 1"
| "parity_val Parity_even = 2"
| "parity_val Parity_mark = 3"
| "parity_val Parity_space = 4"
| "parity_val (Other_parity n) = n"

primrec stopbits_val :: "stopbits \<Rightarrow> nat" where
  "stopbits_val Stopbits_one = 1"
| "stopbits_val Stopbits_two = 2"
| "stopbits_val Stopbits_one_point_five = 3"
| "stopbits_val (Other_stopbits n) = n"

record timeout =
  inter_byte_timeout :: u32
  read_timeout_constant :: u32
  read_timeout_multiplier :: u32
  write_timeout_constant :: u32
  write_timeout_multiplier :: u32

definition timeout_max :: u32 where "timeout_max = 0xFFFFFFFF"

definition simple_timeout :: "u32 \<Rightarrow> timeout" where
  "simple_timeout t =
     \<lparr>inter_byte_timeout = timeout_max, read_timeout_constant = t, read_timeout_multiplier = 0,
      write_timeout_constant = t, write_timeout_multiplier = 0\<rparr>"

section \<open>The terminal\<close>

text \<open>
  \<open>struct termios\<close>: the four flag words, two of the control characters, and the speeds
  that \<open>cfsetispeed\<close> and \<open>cfsetospeed\<close> keep in it.
\<close>

record termios =
  c_iflag :: u32
  c_oflag :: u32
  c_cflag :: u32
  c_lflag :: u32
  c_vmin :: u8
  c_vtime :: u8
  c_ispeed :: u32
  c_ospeed :: u32

text \<open>The terminal with the fields of \<open>serial_struct\<close>, and which calls on it succeed.\<close>

record tty =
  ty_termios :: termios
  ty_baud_base :: int
  ty_flags :: u32
  ty_divisor :: int

record tty_calls =
  tc_getattr :: bool
  tc_setattr :: bool
  tc_getserial :: bool
  tc_setserial :: bool

abbreviation (input) iflag_PARMRK :: u32 where "iflag_PARMRK \<equiv> 0x8"
abbreviation (input) iflag_IGNBRK :: u32 where "iflag_IGNBRK \<equiv> 0x1"
abbreviation (input) iflag_INPCK :: u32 where "iflag_INPCK \<equiv> 0x10"
abbreviation (input) iflag_ISTRIP :: u32 where "iflag_ISTRIP \<equiv> 0x20"
abbreviation (input) iflag_INLCR :: u32 where "iflag_INLCR \<equiv> 0x40"
abbreviation (input) iflag_IGNCR :: u32 where "iflag_IGNCR \<equiv> 0x80"
abbreviation (input) iflag_ICRNL :: u32 where "iflag_ICRNL \<equiv> 0x100"
abbreviation (input) iflag_IUCLC :: u32 where "iflag_IUCLC \<equiv> 0x200"
abbreviation (input) iflag_IXON :: u32 where "iflag_IXON \<equiv> 0x400"
abbreviation (input) iflag_IXANY :: u32 where "iflag_IXANY \<equiv> 0x800"
abbreviation (input) iflag_IXOFF :: u32 where "iflag_IXOFF \<equiv> 0x1000"
abbreviation (input) oflag_OPOST :: u32 where "oflag_OPOST \<equiv> 0x1"
abbreviation (input) cflag_CSIZE :: u32 where "cflag_CSIZE \<equiv> 0x30"
abbreviation (input) cflag_CS5 :: u32 where "cflag_CS5 \<equiv> 0x0"
abbreviation (input) cflag_CS6 :: u32 where "cflag_CS6 \<equiv> 0x10"
abbreviation (input) cflag_CS7 :: u32 where "cflag_CS7 \<equiv> 0x20"
abbreviation (input) cflag_CS8 :: u32 where "cflag_CS8 \<equiv> 0x30"
abbreviation (input) cflag_CSTOPB :: u32 where "cflag_CSTOPB \<equiv> 0x40"
abbreviation (input) cflag_CREAD :: u32 where "cflag_CREAD \<equiv> 0x80"
abbreviation (input) cflag_PARENB :: u32 where "cflag_PARENB \<equiv> 0x100"
abbreviation (input) cflag_PARODD :: u32 where "cflag_PARODD \<equiv> 0x200"
abbreviation (input) cflag_CLOCAL :: u32 where "cflag_CLOCAL \<equiv> 0x800"
abbreviation (input) cflag_CMSPAR :: u32 where "cflag_CMSPAR \<equiv> 0x40000000"
abbreviation (input) cflag_CRTSCTS :: u32 where "cflag_CRTSCTS \<equiv> 0x80000000"
abbreviation (input) lflag_ISIG :: u32 where "lflag_ISIG \<equiv> 0x1"
abbreviation (input) lflag_ICANON :: u32 where "lflag_ICANON \<equiv> 0x2"
abbreviation (input) lflag_ECHO :: u32 where "lflag_ECHO \<equiv> 0x8"
abbreviation (input) lflag_ECHOE :: u32 where "lflag_ECHOE \<equiv> 0x10"
abbreviation (input) lflag_ECHOK :: u32 where "lflag_ECHOK \<equiv> 0x20"
abbreviation (input) lflag_ECHONL :: u32 where "lflag_ECHONL \<equiv> 0x40"
abbreviation (input) lflag_IEXTEN :: u32 where "lflag_IEXTEN \<equiv> 0x8000"

section \<open>reconfigurePort\<close>

text \<open>Raw mode, no echo, binary.\<close>

definition raw_mode :: "termios \<Rightarrow> termios" where
  "raw_mode t = t
     \<lparr>c_cflag := c_cflag t OR (cflag_CLOCAL OR cflag_CREAD),
      c_lflag := c_lflag t AND NOT (lflag_ICANON OR lflag_ECHO OR lflag_ECHOE OR lflag_ECHOK OR lflag_ECHONL OR
        lflag_ISIG OR lflag_IEXTEN),
      c_oflag := c_oflag t AND NOT oflag_OPOST,
      c_iflag := ((c_iflag t AND NOT (iflag_INLCR OR iflag_IGNCR OR iflag_ICRNL OR iflag_IGNBRK))
        AND NOT iflag_IUCLC) AND NOT iflag_PARMRK\<rparr>"

text \<open>The speeds for which Linux defines a constant, out of those the code names.\<close>

definition baud_table :: "(nat \<times> u32) list" where
  "baud_table =
     [(0, 0), (50, 1), (75, 2), (110, 3), (134, 4), (150, 5), (200, 6), (300, 7), (600, 8), (1200, 9),
      (1800, 0xA), (2400, 0xB), (4800, 0xC), (9600, 0xD), (19200, 0xE), (57600, 0x1001), (38400, 0xF),
      (115200, 0x1002), (230400, 0x1003), (460800, 0x1004), (500000, 0x1005), (576000, 0x1006),
      (921600, 0x1007), (1000000, 0x1008), (1152000, 0x1009), (1500000, 0x100A), (2000000, 0x100B),
      (2500000, 0x100C), (3000000, 0x100D), (3500000, 0x100E), (4000000, 0x100F)]"

definition standard_baud :: "nat \<Rightarrow> u32 option" where
  "standard_baud b = map_of baud_table b"

definition set_speed :: "u32 option \<Rightarrow> termios \<Rightarrow> termios" where
  "set_speed b t = (case b of None \<Rightarrow> t | Some s \<Rightarrow> t\<lparr>c_ispeed := s, c_ospeed := s\<rparr>)"

definition char_len :: "bytesize \<Rightarrow> termios \<Rightarrow> exn + termios" where
  "char_len b t =
     (let c = c_cflag t AND NOT cflag_CSIZE
      in case b of
           Eightbits \<Rightarrow> Inr (t\<lparr>c_cflag := c OR cflag_CS8\<rparr>)
         | Sevenbits \<Rightarrow> Inr (t\<lparr>c_cflag := c OR cflag_CS7\<rparr>)
         | Sixbits \<Rightarrow> Inr (t\<lparr>c_cflag := c OR cflag_CS6\<rparr>)
         | Fivebits \<Rightarrow> Inr (t\<lparr>c_cflag := c OR cflag_CS5\<rparr>)
         | Other_bytesize n \<Rightarrow> Inl Invalid_argument)"

definition stop_bits :: "stopbits \<Rightarrow> termios \<Rightarrow> exn + termios" where
  "stop_bits s t =
     (case s of
        Stopbits_one \<Rightarrow> Inr (t\<lparr>c_cflag := c_cflag t AND NOT cflag_CSTOPB\<rparr>)
      | Stopbits_one_point_five \<Rightarrow> Inr (t\<lparr>c_cflag := c_cflag t OR cflag_CSTOPB\<rparr>)
      | Stopbits_two \<Rightarrow> Inr (t\<lparr>c_cflag := c_cflag t OR cflag_CSTOPB\<rparr>)
      | Other_stopbits n \<Rightarrow> Inl Invalid_argument)"

definition parity_flags :: "parity \<Rightarrow> termios \<Rightarrow> exn + termios" where
  "parity_flags p t =
     (let t = t\<lparr>c_iflag := c_iflag t AND NOT (iflag_INPCK OR iflag_ISTRIP)\<rparr>; c = c_cflag t
      in case p of
           Parity_none \<Rightarrow> Inr (t\<lparr>c_cflag := c AND NOT (cflag_PARENB OR cflag_PARODD)\<rparr>)
         | Parity_even \<Rightarrow> Inr (t\<lparr>c_cflag := (c AND NOT cflag_PARODD) OR cflag_PARENB\<rparr>)
         | Parity_odd \<Rightarrow> Inr (t\<lparr>c_cflag := c OR (cflag_PARENB OR cflag_PARODD)\<rparr>)
         | Parity_mark \<Rightarrow> Inr (t\<lparr>c_cflag := c OR (cflag_PARENB OR cflag_CMSPAR OR cflag_PARODD)\<rparr>)
         | Parity_space \<Rightarrow> Inr (t\<lparr>c_cflag := (c OR (cflag_PARENB OR cflag_CMSPAR)) AND NOT cflag_PARODD\<rparr>)
         | Other_parity n \<Rightarrow> Inl Invalid_argument)"

text \<open>The members \<open>xonxoff_\<close> and \<open>rtscts_\<close>, and the flags they become.\<close>

definition flow_members :: "flowcontrol \<Rightarrow> bool \<times> bool \<Rightarrow> bool \<times> bool" where
  "flow_members f old =
     (case f of Flow_none \<Rightarrow> (False, False) | Flow_software \<Rightarrow> (True, False) | Flow_hardware \<Rightarrow> (False, True)
      | Other_flow n \<Rightarrow> old)"

definition flow_flags :: "bool \<times> bool \<Rightarrow> termios \<Rightarrow> termios" where
  "flow_flags f t = t
     \<lparr>c_iflag := (if fst f then c_iflag t OR (iflag_IXON OR iflag_IXOFF)
                 else c_iflag t AND NOT (iflag_IXON OR iflag_IXOFF OR iflag_IXANY)),
      c_cflag := (if snd f then c_cflag t OR cflag_CRTSCTS else c_cflag t AND NOT cflag_CRTSCTS)\<rparr>"

definition polling_read :: "termios \<Rightarrow> termios" where
  "polling_read t = t\<lparr>c_vmin := 0, c_vtime := 0\<rparr>"

text \<open>All that is made of the termios before it is written back.\<close>

definition line_options :: "nat \<Rightarrow> bytesize \<Rightarrow> stopbits \<Rightarrow> parity \<Rightarrow> termios \<Rightarrow> exn + termios" where
  "line_options baud b s p t =
     try_then (char_len b (set_speed (standard_baud baud) (raw_mode t))) (\<lambda>t.
     try_then (stop_bits s t) (parity_flags p))"

text \<open>
  The divisor of a speed without a constant: the speed is cast to \<open>int\<close>; a division by zero is
  undefined.
\<close>

definition custom_divisor :: "int \<Rightarrow> u64 \<Rightarrow> int option" where
  "custom_divisor baud_base baud =
     (let b = sint (ucast baud :: u32) in if b = 0 then None else Some (trunc_div baud_base b))"

abbreviation (input) async_SPD_MASK :: u32 where "async_SPD_MASK \<equiv> 0x1030"
abbreviation (input) async_SPD_CUST :: u32 where "async_SPD_CUST \<equiv> 0x30"

definition custom_flags :: "u32 \<Rightarrow> u32" where
  "custom_flags f = (f AND NOT async_SPD_MASK) OR async_SPD_CUST"

text \<open>
  The time of one byte. \<open>1e9 / baudrate_\<close> is a \<open>double\<close> below \<open>2^30\<close> that is truncated; the
  quotient is at least \<open>2^-32\<close> away from the integer above it when the speed has 32 bits, more
  than the rounding of the division, so the whole quotient is exact. The sum is an unsigned product
  that wraps. For one and a half stop bits the code takes three half bit times off again; a negative
  result has no \<open>uint32_t\<close>.
\<close>

definition bit_time_ns :: "u64 \<Rightarrow> u32" where
  "bit_time_ns baud = of_nat (1000000000 div unat baud)"

definition byte_time_ns :: "u64 \<Rightarrow> bytesize \<Rightarrow> parity \<Rightarrow> stopbits \<Rightarrow> u32 option" where
  "byte_time_ns baud b p s =
     (if baud = 0 then None
      else let bit = bit_time_ns baud;
               t = bit * of_nat (1 + bytesize_val b + parity_val p + stopbits_val s)
           in if s = Stopbits_one_point_five then
                let d = 2 * uint t - 3 * uint bit in if d \<le> - 2 then None else Some (word_of_int (trunc_div d 2))
              else Some t)"

section \<open>The port object\<close>

record port =
  pt_impl :: impl
  pt_xonxoff :: bool
  pt_rtscts :: bool
  pt_timeout :: timeout
  pt_baudrate :: u64
  pt_byte_time_ns :: u32
  pt_parity :: parity
  pt_bytesize :: bytesize
  pt_stopbits :: stopbits
  pt_flowcontrol :: flowcontrol

text \<open>
  \<open>reconfigurePort\<close>; \<open>None\<close> is undefined behaviour. The result of \<open>tcsetattr\<close> is not looked at.
\<close>

definition reconfigure_port :: "tty_calls \<Rightarrow> port \<times> tty \<Rightarrow> (unit, port \<times> tty) outcome option" where
  "reconfigure_port k s =
     (let p = fst s; y = snd s; baud = pt_baudrate p;
          finish = (\<lambda>p y. map_option (\<lambda>t. Ret () (p\<lparr>pt_byte_time_ns := t\<rparr>, y))
            (byte_time_ns baud (pt_bytesize p) (pt_parity p) (pt_stopbits p)))
      in if im_fd (pt_impl p) = None then Some (Throw IO_exception s)
         else if \<not> tc_getattr k then Some (Throw IO_exception s)
         else case line_options (unat baud) (pt_bytesize p) (pt_stopbits p) (pt_parity p) (ty_termios y) of
           Inl e \<Rightarrow> Some (Throw e s)
         | Inr t \<Rightarrow>
             let f = flow_members (pt_flowcontrol p) (pt_xonxoff p, pt_rtscts p);
                 p = p\<lparr>pt_xonxoff := fst f, pt_rtscts := snd f\<rparr>;
                 y = (if tc_setattr k then y\<lparr>ty_termios := polling_read (flow_flags f t)\<rparr> else y)
             in if standard_baud (unat baud) \<noteq> None then finish p y
                else if \<not> tc_getserial k then Some (Throw IO_exception (p, y))
                else case custom_divisor (ty_baud_base y) baud of
                  None \<Rightarrow> None
                | Some d \<Rightarrow>
                    if \<not> tc_setserial k then Some (Throw IO_exception (p, y))
                    else finish p (y\<lparr>ty_divisor := d, ty_flags := custom_flags (ty_flags y)\<rparr>))"

section \<open>Setters\<close>

definition reconfigure_if_open :: "tty_calls \<Rightarrow> port \<times> tty \<Rightarrow> (unit, port \<times> tty) outcome option" where
  "reconfigure_if_open k s = (if im_is_open (pt_impl (fst s)) then reconfigure_port k s else Some (Ret () s))"

definition set_baudrate :: "u64 \<Rightarrow> tty_calls \<Rightarrow> port \<times> tty \<Rightarrow> (unit, port \<times> tty) outcome option" where
  "set_baudrate b k s = reconfigure_if_open k (apfst (\<lambda>p. p\<lparr>pt_baudrate := b\<rparr>) s)"

definition set_bytesize :: "bytesize \<Rightarrow> tty_calls \<Rightarrow> port \<times> tty \<Rightarrow> (unit, port \<times> tty) outcome option" where
  "set_bytesize b k s = reconfigure_if_open k (apfst (\<lambda>p. p\<lparr>pt_bytesize := b\<rparr>) s)"

definition set_parity :: "parity \<Rightarrow> tty_calls \<Rightarrow> port \<times> tty \<Rightarrow> (unit, port \<times> tty) outcome option" where
  "set_parity b k s = reconfigure_if_open k (apfst (\<lambda>p. p\<lparr>pt_parity := b\<rparr>) s)"

definition set_stopbits :: "stopbits \<Rightarrow> tty_calls \<Rightarrow> port \<times> tty \<Rightarrow> (unit, port \<times> tty) outcome option" where
  "set_stopbits b k s = reconfigure_if_open k (apfst (\<lambda>p. p\<lparr>pt_stopbits := b\<rparr>) s)"

definition set_flowcontrol :: "flowcontrol \<Rightarrow> tty_calls \<Rightarrow> port \<times> tty \<Rightarrow> (unit, port \<times> tty) outcome option" where
  "set_flowcontrol b k s = reconfigure_if_open k (apfst (\<lambda>p. p\<lparr>pt_flowcontrol := b\<rparr>) s)"

definition set_timeout :: "timeout \<Rightarrow> port \<Rightarrow> port" where
  "set_timeout t p = p\<lparr>pt_timeout := t\<rparr>"

section \<open>Opening\<close>

text \<open>
  \<open>open\<close> with the configuration it makes; \<open>rs\<close> are the results of the \<open>::open\<close> calls.
\<close>

fun port_open :: "open_result list \<Rightarrow> tty_calls \<Rightarrow> port \<times> tty \<Rightarrow> (unit, port \<times> tty) outcome option" where
  "port_open rs k (p, y) =
     (let i = pt_impl p
      in if im_port i = [] then Some (Throw Invalid_argument (p, y))
         else if im_is_open i then Some (Throw Serial_exception (p, y))
         else case rs of
           [] \<Rightarrow> Some (Block (p, y))
         | Open_eintr # rs' \<Rightarrow> port_open rs' k (p\<lparr>pt_impl := i\<lparr>im_fd := None\<rparr>\<rparr>, y)
         | Open_error # rs' \<Rightarrow> Some (Throw IO_exception (p\<lparr>pt_impl := i\<lparr>im_fd := None\<rparr>\<rparr>, y))
         | Open_fd fd # rs' \<Rightarrow>
             map_option (\<lambda>r. seq r (\<lambda>_ s.
                 Ret () (apfst (\<lambda>p. p\<lparr>pt_impl := (pt_impl p)\<lparr>im_is_open := True\<rparr>\<rparr>) s)))
               (reconfigure_port k (p\<lparr>pt_impl := i\<lparr>im_fd := Some fd, im_held := fd # im_held i\<rparr>\<rparr>, y)))"

definition port_close :: "bool \<Rightarrow> port \<times> tty \<Rightarrow> (unit, port \<times> tty) outcome" where
  "port_close close_ok s =
     (case impl_close close_ok (pt_impl (fst s)) of
        Ret _ i \<Rightarrow> Ret () (apfst (\<lambda>p. p\<lparr>pt_impl := i\<rparr>) s)
      | Throw e i \<Rightarrow> Throw e (apfst (\<lambda>p. p\<lparr>pt_impl := i\<rparr>) s)
      | Block i \<Rightarrow> Block (apfst (\<lambda>p. p\<lparr>pt_impl := i\<rparr>) s))"

text \<open>The constructor opens the port when it has a name; the wrapper then sets the timeout.\<close>

definition new_port :: "string \<Rightarrow> u64 \<Rightarrow> bytesize \<Rightarrow> parity \<Rightarrow> stopbits \<Rightarrow> flowcontrol \<Rightarrow> timeout \<Rightarrow> u32 \<Rightarrow> nat list \<Rightarrow> port" where
  "new_port name baud b p s f t0 bt held =
     \<lparr>pt_impl = \<lparr>im_port = name, im_fd = None, im_is_open = False, im_held = held\<rparr>, pt_xonxoff = False,
      pt_rtscts = False, pt_timeout = t0, pt_baudrate = baud, pt_byte_time_ns = bt, pt_parity = p,
      pt_bytesize = b, pt_stopbits = s, pt_flowcontrol = f\<rparr>"

definition default_timeout :: timeout where
  "default_timeout =
     \<lparr>inter_byte_timeout = 0, read_timeout_constant = 0, read_timeout_multiplier = 0,
      write_timeout_constant = 0, write_timeout_multiplier = 0\<rparr>"

text \<open>\<open>bt\<close> is the byte time before it is first computed, which the constructor leaves uninitialised.\<close>

definition make_serial ::
  "string \<Rightarrow> u32 \<Rightarrow> timeout \<Rightarrow> bytesize \<Rightarrow> parity \<Rightarrow> stopbits \<Rightarrow> flowcontrol \<Rightarrow> u32 \<Rightarrow> nat list \<Rightarrow>
   open_result list \<Rightarrow> tty_calls \<Rightarrow> tty \<Rightarrow> (unit, port \<times> tty) outcome option" where
  "make_serial name baud t b p s f bt held rs k y =
     (let q = new_port name (ucast baud) b p s f default_timeout bt held
      in map_option (\<lambda>r. seq r (\<lambda>_ s. Ret () (apfst (set_timeout t) s)))
           (if name = [] then Some (Ret () (q, y)) else port_open rs k (q, y)))"

definition set_port ::
  "string \<Rightarrow> bool \<Rightarrow> open_result list \<Rightarrow> tty_calls \<Rightarrow> port \<times> tty \<Rightarrow> (unit, port \<times> tty) outcome option" where
  "set_port name close_ok rs k s =
     (let was_open = im_is_open (pt_impl (fst s));
          rename = apfst (\<lambda>p. p\<lparr>pt_impl := (pt_impl p)\<lparr>im_port := name\<rparr>\<rparr>)
      in case (if was_open then port_close close_ok s else Ret () s) of
           Ret _ s \<Rightarrow> if was_open then port_open rs k (rename s) else Some (Ret () (rename s))
         | Throw e s \<Rightarrow> Some (Throw e s)
         | Block s \<Rightarrow> Some (Block s))"

section \<open>Waiting for byte times\<close>

text \<open>
  The time given to \<open>pselect\<close>: no seconds, and the nanoseconds of the product in 64 bits.
  \<open>pselect\<close> waits only for a valid time, nanoseconds below a second; the code ignores its result.
\<close>

definition wait_byte_times :: "port \<Rightarrow> u64 \<Rightarrow> timespec" where
  "wait_byte_times p count = \<lparr>tv_sec = 0, tv_nsec = sint (ucast (pt_byte_time_ns p) * count)\<rparr>"

definition waits :: "timespec \<Rightarrow> bool" where
  "waits t \<longleftrightarrow> 0 \<le> tv_sec t \<and> 0 \<le> tv_nsec t \<and> tv_nsec t < 1000000000"

section \<open>Modem lines\<close>

abbreviation (input) modem_DTR :: u32 where "modem_DTR \<equiv> 0x2"
abbreviation (input) modem_RTS :: u32 where "modem_RTS \<equiv> 0x4"
abbreviation (input) modem_CTS :: u32 where "modem_CTS \<equiv> 0x20"
abbreviation (input) modem_CD :: u32 where "modem_CD \<equiv> 0x40"
abbreviation (input) modem_RI :: u32 where "modem_RI \<equiv> 0x80"
abbreviation (input) modem_DSR :: u32 where "modem_DSR \<equiv> 0x100"

text \<open>The lines and the break condition of a terminal; \<open>ok\<close> tells whether the \<open>ioctl\<close> succeeds.\<close>

record modem =
  md_lines :: u32
  md_break :: bool

definition set_break :: "bool \<Rightarrow> bool \<Rightarrow> bool \<Rightarrow> modem \<Rightarrow> (unit, modem) outcome" where
  "set_break opened ok level m =
     (if \<not> opened then Throw Port_not_opened m
      else if \<not> ok then Throw Serial_exception m
      else Ret () (m\<lparr>md_break := level\<rparr>))"

definition change_line :: "u32 \<Rightarrow> bool \<Rightarrow> modem \<Rightarrow> modem" where
  "change_line command level m = m\<lparr>md_lines := (if level then md_lines m OR command else md_lines m AND NOT command)\<rparr>"

definition set_rts :: "bool \<Rightarrow> bool \<Rightarrow> bool \<Rightarrow> modem \<Rightarrow> (unit, modem) outcome" where
  "set_rts opened ok level m =
     (if \<not> opened then Throw Port_not_opened m
      else if \<not> ok then Throw Serial_exception m
      else Ret () (change_line modem_RTS level m))"

definition set_dtr :: "bool \<Rightarrow> bool \<Rightarrow> bool \<Rightarrow> modem \<Rightarrow> (unit, modem) outcome" where
  "set_dtr opened ok level m =
     (if \<not> opened then Throw Port_not_opened m
      else if \<not> ok then Throw Serial_exception m
      else Ret () (change_line modem_DTR level m))"

definition get_line :: "u32 \<Rightarrow> bool \<Rightarrow> bool \<Rightarrow> modem \<Rightarrow> (bool, modem) outcome" where
  "get_line line opened ok m =
     (if \<not> opened then Throw Port_not_opened m
      else if \<not> ok then Throw Serial_exception m
      else Ret (0 \<noteq> (md_lines m AND line)) m)"

definition get_cts :: "bool \<Rightarrow> bool \<Rightarrow> modem \<Rightarrow> (bool, modem) outcome" where
  "get_cts = get_line modem_CTS"

definition get_dsr :: "bool \<Rightarrow> bool \<Rightarrow> modem \<Rightarrow> (bool, modem) outcome" where
  "get_dsr = get_line modem_DSR"

definition get_ri :: "bool \<Rightarrow> bool \<Rightarrow> modem \<Rightarrow> (bool, modem) outcome" where
  "get_ri = get_line modem_RI"

definition get_cd :: "bool \<Rightarrow> bool \<Rightarrow> modem \<Rightarrow> (bool, modem) outcome" where
  "get_cd = get_line modem_CD"

text \<open>The duration \<open>tcsendbreak\<close> gets.\<close>

definition send_break :: "bool \<Rightarrow> int \<Rightarrow> exn + int" where
  "send_break opened duration = (if \<not> opened then Inl Port_not_opened else Inr (trunc_div duration 4))"

text \<open>
  \<open>waitForChange\<close> is one \<open>ioctl\<close> that waits in the kernel: \<open>r\<close> tells whether it succeeds,
  \<open>None\<close> when it never comes back. It does not look whether the port is open.
\<close>

definition wait_for_change :: "bool option \<Rightarrow> modem \<Rightarrow> (bool, modem) outcome" where
  "wait_for_change r m =
     (case r of None \<Rightarrow> Block m | Some ok \<Rightarrow> if ok then Ret True m else Throw Serial_exception m)"

text \<open>\<open>flushOutput\<close> drops the bytes that are written but not sent.\<close>

definition flush_output :: "bool \<Rightarrow> u8 list \<Rightarrow> (unit, u8 list) outcome" where
  "flush_output opened pending = (if \<not> opened then Throw Port_not_opened pending else Ret () [])"

section \<open>readlines\<close>

text \<open>
  \<open>readlines\<close> on the stream: \<open>buf\<close> is the buffer up to \<open>read_so_far\<close>, \<open>start\<close> the start of the
  line in it.
\<close>

fun readlines_loop :: "nat \<Rightarrow> string \<Rightarrow> string \<Rightarrow> nat \<Rightarrow> string list \<Rightarrow> rx list \<Rightarrow> (string list, rx list) outcome" where
  "readlines_loop sz eol buf start lines [] =
     (if sz \<le> length buf then Ret lines [] else Block [])"
| "readlines_loop sz eol buf start lines (x # r) =
     (if sz \<le> length buf then Ret lines (x # r)
      else case x of
        Rx_gone \<Rightarrow> Throw Serial_exception (Rx_gone # r)
      | Rx_quiet \<Rightarrow> Ret (if start \<noteq> length buf then lines @ [drop start buf] else lines) r
      | Rx_byte c \<Rightarrow>
          let buf = buf @ [c]
          in if length buf < length eol then readlines_loop sz eol buf start lines r
             else let found = (drop (length buf - length eol) buf = eol);
                      lines = (if found then lines @ [drop start buf] else lines);
                      start = (if found then length buf else start)
                  in if length buf = sz then
                       Ret (if start \<noteq> length buf then lines @ [drop start buf] else lines) r
                     else readlines_loop sz eol buf start lines r)"

definition stream_readlines :: "nat \<Rightarrow> string \<Rightarrow> rx list \<Rightarrow> (string list, rx list) outcome" where
  "stream_readlines sz eol r = readlines_loop sz eol [] 0 [] r"

section \<open>What the flags say\<close>

record line =
  ln_bits :: nat
  ln_two_stop :: bool
  ln_parity :: parity
  ln_xonxoff :: bool
  ln_rtscts :: bool

definition parity_of :: "u32 \<Rightarrow> parity" where
  "parity_of c =
     (if \<not> bit c 8 then Parity_none
      else if bit c 30 then (if bit c 9 then Parity_mark else Parity_space)
      else (if bit c 9 then Parity_odd else Parity_even))"

definition line_of :: "termios \<Rightarrow> line" where
  "line_of t =
     \<lparr>ln_bits = 5 + (if bit (c_cflag t) 4 then 1 else 0) + (if bit (c_cflag t) 5 then 2 else 0),
      ln_two_stop = bit (c_cflag t) 6, ln_parity = parity_of (c_cflag t),
      ln_xonxoff = (bit (c_iflag t) 10 \<and> bit (c_iflag t) 12), ln_rtscts = bit (c_cflag t) 31\<rparr>"

text \<open>Raw: characters go through as they are, in both directions, without echo, editing or signals.\<close>

definition is_raw :: "termios \<Rightarrow> bool" where
  "is_raw t \<longleftrightarrow>
     bit (c_cflag t) 7 \<and> bit (c_cflag t) 11 \<and> \<not> bit (c_oflag t) 0 \<and>
     (\<forall>i\<in>{0, 1, 3, 4, 5, 6, 15}. \<not> bit (c_lflag t) i) \<and>
     (\<forall>i\<in>{0, 3, 4, 5, 6, 7, 8, 9}. \<not> bit (c_iflag t) i) \<and> c_vmin t = 0 \<and> c_vtime t = 0"

text \<open>The bits of the control flags that the stages of the configuration set, stage by stage.\<close>

lemma bit_mask_iff: "bit (x AND NOT m :: u32) n \<longleftrightarrow> bit x n \<and> \<not> bit m n"
  by (auto simp: bit_simps dest: bit_imp_le_length)

lemmas flag_bits = bit_mask_iff bit_or_iff

definition same_rest :: "termios \<Rightarrow> termios \<Rightarrow> bool" where
  "same_rest t u \<longleftrightarrow>
     c_iflag u = c_iflag t \<and> c_oflag u = c_oflag t \<and> c_lflag u = c_lflag t \<and>
     c_ispeed u = c_ispeed t \<and> c_ospeed u = c_ospeed t"

lemma char_len_bits:
  assumes "char_len b t = Inr u"
  shows "same_rest t u" and "\<forall>n\<in>{6, 7, 8, 9, 11, 30, 31}. bit (c_cflag u) n = bit (c_cflag t) n"
    and "5 + (if bit (c_cflag u) 4 then 1 else 0) + (if bit (c_cflag u) 5 then 2 else 0) = bytesize_val b"
proof -
  obtain m where m: "u = t\<lparr>c_cflag := (c_cflag t AND NOT 0x30) OR m\<rparr>" "\<forall>n\<in>{6, 7, 8, 9, 11, 30, 31}. \<not> bit m n"
    "5 + (if bit m 4 then 1 else 0) + (if bit m 5 then 2 else 0) = bytesize_val b"
  proof (cases b)
    case Fivebits
    then show thesis using assms by (intro that [of 0]) (simp_all add: char_len_def)
  next
    case Sixbits
    then show thesis using assms by (intro that [of "0x10"]) (simp_all add: char_len_def)
  next
    case Sevenbits
    then show thesis using assms by (intro that [of "0x20"]) (simp_all add: char_len_def)
  next
    case Eightbits
    then show thesis using assms by (intro that [of "0x30"]) (simp_all add: char_len_def)
  next
    case Other_bytesize
    then show thesis using assms by (simp add: char_len_def Let_def)
  qed
  have c: "c_cflag u = (c_cflag t AND NOT 0x30) OR m" by (simp add: m(1))
  show "same_rest t u" by (simp add: m(1) same_rest_def)
  show "\<forall>n\<in>{6, 7, 8, 9, 11, 30, 31}. bit (c_cflag u) n = bit (c_cflag t) n"
    using m(2) unfolding c flag_bits by simp
  show "5 + (if bit (c_cflag u) 4 then 1 else 0) + (if bit (c_cflag u) 5 then 2 else 0) = bytesize_val b"
    unfolding m(3) [symmetric] c flag_bits by simp
qed

lemma stop_bits_bits:
  assumes "stop_bits s t = Inr u"
  shows "same_rest t u" and "\<forall>n\<in>{4, 5, 7, 8, 9, 11, 30, 31}. bit (c_cflag u) n = bit (c_cflag t) n"
    and "bit (c_cflag u) 6 \<longleftrightarrow> s \<noteq> Stopbits_one"
proof -
  have "same_rest t u \<and> (\<forall>n\<in>{4, 5, 7, 8, 9, 11, 30, 31}. bit (c_cflag u) n = bit (c_cflag t) n) \<and>
    (bit (c_cflag u) 6 \<longleftrightarrow> s \<noteq> Stopbits_one)"
  proof (cases "s = Stopbits_one")
    case True
    then have u: "u = t\<lparr>c_cflag := c_cflag t AND NOT 0x40\<rparr>" using assms by (simp add: stop_bits_def)
    then have c: "c_cflag u = c_cflag t AND NOT 0x40" by simp
    show ?thesis unfolding c flag_bits using True by (simp add: u same_rest_def)
  next
    case False
    then have u: "u = t\<lparr>c_cflag := c_cflag t OR 0x40\<rparr>" using assms by (cases s) (simp_all add: stop_bits_def)
    then have c: "c_cflag u = c_cflag t OR 0x40" by simp
    show ?thesis unfolding c flag_bits using False by (simp add: u same_rest_def)
  qed
  then show "same_rest t u" "\<forall>n\<in>{4, 5, 7, 8, 9, 11, 30, 31}. bit (c_cflag u) n = bit (c_cflag t) n"
    "bit (c_cflag u) 6 \<longleftrightarrow> s \<noteq> Stopbits_one"
    by blast+
qed

text \<open>What the parity becomes: odd and even leave the mark and space flag as it was.\<close>

definition effective_parity :: "bool \<Rightarrow> parity \<Rightarrow> parity" where
  "effective_parity sticky p =
     (if sticky then (case p of Parity_odd \<Rightarrow> Parity_mark | Parity_even \<Rightarrow> Parity_space | _ \<Rightarrow> p) else p)"

lemma parity_bits:
  assumes "parity_flags p t = Inr u"
  shows "c_iflag u = c_iflag t AND NOT (0x10 OR 0x20)" "c_oflag u = c_oflag t" "c_lflag u = c_lflag t"
    "c_ispeed u = c_ispeed t" "c_ospeed u = c_ospeed t"
    and "\<forall>n\<in>{4, 5, 6, 7, 11, 31}. bit (c_cflag u) n = bit (c_cflag t) n"
    and "parity_of (c_cflag u) = effective_parity (bit (c_cflag t) 30) p"
    and "bit (c_cflag u) 30 \<longleftrightarrow> bit (c_cflag t) 30 \<or> p = Parity_mark \<or> p = Parity_space"
proof -
  obtain c where u: "u = t\<lparr>c_iflag := c_iflag t AND NOT (0x10 OR 0x20), c_cflag := c\<rparr>"
    and c: "\<forall>n\<in>{4, 5, 6, 7, 11, 31}. bit c n = bit (c_cflag t) n"
      "parity_of c = effective_parity (bit (c_cflag t) 30) p"
      "bit c 30 \<longleftrightarrow> bit (c_cflag t) 30 \<or> p = Parity_mark \<or> p = Parity_space"
  proof (cases p)
    case Parity_none
    show thesis
      by (rule that [of "c_cflag t AND NOT (0x100 OR 0x200)"])
        (use assms Parity_none in \<open>simp add: parity_flags_def Let_def\<close>,
          unfold parity_of_def effective_parity_def flag_bits, simp_all add: Parity_none)
  next
    case Parity_odd
    show thesis
      by (rule that [of "c_cflag t OR (0x100 OR 0x200)"])
        (use assms Parity_odd in \<open>simp add: parity_flags_def Let_def\<close>,
          unfold parity_of_def effective_parity_def flag_bits, simp_all add: Parity_odd)
  next
    case Parity_even
    show thesis
      by (rule that [of "(c_cflag t AND NOT 0x200) OR 0x100"])
        (use assms Parity_even in \<open>simp add: parity_flags_def Let_def\<close>,
          unfold parity_of_def effective_parity_def flag_bits, simp_all add: Parity_even)
  next
    case Parity_mark
    show thesis
      by (rule that [of "c_cflag t OR (0x100 OR 0x40000000 OR 0x200)"])
        (use assms Parity_mark in \<open>simp add: parity_flags_def Let_def\<close>,
          unfold parity_of_def effective_parity_def flag_bits, simp_all add: Parity_mark)
  next
    case Parity_space
    show thesis
      by (rule that [of "(c_cflag t OR (0x100 OR 0x40000000)) AND NOT 0x200"])
        (use assms Parity_space in \<open>simp add: parity_flags_def Let_def\<close>,
          unfold parity_of_def effective_parity_def flag_bits, simp_all add: Parity_space)
  next
    case Other_parity
    then show thesis using assms by (simp add: parity_flags_def Let_def)
  qed
  show "c_iflag u = c_iflag t AND NOT (0x10 OR 0x20)" "c_oflag u = c_oflag t" "c_lflag u = c_lflag t"
    "c_ispeed u = c_ispeed t" "c_ospeed u = c_ospeed t"
    "\<forall>n\<in>{4, 5, 6, 7, 11, 31}. bit (c_cflag u) n = bit (c_cflag t) n"
    "parity_of (c_cflag u) = effective_parity (bit (c_cflag t) 30) p"
    "bit (c_cflag u) 30 \<longleftrightarrow> bit (c_cflag t) 30 \<or> p = Parity_mark \<or> p = Parity_space"
    using c by (simp_all add: u)
qed

section \<open>The configured line\<close>

lemma raw_mode_bits:
  "bit (c_cflag (raw_mode t)) 7" "bit (c_cflag (raw_mode t)) 11" "\<not> bit (c_oflag (raw_mode t)) 0"
  "\<forall>i\<in>{0, 1, 3, 4, 5, 6, 15}. \<not> bit (c_lflag (raw_mode t)) i"
  "\<forall>i\<in>{0, 3, 6, 7, 8, 9}. \<not> bit (c_iflag (raw_mode t)) i"
  "bit (c_cflag (raw_mode t)) 30 = bit (c_cflag t) 30"
proof -
  have c: "c_cflag (raw_mode t) = c_cflag t OR (0x800 OR 0x80)" by (simp add: raw_mode_def)
  show "bit (c_cflag (raw_mode t)) 7" "bit (c_cflag (raw_mode t)) 11" "bit (c_cflag (raw_mode t)) 30 = bit (c_cflag t) 30"
    unfolding c flag_bits by simp_all
  have o: "c_oflag (raw_mode t) = c_oflag t AND NOT 1" by (simp add: raw_mode_def)
  show "\<not> bit (c_oflag (raw_mode t)) 0" unfolding o flag_bits by simp
  have l: "c_lflag (raw_mode t) = c_lflag t AND NOT (0x2 OR 0x8 OR 0x10 OR 0x20 OR 0x40 OR 0x1 OR 0x8000)"
    by (simp add: raw_mode_def)
  show "\<forall>i\<in>{0, 1, 3, 4, 5, 6, 15}. \<not> bit (c_lflag (raw_mode t)) i" unfolding l flag_bits by simp
  have i: "c_iflag (raw_mode t) = ((c_iflag t AND NOT (0x40 OR 0x80 OR 0x100 OR 0x1)) AND NOT 0x200) AND NOT 0x8"
    by (simp add: raw_mode_def)
  show "\<forall>i\<in>{0, 3, 6, 7, 8, 9}. \<not> bit (c_iflag (raw_mode t)) i" unfolding i flag_bits by simp
qed

lemma flow_bits:
  "\<forall>n\<in>{4, 5, 6, 7, 8, 9, 11, 30}. bit (c_cflag (flow_flags f t)) n = bit (c_cflag t) n"
  "bit (c_cflag (flow_flags f t)) 31 = snd f"
  "\<forall>n\<in>{0, 3, 4, 5, 6, 7, 8, 9}. bit (c_iflag (flow_flags f t)) n = bit (c_iflag t) n"
  "(bit (c_iflag (flow_flags f t)) 10 \<and> bit (c_iflag (flow_flags f t)) 12) = fst f"
proof -
  have c: "c_cflag (flow_flags f t) = (if snd f then c_cflag t OR 0x80000000 else c_cflag t AND NOT 0x80000000)"
    and i: "c_iflag (flow_flags f t) = (if fst f then c_iflag t OR (0x400 OR 0x1000) else c_iflag t AND NOT (0x400 OR 0x1000 OR 0x800))"
    by (simp_all add: flow_flags_def)
  have on: "\<forall>n\<in>{4, 5, 6, 7, 8, 9, 11, 30}. bit (x OR 0x80000000) n = bit x n" "bit (x OR 0x80000000) 31"
    "\<forall>n\<in>{4, 5, 6, 7, 8, 9, 11, 30}. bit (x AND NOT 0x80000000) n = bit x n" "\<not> bit (x AND NOT 0x80000000) 31" for x :: u32
    unfolding flag_bits by simp_all
  have ion: "\<forall>n\<in>{0, 3, 4, 5, 6, 7, 8, 9}. bit (x OR (0x400 OR 0x1000)) n = bit x n"
    "bit (x OR (0x400 OR 0x1000)) 10" "bit (x OR (0x400 OR 0x1000)) 12"
    "\<forall>n\<in>{0, 3, 4, 5, 6, 7, 8, 9}. bit (x AND NOT (0x400 OR 0x1000 OR 0x800)) n = bit x n"
    "\<not> bit (x AND NOT (0x400 OR 0x1000 OR 0x800)) 10" for x :: u32
    unfolding flag_bits by simp_all
  have cf: "(\<forall>n\<in>{4, 5, 6, 7, 8, 9, 11, 30}. bit (if q then x OR 0x80000000 else x AND NOT 0x80000000) n = bit x n) \<and>
      bit (if q then x OR 0x80000000 else x AND NOT 0x80000000) 31 = q" for q and x :: u32
  proof (cases q)
    case True
    show ?thesis unfolding if_P [OF True] using on(1,2) True by blast
  next
    case False
    show ?thesis unfolding if_not_P [OF False] using on(3,4) False by blast
  qed
  have ci: "(\<forall>n\<in>{0, 3, 4, 5, 6, 7, 8, 9}.
        bit (if q then x OR (0x400 OR 0x1000) else x AND NOT (0x400 OR 0x1000 OR 0x800)) n = bit x n) \<and>
      (bit (if q then x OR (0x400 OR 0x1000) else x AND NOT (0x400 OR 0x1000 OR 0x800)) 10 \<and>
       bit (if q then x OR (0x400 OR 0x1000) else x AND NOT (0x400 OR 0x1000 OR 0x800)) 12) = q" for q and x :: u32
  proof (cases q)
    case True
    show ?thesis unfolding if_P [OF True] using ion(1,2,3) True by blast
  next
    case False
    show ?thesis unfolding if_not_P [OF False] using ion(4,5) False by blast
  qed
  show "\<forall>n\<in>{4, 5, 6, 7, 8, 9, 11, 30}. bit (c_cflag (flow_flags f t)) n = bit (c_cflag t) n"
    "bit (c_cflag (flow_flags f t)) 31 = snd f"
    unfolding c using cf by blast+
  show "\<forall>n\<in>{0, 3, 4, 5, 6, 7, 8, 9}. bit (c_iflag (flow_flags f t)) n = bit (c_iflag t) n"
    "(bit (c_iflag (flow_flags f t)) 10 \<and> bit (c_iflag (flow_flags f t)) 12) = fst f"
    unfolding i using ci by blast+
qed

lemma flow_rest [simp]:
  "c_oflag (flow_flags f t) = c_oflag t" "c_lflag (flow_flags f t) = c_lflag t"
  "c_ispeed (flow_flags f t) = c_ispeed t" "c_ospeed (flow_flags f t) = c_ospeed t"
  by (simp_all add: flow_flags_def)

lemma polling_rest [simp]:
  "c_oflag (polling_read t) = c_oflag t" "c_lflag (polling_read t) = c_lflag t" "c_iflag (polling_read t) = c_iflag t"
  "c_cflag (polling_read t) = c_cflag t" "c_ispeed (polling_read t) = c_ispeed t" "c_ospeed (polling_read t) = c_ospeed t"
  "c_vmin (polling_read t) = 0" "c_vtime (polling_read t) = 0"
  by (simp_all add: polling_read_def)

lemma set_speed_rest [simp]:
  "c_oflag (set_speed b t) = c_oflag t" "c_lflag (set_speed b t) = c_lflag t" "c_iflag (set_speed b t) = c_iflag t"
  "c_cflag (set_speed b t) = c_cflag t"
  "c_ispeed (set_speed b t) = (case b of None \<Rightarrow> c_ispeed t | Some v \<Rightarrow> v)"
  "c_ospeed (set_speed b t) = (case b of None \<Rightarrow> c_ospeed t | Some v \<Rightarrow> v)"
  by (simp_all add: set_speed_def split: option.split)

lemma raw_mode_speed [simp]: "c_ispeed (raw_mode t) = c_ispeed t" "c_ospeed (raw_mode t) = c_ospeed t"
  by (simp_all add: raw_mode_def)

definition configured :: "nat \<Rightarrow> bytesize \<Rightarrow> stopbits \<Rightarrow> parity \<Rightarrow> bool \<times> bool \<Rightarrow> termios \<Rightarrow> termios \<Rightarrow> bool" where
  "configured baud b s p f t v \<longleftrightarrow>
     is_raw v \<and>
     line_of v = \<lparr>ln_bits = bytesize_val b, ln_two_stop = (s \<noteq> Stopbits_one),
       ln_parity = effective_parity (bit (c_cflag t) 30) p, ln_xonxoff = fst f, ln_rtscts = snd f\<rparr> \<and>
     (case standard_baud baud of
        None \<Rightarrow> c_ispeed v = c_ispeed t \<and> c_ospeed v = c_ospeed t
      | Some sp \<Rightarrow> c_ispeed v = sp \<and> c_ospeed v = sp) \<and>
     (bit (c_cflag v) 30 \<longleftrightarrow> bit (c_cflag t) 30 \<or> p = Parity_mark \<or> p = Parity_space)"

lemma line_options_configured:
  assumes "line_options baud b s p t = Inr w"
  shows "configured baud b s p f t (polling_read (flow_flags f w))"
proof -
  obtain u v where st: "char_len b (set_speed (standard_baud baud) (raw_mode t)) = Inr u" "stop_bits s u = Inr v"
    "parity_flags p v = Inr w"
    using assms by (auto simp: line_options_def throw_simps)
  note u = char_len_bits [OF st(1)] note v = stop_bits_bits [OF st(2)] note w = parity_bits [OF st(3)]
  note fl = flow_bits [of f w] note raw = raw_mode_bits [of t]
  have iw: "\<forall>n\<in>{0, 3, 4, 5, 6, 7, 8, 9}. \<not> bit (c_iflag w) n"
  proof -
    have "c_iflag v = c_iflag (raw_mode t)" using u(1) v(1) by (simp add: same_rest_def)
    then have "c_iflag w = c_iflag (raw_mode t) AND NOT (0x10 OR 0x20)" using w(1) by simp
    then show ?thesis using raw(5) unfolding flag_bits by (simp only: flag_bits) simp
  qed
  have "is_raw (polling_read (flow_flags f w))"
    using u v w fl raw iw unfolding is_raw_def same_rest_def by simp
  moreover have "parity_of (c_cflag (flow_flags f w)) = parity_of (c_cflag w)"
    using fl(1) by (simp add: parity_of_def)
  then have "line_of (polling_read (flow_flags f w)) = \<lparr>ln_bits = bytesize_val b, ln_two_stop = (s \<noteq> Stopbits_one),
       ln_parity = effective_parity (bit (c_cflag t) 30) p, ln_xonxoff = fst f, ln_rtscts = snd f\<rparr>"
    using u v w fl raw(6) unfolding line_of_def by simp
  ultimately show ?thesis
    using u v w fl raw(6) unfolding configured_def same_rest_def by (simp split: option.splits)
qed

section \<open>Properties of the configuration\<close>

definition named_settings :: "port \<Rightarrow> bool" where
  "named_settings p \<longleftrightarrow>
     pt_bytesize p \<in> {Fivebits, Sixbits, Sevenbits, Eightbits} \<and>
     pt_parity p \<in> {Parity_none, Parity_odd, Parity_even, Parity_mark, Parity_space} \<and>
     pt_stopbits p \<in> {Stopbits_one, Stopbits_two, Stopbits_one_point_five} \<and>
     pt_flowcontrol p \<in> {Flow_none, Flow_software, Flow_hardware}"

definition all_succeed :: tty_calls where
  "all_succeed = \<lparr>tc_getattr = True, tc_setattr = True, tc_getserial = True, tc_setserial = True\<rparr>"

definition flow_lines :: "port \<Rightarrow> bool \<times> bool" where
  "flow_lines p = (pt_flowcontrol p = Flow_software, pt_flowcontrol p = Flow_hardware)"

lemma flow_members_named: "named_settings p \<Longrightarrow> flow_members (pt_flowcontrol p) old = flow_lines p"
  by (auto simp: named_settings_def flow_members_def flow_lines_def)

lemma line_options_named:
  assumes "named_settings p"
  shows "\<exists>w. line_options baud (pt_bytesize p) (pt_stopbits p) (pt_parity p) t = Inr w"
proof -
  obtain u where u: "char_len (pt_bytesize p) (set_speed (standard_baud baud) (raw_mode t)) = Inr u"
    using assms by (cases "pt_bytesize p") (simp_all add: named_settings_def char_len_def Let_def)
  obtain v where v: "stop_bits (pt_stopbits p) u = Inr v"
    using assms by (cases "pt_stopbits p") (simp_all add: named_settings_def stop_bits_def)
  have "\<exists>w. parity_flags (pt_parity p) v = Inr w"
    using assms by (cases "pt_parity p") (simp_all add: named_settings_def parity_flags_def Let_def)
  then show ?thesis using u v by (simp add: line_options_def)
qed

text \<open>The half bit times of a frame: start bit, data bits, what is counted for the parity, stop bits.\<close>

definition half_bits :: "port \<Rightarrow> nat" where
  "half_bits p = 2 * (1 + bytesize_val (pt_bytesize p) + parity_val (pt_parity p)) +
     (case pt_stopbits p of Stopbits_one \<Rightarrow> 2 | Stopbits_one_point_five \<Rightarrow> 3 | _ \<Rightarrow> 4)"

lemma named_half_bits: "named_settings p \<Longrightarrow> half_bits p \<le> 30"
  by (auto simp: named_settings_def half_bits_def)

lemma uint_small: "n < 2 ^ 32 \<Longrightarrow> uint (of_nat n :: u32) = int n"
  by (simp add: unsigned_of_nat take_bit_nat_eq_self)

lemma byte_time_exact:
  assumes n: "named_settings p" and b: "4 \<le> unat baud"
  shows "\<exists>t. byte_time_ns baud (pt_bytesize p) (pt_parity p) (pt_stopbits p) = Some t \<and>
    uint t = int (half_bits p * (1000000000 div unat baud)) div 2"
proof -
  define q where "q = 1000000000 div unat baud"
  have q: "q \<le> 250000000" using div_le_mono2 [OF _ b, of 1000000000] by (simp add: q_def)
  define k where "k = 1 + bytesize_val (pt_bytesize p) + parity_val (pt_parity p) + stopbits_val (pt_stopbits p)"
  have k: "k \<le> 16" "3 \<le> k" using n by (auto simp: k_def named_settings_def)
  have bit: "uint (bit_time_ns baud) = int q" "bit_time_ns baud = of_nat q"
    using q uint_small [of q] by (simp_all add: bit_time_ns_def q_def)
  have "q * k \<le> 250000000 * 16" using q k(1) by (rule mult_le_mono)
  then have prod: "uint (bit_time_ns baud * of_nat k) = int (q * k)"
    unfolding bit(2) of_nat_mult [symmetric] by (intro uint_small) simp
  have "baud \<noteq> 0" using b by auto
  show ?thesis
  proof (cases "pt_stopbits p = Stopbits_one_point_five")
    case True
    then have h: "half_bits p + 3 = 2 * k" by (simp add: half_bits_def k_def)
    define d where "d = 2 * uint (bit_time_ns baud * of_nat k) - 3 * uint (bit_time_ns baud)"
    have "(half_bits p + 3) * q = 2 * (q * k)" by (simp only: h) simp
    then have d: "d = int (half_bits p * q)" unfolding d_def prod bit(1) by (simp add: algebra_simps flip: of_nat_mult)
    have "half_bits p * q \<le> 30 * 250000000" using named_half_bits [OF n] q by (rule mult_le_mono)
    then have "int (half_bits p * q) \<le> 7500000000" by linarith
    then have "d div 2 < 4294967296" "0 \<le> d" unfolding d by linarith+
    moreover from this have "trunc_div d 2 = d div 2" by (auto simp: trunc_div_def sgn_if)
    moreover have "byte_time_ns baud (pt_bytesize p) (pt_parity p) (pt_stopbits p) = Some (word_of_int (trunc_div d 2))"
      using True \<open>baud \<noteq> 0\<close> \<open>0 \<le> d\<close> by (simp add: byte_time_ns_def Let_def k_def d_def)
    ultimately show ?thesis
      by (simp add: d q_def uint_word_of_int_eq take_bit_int_eq_self)
  next
    case False
    then have "half_bits p = 2 * k" using n by (auto simp: half_bits_def k_def named_settings_def)
    then have "int (half_bits p * q) div 2 = int (q * k)" by simp
    then show ?thesis using False prod \<open>baud \<noteq> 0\<close> by (simp add: byte_time_ns_def Let_def k_def q_def)
  qed
qed

text \<open>A speed the code can configure: with a constant, or with a divisor the cast leaves defined.\<close>

definition settable_speed :: "u64 \<Rightarrow> bool" where
  "settable_speed baud \<longleftrightarrow> 4 \<le> unat baud \<and> (standard_baud (unat baud) = None \<longrightarrow> (ucast baud :: u32) \<noteq> 0)"

lemma reconfigure_succeeds:
  assumes n: "named_settings p" and b: "settable_speed (pt_baudrate p)" and fd: "im_fd (pt_impl p) \<noteq> None"
  shows "\<exists>q y'. reconfigure_port all_succeed (p, y) = Some (Ret () (q, y')) \<and>
    configured (unat (pt_baudrate p)) (pt_bytesize p) (pt_stopbits p) (pt_parity p) (flow_lines p) (ty_termios y) (ty_termios y') \<and>
    uint (pt_byte_time_ns q) = int (half_bits p * (1000000000 div unat (pt_baudrate p))) div 2 \<and>
    (standard_baud (unat (pt_baudrate p)) = None \<longrightarrow>
       ty_divisor y' = trunc_div (ty_baud_base y) (sint (ucast (pt_baudrate p) :: u32))) \<and>
    q = p\<lparr>pt_xonxoff := fst (flow_lines p), pt_rtscts := snd (flow_lines p), pt_byte_time_ns := pt_byte_time_ns q\<rparr>"
proof -
  obtain w where w: "line_options (unat (pt_baudrate p)) (pt_bytesize p) (pt_stopbits p) (pt_parity p) (ty_termios y) = Inr w"
    using line_options_named [OF n] by blast
  note conf = line_options_configured [OF w, of "flow_lines p"]
  obtain t where t: "byte_time_ns (pt_baudrate p) (pt_bytesize p) (pt_parity p) (pt_stopbits p) = Some t"
    "uint t = int (half_bits p * (1000000000 div unat (pt_baudrate p))) div 2"
    using byte_time_exact [OF n] b by (auto simp: settable_speed_def)
  define z where "z = y\<lparr>ty_termios := polling_read (flow_flags (flow_lines p) w)\<rparr>"
  define r where "r = p\<lparr>pt_xonxoff := fst (flow_lines p), pt_rtscts := snd (flow_lines p), pt_byte_time_ns := t\<rparr>"
  show ?thesis
  proof (cases "standard_baud (unat (pt_baudrate p)) = None")
    case False
    then obtain sp where sp: "standard_baud (unat (pt_baudrate p)) = Some sp" by blast
    then have "reconfigure_port all_succeed (p, y) = Some (Ret () (r, z))"
      using fd w t(1) flow_members_named [OF n] by (simp add: reconfigure_port_def Let_def all_succeed_def r_def z_def)
    then show ?thesis using conf t(2) sp by (intro exI [of _ r] exI [of _ z]) (simp add: r_def z_def)
  next
    case True
    define d where "d = trunc_div (ty_baud_base y) (sint (ucast (pt_baudrate p) :: u32))"
    have "(ucast (pt_baudrate p) :: u32) \<noteq> 0" using b True unfolding settable_speed_def by blast
    then have "sint (ucast (pt_baudrate p) :: u32) \<noteq> 0" by (simp only: signed_eq_0_iff not_False_eq_True)
    then have "custom_divisor (ty_baud_base y) (pt_baudrate p) = Some d"
      unfolding custom_divisor_def Let_def d_def by (rule if_not_P)
    then have "reconfigure_port all_succeed (p, y) =
        Some (Ret () (r, z\<lparr>ty_divisor := d, ty_flags := custom_flags (ty_flags z)\<rparr>))"
      using fd w t(1) flow_members_named [OF n] True
      by (simp add: reconfigure_port_def Let_def all_succeed_def r_def z_def)
    then show ?thesis
      using conf t(2) by (intro exI [of _ r] exI [of _ "z\<lparr>ty_divisor := d, ty_flags := custom_flags (ty_flags z)\<rparr>"])
        (simp add: r_def z_def d_def)
  qed
qed


text \<open>The driver opens the sensor with 25 million baud, eight bits, no parity, one stop bit.\<close>

definition driver_port :: port where
  "driver_port = (new_port ''/dev/ttyACM0'' 25000000 Eightbits Parity_none Stopbits_one Flow_none default_timeout 0 [])
     \<lparr>pt_impl := \<lparr>im_port = ''/dev/ttyACM0'', im_fd = Some 7, im_is_open = False, im_held = [7]\<rparr>\<rparr>"

definition cooked_tty :: tty where
  "cooked_tty =
     \<lparr>ty_termios = \<lparr>c_iflag = 0x500, c_oflag = 5, c_cflag = 0xCBF, c_lflag = 0x8A3B, c_vmin = 1, c_vtime = 0,
        c_ispeed = 15, c_ospeed = 15\<rparr>, ty_baud_base = 9600, ty_flags = 0, ty_divisor = 0\<rparr>"

lemma driver_port_settings:
  "named_settings driver_port" "settable_speed (pt_baudrate driver_port)" "im_fd (pt_impl driver_port) \<noteq> None"
  "standard_baud (unat (pt_baudrate driver_port)) = None" "half_bits driver_port = 20"
  by (simp_all add: driver_port_def new_port_def named_settings_def settable_speed_def standard_baud_def baud_table_def
      half_bits_def)


section \<open>Changing the parity\<close>

lemma set_parity_succeeds:
  assumes n: "named_settings p" "b \<in> {Parity_none, Parity_odd, Parity_even, Parity_mark, Parity_space}"
    and sp: "settable_speed (pt_baudrate p)" and fd: "im_is_open (pt_impl p)" "im_fd (pt_impl p) \<noteq> None"
  shows "\<exists>q y'. set_parity b all_succeed (p, y) = Some (Ret () (q, y')) \<and> pt_parity q = b \<and>
    ln_parity (line_of (ty_termios y')) = effective_parity (bit (c_cflag (ty_termios y)) 30) b \<and>
    (bit (c_cflag (ty_termios y')) 30 \<longleftrightarrow> bit (c_cflag (ty_termios y)) 30 \<or> b = Parity_mark \<or> b = Parity_space) \<and>
    named_settings q \<and> pt_baudrate q = pt_baudrate p \<and> pt_impl q = pt_impl p"
proof -
  let ?p = "p\<lparr>pt_parity := b\<rparr>"
  have "named_settings ?p" using n by (simp add: named_settings_def)
  with reconfigure_succeeds [of ?p y] sp fd(2) obtain q y' where r:
    "reconfigure_port all_succeed (?p, y) = Some (Ret () (q, y'))"
    "configured (unat (pt_baudrate p)) (pt_bytesize p) (pt_stopbits p) b (flow_lines ?p) (ty_termios y) (ty_termios y')"
    "q = ?p\<lparr>pt_xonxoff := fst (flow_lines ?p), pt_rtscts := snd (flow_lines ?p), pt_byte_time_ns := pt_byte_time_ns q\<rparr>"
    by auto
  have "set_parity b all_succeed (p, y) = Some (Ret () (q, y'))"
    using r(1) fd(1) by (simp add: set_parity_def reconfigure_if_open_def)
  moreover have "named_settings q" "pt_parity q = b" "pt_baudrate q = pt_baudrate p" "pt_impl q = pt_impl p"
    using n by (subst r(3); simp add: named_settings_def)+
  ultimately show ?thesis using r(2) by (intro exI [of _ q] exI [of _ y']) (simp add: configured_def)
qed

text \<open>C18: A port that was once configured for mark or space parity cannot be set to odd or even parity
  any more: the setter returns normally and the port reports the new parity, but the flags still
  say mark instead of odd and space instead of even, since the sticky flag is never cleared.
\<close>

theorem parity_sticks:
  assumes "named_settings p" and "settable_speed (pt_baudrate p)" and "im_is_open (pt_impl p)" and "im_fd (pt_impl p) \<noteq> None"
    and m: "m \<in> {Parity_mark, Parity_space}" and b: "b \<in> {Parity_odd, Parity_even}"
  shows "\<exists>s1 s2. set_parity m all_succeed (p, y) = Some (Ret () s1) \<and> set_parity b all_succeed s1 = Some (Ret () s2) \<and>
    pt_parity (fst s2) = b \<and>
    ln_parity (line_of (ty_termios (snd s2))) = (if b = Parity_odd then Parity_mark else Parity_space)"
proof -
  have ms: "m \<in> {Parity_none, Parity_odd, Parity_even, Parity_mark, Parity_space}"
    and bs: "b \<in> {Parity_none, Parity_odd, Parity_even, Parity_mark, Parity_space}" using m b by blast+
  obtain q y1 where q: "set_parity m all_succeed (p, y) = Some (Ret () (q, y1))" "bit (c_cflag (ty_termios y1)) 30"
    "named_settings q" "pt_baudrate q = pt_baudrate p" "pt_impl q = pt_impl p"
    using set_parity_succeeds [OF assms(1) ms assms(2-4), of y] m by blast
  obtain r y2 where "set_parity b all_succeed (q, y1) = Some (Ret () (r, y2))" "pt_parity r = b"
    "ln_parity (line_of (ty_termios y2)) = effective_parity True b"
    using set_parity_succeeds [OF q(3) bs, of y1] q assms(2-4) by auto
  then show ?thesis using q(1) b by (intro exI [of _ "(q, y1)"] exI [of _ "(r, y2)"]) (auto simp: effective_parity_def)
qed

lemma parity_sticks_witness:
  "\<exists>s1 s2. set_parity Parity_mark all_succeed (driver_port\<lparr>pt_impl := (pt_impl driver_port)\<lparr>im_is_open := True\<rparr>\<rparr>, cooked_tty)
      = Some (Ret () s1) \<and>
    set_parity Parity_odd all_succeed s1 = Some (Ret () s2) \<and> ln_parity (line_of (ty_termios (snd s2))) = Parity_mark"
proof -
  let ?p = "driver_port\<lparr>pt_impl := (pt_impl driver_port)\<lparr>im_is_open := True\<rparr>\<rparr>"
  have "named_settings ?p" "settable_speed (pt_baudrate ?p)" "im_is_open (pt_impl ?p)" "im_fd (pt_impl ?p) \<noteq> None"
    using driver_port_settings(1-3) by (simp_all add: named_settings_def)
  from parity_sticks [OF this, of Parity_mark Parity_odd cooked_tty] show ?thesis by auto
qed

section \<open>Waiting\<close>

lemma wait_product:
  assumes "unat n < 2 ^ 31"
  shows "sint (ucast (b :: u32) * n :: u64) = uint b * uint n"
proof -
  have b: "unat b < 2 ^ 32" using unsigned_less [of b] by simp
  have "unat b * unat n < 2 ^ 32 * 2 ^ 31" using b assms by (intro mult_strict_mono) simp_all
  then have p: "unat b * unat n < 2 ^ 63" by simp
  have w: "(ucast b * n :: u64) = of_nat (unat b * unat n)" by simp
  have "sint (ucast b * n :: u64) = int (unat b * unat n)"
    unfolding w using p by (simp add: signed_of_nat signed_take_bit_int_eq_self flip: of_nat_mult)
  then show ?thesis by simp
qed

text \<open>The pause before a large read is a real one exactly when it is shorter than a second: the time
  is the product of byte time and count, in nanoseconds, and a longer one is no valid time for
  pselect. At the driver's 25 million baud that allows for almost two and a half million bytes.
\<close>

theorem byte_wait_valid:
  assumes "unat n < 2 ^ 31"
  shows "(waits (wait_byte_times p n) \<longleftrightarrow> uint (pt_byte_time_ns p) * uint n < 1000000000) \<and>
    (pt_byte_time_ns p = 400 \<longrightarrow> (waits (wait_byte_times p n) \<longleftrightarrow> unat n < 2500000))"
proof -
  have w: "waits (wait_byte_times p n) \<longleftrightarrow> uint (pt_byte_time_ns p) * uint n < 1000000000"
    using wait_product [OF assms, of "pt_byte_time_ns p"] by (simp add: waits_def wait_byte_times_def)
  have "400 * uint n < 1000000000 \<longleftrightarrow> unat n < 2500000" 
    unfolding uint_nat by linarith
  then show ?thesis using w by auto
qed

lemma byte_wait_valid_witness:
  "waits (wait_byte_times (driver_port\<lparr>pt_byte_time_ns := 400\<rparr>) 8640) \<and>
   \<not> waits (wait_byte_times (driver_port\<lparr>pt_byte_time_ns := 86800\<rparr>) 11521)"
  using byte_wait_valid [of 8640 "driver_port\<lparr>pt_byte_time_ns := 400\<rparr>"]
    byte_wait_valid [of 11521 "driver_port\<lparr>pt_byte_time_ns := 86800\<rparr>"] by simp

section \<open>Opening with the configuration\<close>

definition on_impl :: "(unit, port \<times> tty) outcome \<Rightarrow> (unit, impl) outcome" where
  "on_impl m =
     (case m of Ret _ s \<Rightarrow> Ret () (pt_impl (fst s)) | Throw e s \<Rightarrow> Throw e (pt_impl (fst s)) | Block s \<Rightarrow> Block (pt_impl (fst s)))"

lemma reconfigure_impl:
  "reconfigure_port k s = Some m \<Longrightarrow>
   (\<exists>s'. m = Ret () s' \<and> pt_impl (fst s') = pt_impl (fst s)) \<or> (\<exists>e s'. m = Throw e s' \<and> pt_impl (fst s') = pt_impl (fst s))"
  by (cases s) (auto simp: reconfigure_port_def Let_def split: if_splits sum.splits option.splits)

text \<open>Opening with the configuration is opening as the descriptors see it: it takes the same descriptor
  and ends in the same way, where the exception of the configuration is the one that opening
  passes on.
\<close>

theorem port_open_refines:
  assumes "port_open rs k (p, y) = Some m"
  shows "\<exists>reconf. on_impl m = impl_open rs reconf (pt_impl p)"
  using assms
proof (induction rs arbitrary: p)
  case Nil
  then show ?case by (intro exI [of _ None]) (auto simp: on_impl_def Let_def split: if_splits)
next
  case (Cons r rs)
  let ?i = "pt_impl p"
  show ?case
  proof (cases "im_port ?i = [] \<or> im_is_open ?i")
    case True
    then show ?thesis using Cons.prems by (intro exI [of _ None]) (auto simp: on_impl_def Let_def split: if_splits)
  next
    case False
    then show ?thesis
    proof (cases r)
      case Open_eintr
      then show ?thesis using Cons.IH [of "p\<lparr>pt_impl := ?i\<lparr>im_fd := None\<rparr>\<rparr>"] Cons.prems False by (simp add: Let_def)
    next
      case Open_error
      then show ?thesis using Cons.prems False by (intro exI [of _ None]) (auto simp: on_impl_def Let_def)
    next
      case (Open_fd fd)
      let ?p = "p\<lparr>pt_impl := ?i\<lparr>im_fd := Some fd, im_held := fd # im_held ?i\<rparr>\<rparr>"
      obtain c where c: "reconfigure_port k (?p, y) = Some c"
        and m: "m = seq c (\<lambda>_ s. Ret () (apfst (\<lambda>p. p\<lparr>pt_impl := (pt_impl p)\<lparr>im_is_open := True\<rparr>\<rparr>) s))"
        using Cons.prems False Open_fd by (auto simp: Let_def)
      from reconfigure_impl [OF c] show ?thesis
      proof
        assume "\<exists>s'. c = Ret () s' \<and> pt_impl (fst s') = pt_impl (fst (?p, y))"
        then show ?thesis using m False Open_fd
          by (intro exI [of _ None]) (auto simp: on_impl_def Let_def apfst_def map_prod_def split: prod.splits)
      next
        assume "\<exists>e s'. c = Throw e s' \<and> pt_impl (fst s') = pt_impl (fst (?p, y))"
        then obtain e s' where "c = Throw e s'" "pt_impl (fst s') = pt_impl ?p" by auto
        then show ?thesis using m False Open_fd by (intro exI [of _ "Some e"]) (simp add: on_impl_def Let_def)
      qed
    qed
  qed
qed

section \<open>Lines\<close>

text \<open>
  The lines so far and the line in progress are the buffer; the buffer is not full before the
  loop ends.
\<close>

definition lines_inv :: "nat \<Rightarrow> string \<Rightarrow> nat \<Rightarrow> string list \<Rightarrow> bool" where
  "lines_inv sz buf start lines \<longleftrightarrow>
     concat lines @ drop start buf = buf \<and> start \<le> length buf \<and> [] \<notin> set lines \<and>
     (length buf < sz \<or> start = length buf \<and> length buf = sz)"

lemma lines_inv_flush:
  "lines_inv sz buf start lines \<Longrightarrow>
   concat (if start \<noteq> length buf then lines @ [drop start buf] else lines) = buf \<and>
   [] \<notin> set (if start \<noteq> length buf then lines @ [drop start buf] else lines)"
  by (auto simp: lines_inv_def)

lemma readlines_loop_splits:
  assumes "readlines_loop sz eol buf start lines r = Ret ls r'" and "lines_inv sz buf start lines" and "length eol \<le> sz"
  shows "\<exists>bs. (r = map Rx_byte bs @ r' \<or> r = map Rx_byte bs @ Rx_quiet # r') \<and> concat ls = buf @ bs \<and>
    length (buf @ bs) \<le> sz \<and> [] \<notin> set ls"
  using assms
proof (induction r arbitrary: buf start lines)
  case Nil
  then show ?case by (intro exI [of _ "[]"]) (auto simp: lines_inv_def split: if_splits)
next
  case (Cons x r)
  show ?case
  proof (cases "sz \<le> length buf")
    case True
    then show ?thesis using Cons.prems by (intro exI [of _ "[]"]) (auto simp: lines_inv_def)
  next
    case less: False
    show ?thesis
    proof (cases x)
      case (Rx_byte c)
      define b where "b = buf @ [c]"
      define found where "found \<longleftrightarrow> drop (length b - length eol) b = eol"
      define ls1 where "ls1 = (if found then lines @ [drop start b] else lines)"
      define st1 where "st1 = (if found then length b else start)"
      have inv: "concat lines @ drop start b = b" "start < length b" "length b \<le> sz"
        using Cons.prems(2) less by (auto simp: lines_inv_def b_def)
      then have inv1: "concat ls1 @ drop st1 b = b" "st1 \<le> length b" "[] \<notin> set ls1"
        using Cons.prems(2) by (auto simp: ls1_def st1_def lines_inv_def)
      have step: "\<exists>bs. (x # r = map Rx_byte bs @ r' \<or> x # r = map Rx_byte bs @ Rx_quiet # r') \<and>
          concat ls = buf @ bs \<and> length (buf @ bs) \<le> sz \<and> [] \<notin> set ls"
        if "\<exists>bs. (r = map Rx_byte bs @ r' \<or> r = map Rx_byte bs @ Rx_quiet # r') \<and> concat ls = b @ bs \<and>
          length (b @ bs) \<le> sz \<and> [] \<notin> set ls"
      proof -
        from that obtain bs where "(r = map Rx_byte bs @ r' \<or> r = map Rx_byte bs @ Rx_quiet # r') \<and> concat ls = b @ bs \<and>
          length (b @ bs) \<le> sz \<and> [] \<notin> set ls" by blast
        then show ?thesis by (intro exI [of _ "c # bs"]) (auto simp: b_def Rx_byte)
      qed
      show ?thesis
      proof (cases "length b < length eol")
        case True
        then have "lines_inv sz b start lines"
          using inv Cons.prems(2,3) by (auto simp: lines_inv_def)
        moreover have "readlines_loop sz eol b start lines r = Ret ls r'"
          using Cons.prems(1) less True by (simp add: Rx_byte b_def Let_def)
        ultimately show ?thesis using Cons.IH Cons.prems(3) step by blast
      next
        case False
        have eq: "readlines_loop sz eol buf start lines (x # r) =
            (if length b = sz then Ret (if st1 \<noteq> length b then ls1 @ [drop st1 b] else ls1) r
             else readlines_loop sz eol b st1 ls1 r)"
          using less False by (simp add: Rx_byte Let_def ls1_def st1_def found_def flip: b_def)
        show ?thesis
        proof (cases "length b = sz")
          case True
          then have "ls = (if st1 \<noteq> length b then ls1 @ [drop st1 b] else ls1)" "r' = r" using Cons.prems(1) eq by auto
          then have "concat ls = b" "[] \<notin> set ls" using inv1 by auto
          then show ?thesis using True \<open>r' = r\<close> by (intro exI [of _ "[c]"]) (simp add: b_def Rx_byte)
        next
          case False
          then have "lines_inv sz b st1 ls1" using inv1 inv(3) by (simp add: lines_inv_def)
          then show ?thesis using Cons.IH Cons.prems(1,3) eq False step by simp
        qed
      qed
    next
      case Rx_quiet
      then show ?thesis
        using Cons.prems(1) lines_inv_flush [OF Cons.prems(2)] less by (intro exI [of _ "[]"]) auto
    next
      case Rx_gone
      then show ?thesis using Cons.prems(1) less by simp
    qed
  qed
qed

text \<open>C19: Reading lines loses nothing: when it returns, the lines put together are exactly the bytes it took
  from the stream, which are at most the given number, and no line is empty, for every end of line
  that is not longer than the limit.
\<close>

theorem readlines_splits:
  assumes "stream_readlines sz eol r = Ret ls r'" and "length eol \<le> sz"
  shows "\<exists>bs. (r = map Rx_byte bs @ r' \<or> r = map Rx_byte bs @ Rx_quiet # r') \<and> concat ls = bs \<and>
    length bs \<le> sz \<and> [] \<notin> set ls"
proof -
  have "lines_inv sz [] 0 []" by (auto simp: lines_inv_def)
  then show ?thesis using readlines_loop_splits [of sz eol "[]" 0 "[]" r ls r'] assms by (simp add: stream_readlines_def)
qed

lemma readlines_splits_witness:
  "\<exists>bs. concat [''a'' @ [CHR 0x0A], ''b''] = bs \<and> length bs \<le> 9 \<and>
    map Rx_byte (''a'' @ [CHR 0x0A] @ ''b'') @ [Rx_quiet, Rx_gone] = map Rx_byte bs @ [Rx_quiet, Rx_gone]"
proof -
  let ?r = "map Rx_byte (''a'' @ [CHR 0x0A] @ ''b'') @ [Rx_quiet, Rx_gone]"
  have "stream_readlines 9 [CHR 0x0A] ?r = Ret [''a'' @ [CHR 0x0A], ''b''] [Rx_gone]"
    by (simp add: stream_readlines_def Let_def)
  from readlines_splits [OF this] show ?thesis by auto
qed

text \<open>A limit shorter than the end of line loses what was read.\<close>

lemma readlines_short_limit:
  "stream_readlines 1 ''ab'' [Rx_byte (CHR ''x''), Rx_quiet] = Ret [] [Rx_quiet]"
  by (simp add: stream_readlines_def Let_def)

lemma port_open_refines_witness:
  "\<exists>m reconf. port_open [Open_eintr, Open_fd 9] all_succeed
      (driver_port\<lparr>pt_impl := \<lparr>im_port = ''/dev/ttyACM0'', im_fd = None, im_is_open = False, im_held = []\<rparr>,
        pt_bytesize := Other_bytesize 9\<rparr>, cooked_tty) = Some m \<and>
    on_impl m = impl_open [Open_eintr, Open_fd 9] reconf
      \<lparr>im_port = ''/dev/ttyACM0'', im_fd = None, im_is_open = False, im_held = []\<rparr>"
proof -
  let ?p = "driver_port\<lparr>pt_impl := \<lparr>im_port = ''/dev/ttyACM0'', im_fd = None, im_is_open = False, im_held = []\<rparr>,
    pt_bytesize := Other_bytesize 9\<rparr>"
  obtain m where m: "port_open [Open_eintr, Open_fd 9] all_succeed (?p, cooked_tty) = Some m"
    by (simp add: Let_def reconfigure_port_def all_succeed_def line_options_def char_len_def)
  from port_open_refines [OF this] show ?thesis using m by auto
qed

end
