(* ===== verification/Serial_Calls.thy ===== *)
theory Serial_Calls
  imports Serial_Config
begin

text \<open>
  The calls of the serial library (\<open>dependencies/serial/src/serial.cc\<close>): reading into the
  containers of the caller, \<open>readline\<close> with any end of line and limit, and the two mutexes
  under which the calls of several threads run. A call is its scoped locks in their order, its body,
  and the unlocking in the reverse order.
\<close>

section \<open>Reading into a container\<close>

text \<open>
  The bytes go through a temporary array, which is freed when \<open>read\<close> throws; the container of the
  caller is extended only afterwards. The first component of the state is the container.
\<close>

definition read_vector :: "nat \<Rightarrow> u8 list \<times> rx list \<Rightarrow> (nat, u8 list \<times> rx list) outcome" where
  "read_vector sz s =
     (case stream_read sz [] (snd s) of
        Ret x r \<Rightarrow> Ret (length x) (fst s @ map byte_of x, r)
      | Throw e r \<Rightarrow> Throw e (fst s, r)
      | Block r \<Rightarrow> Block (fst s, r))"

definition read_string :: "nat \<Rightarrow> string \<times> rx list \<Rightarrow> (nat, string \<times> rx list) outcome" where
  "read_string sz s =
     (case stream_read sz [] (snd s) of
        Ret x r \<Rightarrow> Ret (length x) (fst s @ x, r)
      | Throw e r \<Rightarrow> Throw e (fst s, r)
      | Block r \<Rightarrow> Block (fst s, r))"

definition read_value :: "nat \<Rightarrow> rx list \<Rightarrow> (string, rx list) outcome" where
  "read_value sz r =
     (case read_string sz ([], r) of
        Ret n s \<Rightarrow> Ret (fst s) (snd s)
      | Throw e s \<Rightarrow> Throw e (snd s)
      | Block s \<Rightarrow> Block (snd s))"

lemma read_value_stream: "read_value sz r = stream_read sz [] r"
  by (cases "stream_read sz [] r") (simp_all add: read_value_def read_string_def)

section \<open>Writing from a container\<close>

text \<open>Of an empty vector \<open>&data[0]\<close> is undefined.\<close>

definition write_string :: "bool \<Rightarrow> string \<Rightarrow> write_turn list \<Rightarrow> (nat, write_turn list) outcome" where
  "write_string opened data ts = impl_write opened (length data) ts"

definition write_vector :: "bool \<Rightarrow> u8 list \<Rightarrow> write_turn list \<Rightarrow> (nat, write_turn list) outcome option" where
  "write_vector opened data ts = (if data = [] then None else Some (impl_write opened (length data) ts))"

section \<open>readline\<close>

text \<open>
  The loop with its array of \<open>sz\<close> bytes; \<open>buf\<close> is what has been read. \<open>None\<close>: a byte is
  written behind the array. While fewer bytes than the end of line has are read, the limit is not looked
  at.
\<close>

fun readline_loop :: "nat \<Rightarrow> string \<Rightarrow> string \<Rightarrow> rx list \<Rightarrow> (string, rx list) outcome option" where
  "readline_loop sz eol buf [] = Some (Block [])"
| "readline_loop sz eol buf (Rx_quiet # r) = Some (Ret buf r)"
| "readline_loop sz eol buf (Rx_gone # r) = Some (Throw Serial_exception (Rx_gone # r))"
| "readline_loop sz eol buf (Rx_byte c # r) =
     (if sz \<le> length buf then None
      else let buf = buf @ [c]
           in if length buf < length eol then readline_loop sz eol buf r
              else if drop (length buf - length eol) buf = eol then Some (Ret buf r)
              else if length buf = sz then Some (Ret buf r)
              else readline_loop sz eol buf r)"

definition readline_string ::
  "nat \<Rightarrow> string \<Rightarrow> string \<times> rx list \<Rightarrow> (nat, string \<times> rx list) outcome option" where
  "readline_string sz eol s =
     map_option (\<lambda>m. case m of
         Ret x r \<Rightarrow> Ret (length x) (fst s @ x, r)
       | Throw e r \<Rightarrow> Throw e (fst s, r)
       | Block r \<Rightarrow> Block (fst s, r)) (readline_loop sz eol [] (snd s))"

definition readline_value :: "nat \<Rightarrow> string \<Rightarrow> rx list \<Rightarrow> (string, rx list) outcome option" where
  "readline_value sz eol r =
     map_option (\<lambda>m. case m of
         Ret n s \<Rightarrow> Ret (fst s) (snd s)
       | Throw e s \<Rightarrow> Throw e (snd s)
       | Block s \<Rightarrow> Block (snd s)) (readline_string sz eol ([], r))"

lemma readline_value_loop: "readline_value sz eol r = readline_loop sz eol [] r"
  by (cases "readline_loop sz eol [] r")
    (auto simp: readline_value_def readline_string_def split: outcome.split)

text \<open>With a limit that the end of line fits, the loop stays in its array.\<close>

lemma readline_loop_in_array:
  "0 < sz \<Longrightarrow> length eol \<le> sz \<Longrightarrow> length buf < sz \<Longrightarrow> readline_loop sz eol buf r \<noteq> None"
proof (induction sz eol buf r rule: readline_loop.induct)
  case (4 sz eol buf c r)
  then show ?case by (auto simp: Let_def)
qed simp_all

lemma readline_loop_overrun:
  "sz < length eol \<Longrightarrow> length buf \<le> sz \<Longrightarrow> sz < length buf + length bs \<Longrightarrow>
   readline_loop sz eol buf (map Rx_byte bs) = None"
  by (induction bs arbitrary: buf) (auto simp: Let_def)

text \<open>
  What a line is: the bytes taken from the stream, at most the limit, with the end of line at
  their end only.
\<close>

definition first_end :: "string \<Rightarrow> nat \<Rightarrow> string \<Rightarrow> bool" where
  "first_end eol n x \<longleftrightarrow>
     list_all (\<lambda>k. k < length eol \<or> drop (k - length eol) (take k x) \<noteq> eol) [Suc n..<length x]"

lemma first_end_self: "first_end eol (length buf) (buf @ [c])"
  by (simp add: first_end_def)

lemma first_end_step:
  assumes "first_end eol (length (buf @ [c])) (buf @ [c] @ bs)"
    and "length eol \<le> Suc (length buf) \<Longrightarrow> drop (Suc (length buf) - length eol) (buf @ [c]) \<noteq> eol"
  shows "first_end eol (length buf) (buf @ [c] @ bs)"
  unfolding first_end_def list_all_iff
proof (intro ballI)
  fix k
  assume k: "k \<in> set [Suc (length buf)..<length (buf @ [c] @ bs)]"
  show "k < length eol \<or> drop (k - length eol) (take k (buf @ [c] @ bs)) \<noteq> eol"
  proof (cases "k = Suc (length buf)")
    case True
    then show ?thesis using assms(2) by (cases "k < length eol") simp_all
  next
    case False
    then have "k \<in> set [Suc (length (buf @ [c]))..<length (buf @ [c] @ bs)]"
      using k unfolding set_upt atLeastLessThan_iff by simp
    then show ?thesis using assms(1) unfolding first_end_def list_all_iff by blast
  qed
qed

lemma readline_loop_line:
  "readline_loop sz eol buf r = Some (Ret x r') \<Longrightarrow> length buf < sz \<Longrightarrow> length eol \<le> sz \<Longrightarrow>
   \<exists>bs. x = buf @ bs \<and> (r = map Rx_byte bs @ r' \<or> r = map Rx_byte bs @ Rx_quiet # r') \<and>
     length x \<le> sz \<and> first_end eol (length buf) x"
proof (induction sz eol buf r rule: readline_loop.induct)
  case (2 sz eol buf r)
  then show ?case by (auto simp: first_end_def)
next
  case (4 sz eol buf c r)
  define b where "b = buf @ [c]"
  have lb: "length b = Suc (length buf)" by (simp add: b_def)
  show ?case
  proof (cases "x = b \<and> r' = r")
    case True
    then show ?thesis using 4(4) first_end_self [of eol buf c]
      by (intro exI [of _ "[c]"]) (simp add: b_def)
  next
    case False
    have more: "readline_loop sz eol b r = Some (Ret x r')" "length b < sz"
      "length eol \<le> length b \<Longrightarrow> drop (length b - length eol) b \<noteq> eol"
      using 4(3,4,5) False by (auto simp: Let_def lb split: if_splits simp flip: b_def)
    then obtain bs where "x = b @ bs \<and> (r = map Rx_byte bs @ r' \<or> r = map Rx_byte bs @ Rx_quiet # r') \<and>
        length x \<le> sz \<and> first_end eol (length b) x"
      using 4(1,2,5) 4(4) by (cases "length b < length eol") (auto simp: b_def)
    then show ?thesis using first_end_step [of eol buf c bs] more(3)
      by (intro exI [of _ "c # bs"]) (auto simp: b_def)
  qed
qed simp_all

text \<open>C22: \<open>readline\<close> stays inside its array for every input exactly when the limit is positive and the
  end of line is not longer than the limit; otherwise there is input that makes it write behind the array
  on its stack.
\<close>

theorem readline_fits_array:
  "(\<forall>r. readline_value sz eol r \<noteq> None) \<longleftrightarrow> 0 < sz \<and> length eol \<le> sz"
proof
  assume all: "\<forall>r. readline_value sz eol r \<noteq> None"
  have "readline_loop 0 eol [] [Rx_byte (CHR ''a'')] = None" by simp
  then have "0 < sz" using all by (metis readline_value_loop gr0I)
  moreover have "\<not> sz < length eol"
  proof
    assume "sz < length eol"
    then have "readline_loop sz eol [] (map Rx_byte (replicate (Suc sz) (CHR ''a''))) = None"
      by (rule readline_loop_overrun) simp_all
    then show False using all by (simp only: readline_value_loop)
  qed
  ultimately show "0 < sz \<and> length eol \<le> sz" by simp
qed (simp add: readline_value_loop readline_loop_in_array)

text \<open>What a device reads is this routine with its default arguments.\<close>

lemma default_readline_loop:
  "length buf < readline_limit \<Longrightarrow> readline_loop readline_limit [CHR 0x0A] buf r = Some (stream_readline buf r)"
proof (induction r arbitrary: buf)
  case (Cons x r)
  then show ?case by (cases x) (auto simp: Let_def not_le)
qed simp

theorem default_readline_exact:
  "readline_value readline_limit [CHR 0x0A] r = Some (stream_readline [] r)"
  using default_readline_loop [of "[]" r] by (simp add: readline_value_loop readline_limit_def)

theorem readline_takes_line:
  assumes "readline_value sz eol r = Some (Ret x r')" and "0 < sz" and "length eol \<le> sz"
  shows "(r = map Rx_byte x @ r' \<or> r = map Rx_byte x @ Rx_quiet # r') \<and> length x \<le> sz \<and> first_end eol 0 x"
  using readline_loop_line [of sz eol "[]" r x r'] assms by (auto simp: readline_value_loop)

section \<open>The locks\<close>

datatype lock = Read_lock | Write_lock

text \<open>The calls that take a lock; all other ones, as \<open>open\<close>, \<open>close\<close> and \<open>available\<close>, take none.\<close>

datatype port_call =
    Call_read
  | Call_readline
  | Call_readlines
  | Call_write
  | Call_set_port
  | Call_flush
  | Call_flush_input
  | Call_flush_output
  | Call_unlocked

text \<open>The scoped locks of a call, in the order of their construction.\<close>

fun locks_of :: "port_call \<Rightarrow> lock list" where
  "locks_of Call_read = [Read_lock]"
| "locks_of Call_readline = [Read_lock]"
| "locks_of Call_readlines = [Read_lock]"
| "locks_of Call_write = [Write_lock]"
| "locks_of Call_set_port = [Read_lock, Write_lock]"
| "locks_of Call_flush = [Read_lock, Write_lock]"
| "locks_of Call_flush_input = [Read_lock]"
| "locks_of Call_flush_output = [Write_lock]"
| "locks_of Call_unlocked = []"

text \<open>
  Where a thread is: between two calls, taking the locks still to be taken (with those it has, the
  last one first), in the body, or giving the locks back, with or without an exception on its way.
\<close>

datatype phase =
    Between_calls
  | Taking port_call "lock list" "lock list"
  | Inside port_call "lock list"
  | Leaving port_call "lock list" bool

datatype move =
    Begin port_call
  | Take
  | Take_fails
  | Enter
  | Body_returns
  | Body_throws
  | Give
  | Give_fails
  | Finish

type_synonym owners = "lock \<Rightarrow> nat option"

text \<open>
  \<open>pthread_mutex_lock\<close> on a mutex with an owner waits, also when the owner is the thread itself.
\<close>

definition mutex_lock :: "nat \<Rightarrow> lock \<Rightarrow> owners \<Rightarrow> owners option" where
  "mutex_lock i l ow = (if ow l = None then Some (ow(l := Some i)) else None)"

definition mutex_unlock :: "lock \<Rightarrow> owners \<Rightarrow> owners" where
  "mutex_unlock l ow = ow(l := None)"

text \<open>
  One step of thread \<open>i\<close>: its new phase, the owners and whether the process ends. A lock that fails
  throws, and the locks taken before are given back; an unlock that fails throws out of a
  destructor, which ends the process. \<open>None\<close>: the thread cannot make this move now.
\<close>

fun phase_move :: "nat \<Rightarrow> move \<Rightarrow> phase \<Rightarrow> owners \<Rightarrow> (phase \<times> owners \<times> bool) option" where
  "phase_move i (Begin c) Between_calls ow = Some (Taking c (locks_of c) [], ow, False)"
| "phase_move i Take (Taking c (l # ls) held) ow =
     map_option (\<lambda>ow. (Taking c ls (l # held), ow, False)) (mutex_lock i l ow)"
| "phase_move i Take_fails (Taking c (l # ls) held) ow = Some (Leaving c held True, ow, False)"
| "phase_move i Enter (Taking c [] held) ow = Some (Inside c held, ow, False)"
| "phase_move i Body_returns (Inside c held) ow = Some (Leaving c held False, ow, False)"
| "phase_move i Body_throws (Inside c held) ow = Some (Leaving c held True, ow, False)"
| "phase_move i Give (Leaving c (l # held) e) ow = Some (Leaving c held e, mutex_unlock l ow, False)"
| "phase_move i Give_fails (Leaving c (l # held) e) ow = Some (Leaving c (l # held) e, ow, True)"
| "phase_move i Finish (Leaving c [] e) ow = Some (Between_calls, ow, False)"
| "phase_move i _ _ ow = None"

record port_threads =
  pt_phases :: "phase list"
  pt_owner :: owners
  pt_crashed :: bool

definition idle_threads :: "nat \<Rightarrow> port_threads" where
  "idle_threads n = \<lparr>pt_phases = replicate n Between_calls, pt_owner = \<lambda>_. None, pt_crashed = False\<rparr>"

definition thread_move :: "nat \<Rightarrow> move \<Rightarrow> port_threads \<Rightarrow> port_threads option" where
  "thread_move i m s =
     (if pt_crashed s \<or> length (pt_phases s) \<le> i then None
      else map_option (\<lambda>(p, ow, crash).
          \<lparr>pt_phases = (pt_phases s)[i := p], pt_owner = ow, pt_crashed = crash\<rparr>)
        (phase_move i m (pt_phases s ! i) (pt_owner s)))"

inductive reached :: "nat \<Rightarrow> port_threads \<Rightarrow> bool" for n where
  start: "reached n (idle_threads n)"
| move: "reached n s \<Longrightarrow> thread_move i m s = Some t \<Longrightarrow> reached n t"

fun run_moves :: "(nat \<times> move) list \<Rightarrow> port_threads \<Rightarrow> port_threads option" where
  "run_moves [] s = Some s"
| "run_moves (im # ms) s = (case thread_move (fst im) (snd im) s of None \<Rightarrow> None | Some t \<Rightarrow> run_moves ms t)"

lemma run_moves_reached: "reached n s \<Longrightarrow> run_moves ms s = Some t \<Longrightarrow> reached n t"
  by (induction ms arbitrary: s) (auto split: option.splits intro: reached.move)

section \<open>Who holds what\<close>

fun holds :: "phase \<Rightarrow> lock list" where
  "holds Between_calls = []"
| "holds (Taking c todo held) = held"
| "holds (Inside c held) = held"
| "holds (Leaving c held e) = held"

text \<open>The locks of a call split into those taken and those to be taken.\<close>

fun phase_ok :: "phase \<Rightarrow> bool" where
  "phase_ok Between_calls = True"
| "phase_ok (Taking c todo held) = (rev held @ todo = locks_of c)"
| "phase_ok (Inside c held) = (rev held = locks_of c)"
| "phase_ok (Leaving c held e) = (\<exists>ls. rev held @ ls = locks_of c)"

definition locks_inv :: "port_threads \<Rightarrow> bool" where
  "locks_inv s \<longleftrightarrow>
     (\<forall>i < length (pt_phases s). phase_ok (pt_phases s ! i)) \<and>
     (\<forall>l i. pt_owner s l = Some i \<longleftrightarrow> i < length (pt_phases s) \<and> l \<in> set (holds (pt_phases s ! i)))"

lemma distinct_locks_of: "distinct (locks_of c)"
  by (cases c) simp_all

lemma distinct_holds: "phase_ok p \<Longrightarrow> distinct (holds p)"
proof (cases p)
  case (Taking c todo held)
  assume "phase_ok p"
  then have "distinct (rev held @ todo)" using Taking distinct_locks_of [of c] by simp
  then show ?thesis using Taking by simp
next
  case (Inside c held)
  assume "phase_ok p"
  then have "distinct (rev held)" using Inside distinct_locks_of [of c] by simp
  then show ?thesis using Inside by simp
next
  case (Leaving c held e)
  assume "phase_ok p"
  then obtain ls where "rev held @ ls = locks_of c" using Leaving by auto
  then have "distinct (rev held @ ls)" using distinct_locks_of [of c] by simp
  then show ?thesis using Leaving by simp
qed simp

text \<open>What a step does to the locks its thread holds.\<close>

fun_cases phase_moveE: "phase_move i m p ow = Some r"

lemma phase_move_ok: "phase_move i m p ow = Some (q, ow', crash) \<Longrightarrow> phase_ok p \<Longrightarrow> phase_ok q"
  by (elim phase_moveE) (auto simp: mutex_lock_def split: if_splits)

lemma phase_move_mine:
  assumes "phase_move i m p ow = Some (q, ow', crash)" and "phase_ok p"
    and "\<And>l. ow l = Some i \<longleftrightarrow> l \<in> set (holds p)"
  shows "ow' l = Some i \<longleftrightarrow> l \<in> set (holds q)"
  using assms distinct_holds [OF assms(2)]
  by (elim phase_moveE) (auto simp: mutex_lock_def mutex_unlock_def split: if_splits)

lemma phase_move_others:
  assumes "phase_move i m p ow = Some (q, ow', crash)"
    and "\<And>l. ow l = Some i \<longleftrightarrow> l \<in> set (holds p)" and "j \<noteq> i"
  shows "ow' l = Some j \<longleftrightarrow> ow l = Some j"
  using assms by (elim phase_moveE) (auto simp: mutex_lock_def mutex_unlock_def split: if_splits, metis option.inject)

lemma reached_inv: "reached n s \<Longrightarrow> locks_inv s \<and> length (pt_phases s) = n"
proof (induction rule: reached.induct)
  case start
  then show ?case by (simp add: locks_inv_def idle_threads_def)
next
  case (move s i m t)
  then obtain p ow crash where p: "phase_move i m (pt_phases s ! i) (pt_owner s) = Some (p, ow, crash)"
    and i: "i < length (pt_phases s)" and t: "t = \<lparr>pt_phases = (pt_phases s)[i := p], pt_owner = ow, pt_crashed = crash\<rparr>"
    by (auto simp: thread_move_def split: if_splits)
  have inv: "locks_inv s" and n: "length (pt_phases s) = n" using move.IH by auto
  have ok: "phase_ok (pt_phases s ! i)" and own: "\<And>l. pt_owner s l = Some i \<longleftrightarrow> l \<in> set (holds (pt_phases s ! i))"
    using inv i by (simp_all add: locks_inv_def)
  note mine = phase_move_mine [OF p ok own] and others = phase_move_others [OF p own]
  have "ow l = Some j \<longleftrightarrow> j < n \<and> l \<in> set (holds ((pt_phases s)[i := p] ! j))" for l j
  proof (cases "j = i")
    case True
    then show ?thesis using mine i n by simp
  next
    case False
    then show ?thesis using others inv n by (simp add: locks_inv_def)
  qed
  moreover have "phase_ok ((pt_phases s)[i := p] ! j)" if "j < n" for j
    using inv phase_move_ok [OF p ok] that n by (cases "j = i") (simp_all add: locks_inv_def)
  ultimately show ?case by (simp add: t locks_inv_def n)
qed

section \<open>Progress\<close>

fun successful :: "move \<Rightarrow> bool" where
  "successful (Begin c) = False"
| "successful Take_fails = False"
| "successful Give_fails = False"
| "successful _ = True"

text \<open>A step of a call in progress in which no mutex fails.\<close>

definition good_step :: "port_threads \<Rightarrow> port_threads \<Rightarrow> bool" where
  "good_step s t \<longleftrightarrow> (\<exists>i m. successful m \<and> thread_move i m s = Some t)"

fun phase_work :: "phase \<Rightarrow> nat" where
  "phase_work Between_calls = 0"
| "phase_work (Taking c todo held) = 3 + 2 * length todo + length held"
| "phase_work (Inside c held) = 2 + length held"
| "phase_work (Leaving c held e) = 1 + length held"

definition work :: "port_threads \<Rightarrow> nat" where
  "work s = sum_list (map phase_work (pt_phases s))"

lemma phase_move_work:
  "phase_move i m p ow = Some (q, ow', crash) \<Longrightarrow> successful m \<Longrightarrow> phase_work q < phase_work p \<and> \<not> crash"
  by (elim phase_moveE) (auto simp: mutex_lock_def split: if_splits)

lemma good_step_work:
  assumes "good_step s t"
  shows "work t < work s \<and> \<not> pt_crashed t"
proof -
  obtain i m p ow crash where m: "successful m" "phase_move i m (pt_phases s ! i) (pt_owner s) = Some (p, ow, crash)"
    and i: "i < length (pt_phases s)" and t: "t = \<lparr>pt_phases = (pt_phases s)[i := p], pt_owner = ow, pt_crashed = crash\<rparr>"
    using assms by (auto simp: good_step_def thread_move_def split: if_splits)
  have "phase_work p < phase_work (pt_phases s ! i) \<and> \<not> crash" using phase_move_work [OF m(2,1)] .
  moreover have "phase_work (pt_phases s ! i) \<le> sum_list (map phase_work (pt_phases s))"
    using i by (metis elem_le_sum_list length_map nth_map)
  ultimately show ?thesis using i by (simp add: t work_def map_update sum_list_update) linarith
qed

text \<open>A thread that cannot go on waits for a lock.\<close>

lemma phase_stuck:
  assumes "\<And>m. successful m \<Longrightarrow> phase_move i m p ow = None" and "p \<noteq> Between_calls"
  shows "\<exists>c l ls held. p = Taking c (l # ls) held \<and> ow l \<noteq> None"
proof (cases p)
  case (Taking c todo held)
  show ?thesis
  proof (cases todo)
    case Nil
    then show ?thesis using assms(1) [of Enter] Taking by simp
  next
    case (Cons l ls)
    then show ?thesis using assms(1) [of Take] Taking by (auto simp: mutex_lock_def split: if_splits)
  qed
next
  case (Inside c held)
  then show ?thesis using assms(1) [of Body_returns] by simp
next
  case (Leaving c held e)
  then show ?thesis using assms(1) [of Give] assms(1) [of Finish] by (cases held) simp_all
qed (use assms(2) in simp)

lemma stuck_thread:
  assumes "\<nexists>t. good_step s t" "\<not> pt_crashed s" "i < length (pt_phases s)" "pt_phases s ! i \<noteq> Between_calls"
  shows "\<exists>c l ls held. pt_phases s ! i = Taking c (l # ls) held \<and> pt_owner s l \<noteq> None"
proof (rule phase_stuck [OF _ assms(4)])
  fix m
  assume "successful m"
  then have "thread_move i m s = None" using assms(1) by (cases "thread_move i m s") (auto simp: good_step_def)
  then show "phase_move i m (pt_phases s ! i) (pt_owner s) = None" using assms(2,3) by (simp add: thread_move_def)
qed

text \<open>Who has the write lock has all it needs.\<close>

lemma write_lock_last: "phase_ok (Taking c todo held) \<Longrightarrow> Write_lock \<in> set held \<Longrightarrow> todo = []"
  by (cases c) (auto simp: rev_eq_Cons_iff append_eq_Cons_conv Cons_eq_append_conv)

lemma not_stuck:
  assumes "locks_inv s" "\<not> pt_crashed s" "i < length (pt_phases s)" "pt_phases s ! i \<noteq> Between_calls"
  shows "\<exists>t. good_step s t"
proof (rule ccontr)
  assume stuck: "\<nexists>t. good_step s t"
  have ok: "phase_ok (pt_phases s ! j)" if "j < length (pt_phases s)" for j using assms(1) that by (simp add: locks_inv_def)
  have waits: "\<exists>c ls held. pt_phases s ! j = Taking c (Read_lock # ls) held \<and> pt_owner s Read_lock \<noteq> None \<or>
      pt_phases s ! j = Taking c (Write_lock # ls) held \<and> pt_owner s Write_lock \<noteq> None"
    if "j < length (pt_phases s)" "pt_phases s ! j \<noteq> Between_calls" for j
    using stuck_thread [OF stuck assms(2) that] by (metis lock.exhaust)
  have owner: "j < length (pt_phases s) \<and> l \<in> set (holds (pt_phases s ! j))" if "pt_owner s l = Some j" for l j
    using assms(1) that by (simp add: locks_inv_def)
  have no_writer: "pt_owner s Write_lock = None"
  proof (rule ccontr)
    assume "pt_owner s Write_lock \<noteq> None"
    then obtain j where j: "j < length (pt_phases s)" "Write_lock \<in> set (holds (pt_phases s ! j))" using owner by auto
    then have "pt_phases s ! j \<noteq> Between_calls" by auto
    then show False using waits [OF j(1)] j(2) write_lock_last ok [OF j(1)] by fastforce
  qed
  have no_reader: "pt_owner s Read_lock = None"
  proof (rule ccontr)
    assume "pt_owner s Read_lock \<noteq> None"
    then obtain j where j: "j < length (pt_phases s)" "Read_lock \<in> set (holds (pt_phases s ! j))" using owner by auto
    then have "pt_phases s ! j \<noteq> Between_calls" by auto
    then obtain c ls held where p: "pt_phases s ! j = Taking c (Read_lock # ls) held" using waits [OF j(1)] no_writer by auto
    then have "distinct (rev held @ Read_lock # ls)" using ok [OF j(1)] distinct_locks_of [of c] by simp
    then show False using j(2) p by simp
  qed
  show False using waits [OF assms(3,4)] no_writer no_reader by auto
qed

section \<open>Properties of the locks\<close>


text \<open>C21: The calls in progress on a port never wait for each other in a circle: as long as no mutex operation fails,
  the threads take at most as many steps as the calls have left, and when no step is left all of them
  have come to their end and the process still runs.
\<close>

theorem calls_come_to_end:
  assumes "reached n s" and "\<not> pt_crashed s" and "(good_step ^^ k) s t"
  shows "k \<le> work s \<and> ((\<nexists>u. good_step t u) \<longrightarrow> \<not> pt_crashed t \<and> pt_phases t = replicate n Between_calls)"
proof -
  have "reached n t \<and> \<not> pt_crashed t \<and> k + work t \<le> work s"
    using assms(3)
  proof (induction k arbitrary: t)
    case (Suc k)
    then obtain u where "(good_step ^^ k) s u" "good_step u t" by auto
    then show ?case using Suc.IH [of u] good_step_work [of u t] reached.move by (fastforce simp: good_step_def)
  qed (use assms(1,2) in simp)
  moreover have "pt_phases t = replicate n Between_calls" if "\<nexists>u. good_step t u"
    using not_stuck [of t] reached_inv [of n t] calculation that by (intro nth_equalityI) auto
  ultimately show ?thesis by simp
qed

text \<open>
  Thread 0 reads while thread 1 writes; thread 2, which wants to flush, waits for both of them.
\<close>

definition example_moves :: "(nat \<times> move) list" where
  "example_moves =
     [(0, Begin Call_read), (1, Begin Call_write), (2, Begin Call_flush), (0, Take), (1, Take), (0, Enter), (1, Enter)]"

definition example_ends :: "(nat \<times> move) list" where
  "example_ends =
     [(0, Body_returns), (0, Give), (0, Finish), (2, Take), (1, Body_throws), (1, Give), (1, Finish), (2, Take),
      (2, Enter), (2, Body_returns), (2, Give), (2, Give), (2, Finish)]"

lemma run_moves_good:
  "run_moves ms s = Some t \<Longrightarrow> list_all (\<lambda>im. successful (snd im)) ms \<Longrightarrow> (good_step ^^ length ms) s t"
proof (induction ms arbitrary: s)
  case (Cons im ms)
  then obtain u where u: "thread_move (fst im) (snd im) s = Some u" "run_moves ms u = Some t" by (auto split: option.splits)
  then have "good_step s u" using Cons.prems(2) unfolding good_step_def by auto
  then show ?case using Cons.IH [OF u(2)] Cons.prems(2) relpowp_Suc_I2 [of good_step s u "length ms" t] by simp
qed simp

lemma example_run:
  obtains s t where "reached 3 s" "\<not> pt_crashed s" "pt_owner s Read_lock = Some 0"
    "pt_phases s = [Inside Call_read [Read_lock], Inside Call_write [Write_lock], Taking Call_flush [Read_lock, Write_lock] []]"
    "(good_step ^^ 13) s t" "work t = 0"
proof -
  obtain s where s: "run_moves example_moves (idle_threads 3) = Some s" "\<not> pt_crashed s" "pt_owner s Read_lock = Some 0"
    "pt_phases s = [Inside Call_read [Read_lock], Inside Call_write [Write_lock], Taking Call_flush [Read_lock, Write_lock] []]"
    and t: "\<exists>t. run_moves example_ends s = Some t \<and> work t = 0"
    by (simp add: example_moves_def example_ends_def idle_threads_def thread_move_def mutex_lock_def mutex_unlock_def
        work_def numeral_3_eq_3)
  have "length example_ends = 13" "list_all (\<lambda>im. successful (snd im)) example_ends" by (simp_all add: example_ends_def)
  then obtain t where "(good_step ^^ 13) s t" "work t = 0" using t run_moves_good by metis
  then show thesis using that run_moves_reached [OF reached.start s(1)] s(2-4) by blast
qed


lemma calls_come_to_end_witness:
  "\<exists>s t. reached 3 s \<and> (good_step ^^ 13) s t \<and> 13 \<le> work s \<and> pt_phases t = replicate 3 Between_calls"
proof -
  obtain s t where r: "reached 3 s" "\<not> pt_crashed s" "(good_step ^^ 13) s t" "work t = 0" by (rule example_run)
  have "\<nexists>u. good_step t u" using r(4) good_step_work [of t] by fastforce
  then show ?thesis using calls_come_to_end [OF r(1-3)] r(1,3) by blast
qed

end
