(* ===== verification/Serial_Windows.thy ===== *)
theory Serial_Windows
  imports Serial_Config
begin

text \<open>
  The serial port on Windows (\<open>dependencies/serial/src/impl/win.cc\<close>): opening and closing, the
  configuration with its setters, reading, writing and the modem lines. The system is the
  environment: which calls succeed and what they answer. A call on a handle that is not open
  fails.
\<close>

section \<open>The device control block\<close>

record dcb =
  d_baud_rate :: u32
  d_byte_size :: u8
  d_parity :: u8
  d_stop_bits :: u8
  d_outx_cts_flow :: bool
  d_rts_control :: nat
  d_out_x :: bool
  d_in_x :: bool

definition rts_control_disable :: nat where "rts_control_disable = 0"
definition rts_control_handshake :: nat where "rts_control_handshake = 2"

record win_port =
  w_port :: string
  w_handle :: "nat option"
  w_is_open :: bool
  w_timeout :: timeout
  w_baudrate :: u32
  w_parity :: parity
  w_bytesize :: bytesize
  w_stopbits :: stopbits
  w_flowcontrol :: flowcontrol
  w_held :: "nat list"
  w_dcb :: dcb
  w_comm_timeouts :: timeout

record win_calls =
  wc_get_state :: bool
  wc_set_state :: bool
  wc_set_timeouts :: bool

section \<open>reconfigurePort\<close>

text \<open>The constants \<open>CBR_n\<close> have the value n, so every branch of the switch assigns the speed.\<close>

definition win_byte_size :: "bytesize \<Rightarrow> exn + u8" where
  "win_byte_size b =
     (case b of Eightbits \<Rightarrow> Inr 8 | Sevenbits \<Rightarrow> Inr 7 | Sixbits \<Rightarrow> Inr 6 | Fivebits \<Rightarrow> Inr 5
      | Other_bytesize n \<Rightarrow> Inl Invalid_argument)"

definition win_stop_bits :: "stopbits \<Rightarrow> exn + u8" where
  "win_stop_bits s =
     (case s of Stopbits_one \<Rightarrow> Inr 0 | Stopbits_one_point_five \<Rightarrow> Inr 1 | Stopbits_two \<Rightarrow> Inr 2
      | Other_stopbits n \<Rightarrow> Inl Invalid_argument)"

definition win_parity :: "parity \<Rightarrow> exn + u8" where
  "win_parity p =
     (case p of Parity_none \<Rightarrow> Inr 0 | Parity_even \<Rightarrow> Inr 2 | Parity_odd \<Rightarrow> Inr 1 | Parity_mark \<Rightarrow> Inr 3
      | Parity_space \<Rightarrow> Inr 4 | Other_parity n \<Rightarrow> Inl Invalid_argument)"

definition win_flow :: "flowcontrol \<Rightarrow> dcb \<Rightarrow> dcb" where
  "win_flow f d =
     (case f of
        Flow_none \<Rightarrow> d\<lparr>d_outx_cts_flow := False, d_rts_control := rts_control_disable, d_out_x := False, d_in_x := False\<rparr>
      | Flow_software \<Rightarrow> d\<lparr>d_outx_cts_flow := False, d_rts_control := rts_control_disable, d_out_x := True, d_in_x := True\<rparr>
      | Flow_hardware \<Rightarrow> d\<lparr>d_outx_cts_flow := True, d_rts_control := rts_control_handshake, d_out_x := False, d_in_x := False\<rparr>
      | Other_flow n \<Rightarrow> d)"

definition win_params :: "win_port \<Rightarrow> exn + dcb" where
  "win_params p =
     try_then (win_byte_size (w_bytesize p)) (\<lambda>b.
     try_then (win_stop_bits (w_stopbits p)) (\<lambda>s.
     try_then (win_parity (w_parity p)) (\<lambda>q.
       Inr (win_flow (w_flowcontrol p)
         ((w_dcb p)\<lparr>d_baud_rate := w_baudrate p, d_byte_size := b, d_stop_bits := s, d_parity := q\<rparr>)))))"

text \<open>When the settings are refused the code closes the handle, and keeps it in \<open>fd_\<close>.\<close>

definition win_reconfigure :: "win_calls \<Rightarrow> win_port \<Rightarrow> (unit, win_port) outcome" where
  "win_reconfigure k p =
     (case w_handle p of
        None \<Rightarrow> Throw IO_exception p
      | Some h \<Rightarrow>
          if \<not> (wc_get_state k \<and> h \<in> set (w_held p)) then Throw IO_exception p
          else case win_params p of
            Inl e \<Rightarrow> Throw e p
          | Inr d \<Rightarrow>
              if \<not> wc_set_state k then Throw IO_exception (p\<lparr>w_held := remove1 h (w_held p)\<rparr>)
              else let p = p\<lparr>w_dcb := d\<rparr>
                   in if \<not> wc_set_timeouts k then Throw IO_exception p
                      else Ret () (p\<lparr>w_comm_timeouts := w_timeout p\<rparr>))"

section \<open>Opening and closing\<close>

definition com_port_prefix :: string where
  "com_port_prefix = [CHR 0x5C, CHR 0x5C, CHR ''.'', CHR 0x5C]"

definition prefix_port_if_needed :: "string \<Rightarrow> string" where
  "prefix_port_if_needed input =
     (if take (length com_port_prefix) input \<noteq> com_port_prefix then com_port_prefix @ input else input)"

text \<open>\<open>create\<close> is \<open>CreateFileW\<close>: the handle for a path, \<open>None\<close> for an invalid one.\<close>

definition win_open :: "(string \<Rightarrow> nat option) \<Rightarrow> win_calls \<Rightarrow> win_port \<Rightarrow> (unit, win_port) outcome" where
  "win_open create k p =
     (if w_port p = [] then Throw Invalid_argument p
      else if w_is_open p then Throw Serial_exception p
      else case create (prefix_port_if_needed (w_port p)) of
        None \<Rightarrow> Throw IO_exception (p\<lparr>w_handle := None\<rparr>)
      | Some h \<Rightarrow>
          seq (win_reconfigure k (p\<lparr>w_handle := Some h, w_held := h # w_held p\<rparr>)) (\<lambda>_ p.
            Ret () (p\<lparr>w_is_open := True\<rparr>)))"

definition win_close :: "win_port \<Rightarrow> (unit, win_port) outcome" where
  "win_close p =
     (if w_is_open p then
        (case w_handle p of
           None \<Rightarrow> Ret () (p\<lparr>w_is_open := False\<rparr>)
         | Some h \<Rightarrow>
             if h \<notin> set (w_held p) then Throw IO_exception p
             else Ret () (p\<lparr>w_held := remove1 h (w_held p), w_handle := None, w_is_open := False\<rparr>))
      else Ret () p)"

definition new_win_port ::
  "string \<Rightarrow> u32 \<Rightarrow> bytesize \<Rightarrow> parity \<Rightarrow> stopbits \<Rightarrow> flowcontrol \<Rightarrow> nat list \<Rightarrow> dcb \<Rightarrow> win_port" where
  "new_win_port name baud b p s f held d =
     \<lparr>w_port = name, w_handle = None, w_is_open = False, w_timeout = default_timeout, w_baudrate = baud,
      w_parity = p, w_bytesize = b, w_stopbits = s, w_flowcontrol = f, w_held = held, w_dcb = d,
      w_comm_timeouts = default_timeout\<rparr>"

section \<open>Setters\<close>

definition win_reconfigure_if_open :: "win_calls \<Rightarrow> win_port \<Rightarrow> (unit, win_port) outcome" where
  "win_reconfigure_if_open k p = (if w_is_open p then win_reconfigure k p else Ret () p)"

definition win_set_timeout :: "timeout \<Rightarrow> win_calls \<Rightarrow> win_port \<Rightarrow> (unit, win_port) outcome" where
  "win_set_timeout t k p = win_reconfigure_if_open k (p\<lparr>w_timeout := t\<rparr>)"

definition win_set_baudrate :: "u32 \<Rightarrow> win_calls \<Rightarrow> win_port \<Rightarrow> (unit, win_port) outcome" where
  "win_set_baudrate b k p = win_reconfigure_if_open k (p\<lparr>w_baudrate := b\<rparr>)"

definition win_set_bytesize :: "bytesize \<Rightarrow> win_calls \<Rightarrow> win_port \<Rightarrow> (unit, win_port) outcome" where
  "win_set_bytesize b k p = win_reconfigure_if_open k (p\<lparr>w_bytesize := b\<rparr>)"

definition win_set_parity :: "parity \<Rightarrow> win_calls \<Rightarrow> win_port \<Rightarrow> (unit, win_port) outcome" where
  "win_set_parity q k p = win_reconfigure_if_open k (p\<lparr>w_parity := q\<rparr>)"

definition win_set_stopbits :: "stopbits \<Rightarrow> win_calls \<Rightarrow> win_port \<Rightarrow> (unit, win_port) outcome" where
  "win_set_stopbits s k p = win_reconfigure_if_open k (p\<lparr>w_stopbits := s\<rparr>)"

definition win_set_flowcontrol :: "flowcontrol \<Rightarrow> win_calls \<Rightarrow> win_port \<Rightarrow> (unit, win_port) outcome" where
  "win_set_flowcontrol f k p = win_reconfigure_if_open k (p\<lparr>w_flowcontrol := f\<rparr>)"

section \<open>Reading, writing, waiting\<close>

text \<open>
  \<open>ReadFile\<close> and \<open>WriteFile\<close> get the size cast to 32 bits and answer with what they read or
  how much they wrote, \<open>None\<close> for a failure.
\<close>

definition win_read :: "bool \<Rightarrow> (u32 \<Rightarrow> string option) \<Rightarrow> u64 \<Rightarrow> exn + string" where
  "win_read opened read_file sz =
     (if \<not> opened then Inl Port_not_opened
      else case read_file (ucast sz) of None \<Rightarrow> Inl IO_exception | Some d \<Rightarrow> Inr d)"

definition win_write :: "bool \<Rightarrow> (u32 \<Rightarrow> u32 option) \<Rightarrow> u64 \<Rightarrow> exn + u64" where
  "win_write opened write_file len =
     (if \<not> opened then Inl Port_not_opened
      else case write_file (ucast len) of None \<Rightarrow> Inl IO_exception | Some n \<Rightarrow> Inr (ucast n))"

definition win_available :: "bool \<Rightarrow> u32 option \<Rightarrow> exn + u64" where
  "win_available opened in_queue =
     (if \<not> opened then Inr 0 else case in_queue of None \<Rightarrow> Inl IO_exception | Some n \<Rightarrow> Inr (ucast n))"

definition win_wait_readable :: "u32 \<Rightarrow> exn + bool" where
  "win_wait_readable t = Inl IO_exception"

definition win_wait_byte_times :: "u64 \<Rightarrow> exn + unit" where
  "win_wait_byte_times n = Inl IO_exception"

text \<open>The results of \<open>FlushFileBuffers\<close> and \<open>PurgeComm\<close> are not looked at.\<close>

definition win_flush :: "bool \<Rightarrow> bool \<Rightarrow> u8 list \<Rightarrow> (unit, u8 list) outcome" where
  "win_flush opened ok pending =
     (if \<not> opened then Throw Port_not_opened pending else Ret () (if ok then [] else pending))"

definition win_flush_input :: "bool \<Rightarrow> bool \<Rightarrow> u8 list \<Rightarrow> (unit, u8 list) outcome" where
  "win_flush_input opened ok received =
     (if \<not> opened then Throw Port_not_opened received else Ret () (if ok then [] else received))"

definition win_flush_output :: "bool \<Rightarrow> bool \<Rightarrow> u8 list \<Rightarrow> (unit, u8 list) outcome" where
  "win_flush_output opened ok pending =
     (if \<not> opened then Throw Port_not_opened pending else Ret () (if ok then [] else pending))"

section \<open>Modem lines\<close>

text \<open>The result of \<open>EscapeCommFunction\<close> is not looked at.\<close>

definition win_set_break :: "bool \<Rightarrow> bool \<Rightarrow> bool \<Rightarrow> modem \<Rightarrow> (unit, modem) outcome" where
  "win_set_break opened ok level m =
     (if \<not> opened then Throw Port_not_opened m else Ret () (if ok then m\<lparr>md_break := level\<rparr> else m))"

definition win_set_rts :: "bool \<Rightarrow> bool \<Rightarrow> bool \<Rightarrow> modem \<Rightarrow> (unit, modem) outcome" where
  "win_set_rts opened ok level m =
     (if \<not> opened then Throw Port_not_opened m else Ret () (if ok then change_line modem_RTS level m else m))"

definition win_set_dtr :: "bool \<Rightarrow> bool \<Rightarrow> bool \<Rightarrow> modem \<Rightarrow> (unit, modem) outcome" where
  "win_set_dtr opened ok level m =
     (if \<not> opened then Throw Port_not_opened m else Ret () (if ok then change_line modem_DTR level m else m))"

definition win_send_break :: "int \<Rightarrow> exn + unit" where
  "win_send_break duration = Inl IO_exception"

text \<open>\<open>status\<close> is the modem status, \<open>None\<close> when the call fails.\<close>

definition win_get_line :: "u32 \<Rightarrow> bool \<Rightarrow> u32 option \<Rightarrow> exn + bool" where
  "win_get_line line opened status =
     (if \<not> opened then Inl Port_not_opened
      else case status of None \<Rightarrow> Inl IO_exception | Some w \<Rightarrow> Inr ((line AND w) \<noteq> 0))"

definition win_get_cts :: "bool \<Rightarrow> u32 option \<Rightarrow> exn + bool" where "win_get_cts = win_get_line 0x10"
definition win_get_dsr :: "bool \<Rightarrow> u32 option \<Rightarrow> exn + bool" where "win_get_dsr = win_get_line 0x20"
definition win_get_ri :: "bool \<Rightarrow> u32 option \<Rightarrow> exn + bool" where "win_get_ri = win_get_line 0x40"
definition win_get_cd :: "bool \<Rightarrow> u32 option \<Rightarrow> exn + bool" where "win_get_cd = win_get_line 0x80"

text \<open>Here the port is looked at; a failing call is the answer false. \<open>event\<close> is \<open>None\<close> while nothing happens.\<close>

definition win_wait_for_change :: "bool \<Rightarrow> bool \<Rightarrow> bool option \<Rightarrow> modem \<Rightarrow> (bool, modem) outcome" where
  "win_wait_for_change opened mask_ok event m =
     (if \<not> opened then Throw Port_not_opened m
      else if \<not> mask_ok then Ret False m
      else case event of None \<Rightarrow> Block m | Some ok \<Rightarrow> Ret ok m)"

section \<open>The configured line\<close>

definition win_line_of :: "dcb \<Rightarrow> line" where
  "win_line_of d =
     \<lparr>ln_bits = unat (d_byte_size d), ln_two_stop = (d_stop_bits d \<noteq> 0),
      ln_parity = (if d_parity d = 0 then Parity_none else if d_parity d = 1 then Parity_odd
        else if d_parity d = 2 then Parity_even else if d_parity d = 3 then Parity_mark else Parity_space),
      ln_xonxoff = (d_out_x d \<and> d_in_x d),
      ln_rtscts = (d_outx_cts_flow d \<and> d_rts_control d = rts_control_handshake)\<rparr>"

definition win_all_succeed :: win_calls where
  "win_all_succeed = \<lparr>wc_get_state = True, wc_set_state = True, wc_set_timeouts = True\<rparr>"

text \<open>The two port objects have the same settings.\<close>

definition same_settings :: "port \<Rightarrow> win_port \<Rightarrow> bool" where
  "same_settings p w \<longleftrightarrow>
     pt_bytesize p = w_bytesize w \<and> pt_parity p = w_parity w \<and> pt_stopbits p = w_stopbits w \<and>
     pt_flowcontrol p = w_flowcontrol w \<and> pt_baudrate p = ucast (w_baudrate w)"

lemma win_params_line:
  assumes n: "named_settings p" and s: "same_settings p w"
  shows "\<exists>d. win_params w = Inr d \<and> d_baud_rate d = w_baudrate w \<and>
    win_line_of d = \<lparr>ln_bits = bytesize_val (w_bytesize w), ln_two_stop = (w_stopbits w \<noteq> Stopbits_one),
      ln_parity = w_parity w, ln_xonxoff = (w_flowcontrol w = Flow_software), ln_rtscts = (w_flowcontrol w = Flow_hardware)\<rparr>"
proof -
  obtain b where b: "win_byte_size (w_bytesize w) = Inr b" "unat b = bytesize_val (w_bytesize w)"
    using n s by (cases "w_bytesize w") (auto simp: named_settings_def same_settings_def win_byte_size_def)
  obtain t where t: "win_stop_bits (w_stopbits w) = Inr t" "t \<noteq> 0 \<longleftrightarrow> w_stopbits w \<noteq> Stopbits_one"
    using n s by (cases "w_stopbits w") (auto simp: named_settings_def same_settings_def win_stop_bits_def)
  obtain q where q: "win_parity (w_parity w) = Inr q"
    "w_parity w = (if q = 0 then Parity_none else if q = 1 then Parity_odd else if q = 2 then Parity_even
      else if q = 3 then Parity_mark else Parity_space)"
    using n s by (cases "w_parity w") (auto simp: named_settings_def same_settings_def win_parity_def)
  have f: "w_flowcontrol w \<in> {Flow_none, Flow_software, Flow_hardware}"
    using n s by (simp add: named_settings_def same_settings_def)
  define d where "d = win_flow (w_flowcontrol w)
    ((w_dcb w)\<lparr>d_baud_rate := w_baudrate w, d_byte_size := b, d_stop_bits := t, d_parity := q\<rparr>)"
  have "win_params w = Inr d" by (simp add: win_params_def b(1) t(1) q(1) d_def)
  moreover have "d_baud_rate d = w_baudrate w" "d_byte_size d = b" "d_stop_bits d = t" "d_parity d = q"
    "(d_out_x d \<and> d_in_x d) = (w_flowcontrol w = Flow_software)"
    "(d_outx_cts_flow d \<and> d_rts_control d = rts_control_handshake) = (w_flowcontrol w = Flow_hardware)"
    using f by (auto simp: d_def win_flow_def rts_control_disable_def rts_control_handshake_def)
  ultimately show ?thesis using b(2) t(2) q(2) by (intro exI [of _ d]) (simp add: win_line_of_def)
qed


section \<open>A handle that is gone\<close>

text \<open>C24: When Windows refuses new settings of an open port, the port is lost but stays open for the object:
  the handle is closed and kept, so that closing the port fails, as does every setter, whatever the
  new value is, and opening it again is refused because it counts as open.
\<close>

theorem refused_settings_wedge_port:
  assumes "w_is_open p" and "w_handle p = Some h" "h \<in> set (w_held p)" "distinct (w_held p)"
    and "win_params p = Inr d" and "wc_get_state k" "\<not> wc_set_state k"
  shows "\<exists>p1. win_reconfigure_if_open k p = Throw IO_exception p1 \<and> w_is_open p1 \<and>
    win_close p1 = Throw IO_exception p1 \<and>
    (\<forall>k' q. w_is_open q \<and> w_handle q = w_handle p1 \<and> w_held q = w_held p1 \<longrightarrow>
       win_reconfigure_if_open k' q = Throw IO_exception q) \<and>
    (w_port p \<noteq> [] \<longrightarrow> (\<forall>create k'. win_open create k' p1 = Throw Serial_exception p1))"
proof -
  let ?p1 = "p\<lparr>w_held := remove1 h (w_held p)\<rparr>"
  have gone: "h \<notin> set (remove1 h (w_held p))" using assms(4) by simp
  have "win_reconfigure_if_open k p = Throw IO_exception ?p1"
    using assms by (simp add: win_reconfigure_if_open_def win_reconfigure_def)
  moreover have "win_close ?p1 = Throw IO_exception ?p1" using assms(1,2) gone by (simp add: win_close_def)
  moreover have "win_reconfigure_if_open k' q = Throw IO_exception q"
    if "w_is_open q \<and> w_handle q = w_handle ?p1 \<and> w_held q = w_held ?p1" for k' q
    using assms(2) gone that by (simp add: win_reconfigure_if_open_def win_reconfigure_def)
  moreover have "w_port p \<noteq> [] \<longrightarrow> (\<forall>create k'. win_open create k' ?p1 = Throw Serial_exception ?p1)"
    using assms(1) by (simp add: win_open_def)
  ultimately show ?thesis using assms(1) by (intro exI [of _ ?p1]) simp
qed

definition com_port :: win_port where
  "com_port = (new_win_port ''COM3'' 25000000 Eightbits Parity_none Stopbits_one Flow_none [7]
     \<lparr>d_baud_rate = 1200, d_byte_size = 7, d_parity = 2, d_stop_bits = 2, d_outx_cts_flow = True,
      d_rts_control = rts_control_handshake, d_out_x = True, d_in_x = True\<rparr>)\<lparr>w_handle := Some 7, w_is_open := True\<rparr>"


lemma refused_settings_wedge_port_witness:
  "\<exists>p1. win_reconfigure_if_open (win_all_succeed\<lparr>wc_set_state := False\<rparr>) com_port = Throw IO_exception p1 \<and>
    w_is_open p1 \<and> win_close p1 = Throw IO_exception p1"
proof -
  obtain d where d: "win_params com_port = Inr d"
    by (simp add: win_params_def com_port_def new_win_port_def win_byte_size_def win_stop_bits_def win_parity_def)
  have p: "w_is_open com_port" "w_handle com_port = Some 7" "7 \<in> set (w_held com_port)" "distinct (w_held com_port)"
    by (simp_all add: com_port_def new_win_port_def)
  have k: "wc_get_state (win_all_succeed\<lparr>wc_set_state := False\<rparr>)" "\<not> wc_set_state (win_all_succeed\<lparr>wc_set_state := False\<rparr>)"
    by (simp_all add: win_all_succeed_def)
  from refused_settings_wedge_port [OF p d k] show ?thesis by blast
qed

text \<open>The prefix is put once.\<close>

lemma prefix_port_idem: "prefix_port_if_needed (prefix_port_if_needed p) = prefix_port_if_needed p"
  by (simp add: prefix_port_if_needed_def com_port_prefix_def)

end
