(* ===== verification/Port_Lists.thy ===== *)
theory Port_Lists
  imports List_Ports
begin

text \<open>
  Port enumeration of the vendored serial library on macOS and Windows
  (\<open>list_ports_osx.cc\<close>, \<open>list_ports_win.cc\<close>). The registries of the systems are the environment.
\<close>

section \<open>macOS: properties\<close>

text \<open>
  A property is a string, a number or something else. \<open>CFStringGetCString\<close> copies an ASCII
  string that fits the buffer of \<open>MAXPATHLEN\<close> bytes; \<open>CFNumberGetValue\<close> answers false for a
  number that has no 16-bit value.
\<close>

datatype cf_value = Cf_string string | Cf_number int | Cf_other

definition maxpathlen :: nat where "maxpathlen = 1024"

definition cfstring_to_string :: "string \<Rightarrow> string" where
  "cfstring_to_string s =
     (if list_all (\<lambda>c. (of_char c :: nat) < 128) s \<and> length s < maxpathlen then c_str s else [])"

text \<open>An entry of the registry: its class, its properties and the path of its callout device.\<close>

record io_entry =
  io_class :: "string option"
  io_property :: "string \<Rightarrow> cf_value option"

definition get_class_name :: "io_entry \<Rightarrow> string" where
  "get_class_name e = (case io_class e of None \<Rightarrow> [] | Some n \<Rightarrow> n)"

definition callout_key :: string where "callout_key = ''IOCalloutDevice''"

definition get_device_path :: "io_entry \<Rightarrow> string" where
  "get_device_path e =
     (case io_property e callout_key of Some (Cf_string s) \<Rightarrow> cfstring_to_string s | _ \<Rightarrow> [])"

definition get_string_property :: "io_entry option \<Rightarrow> string \<Rightarrow> string" where
  "get_string_property dev property =
     (case dev of None \<Rightarrow> []
      | Some e \<Rightarrow> (case io_property e property of Some (Cf_string s) \<Rightarrow> cfstring_to_string s | _ \<Rightarrow> []))"

definition get_int_property :: "io_entry option \<Rightarrow> string \<Rightarrow> u16" where
  "get_int_property dev property =
     (case dev of None \<Rightarrow> 0
      | Some e \<Rightarrow>
          (case io_property e property of
             Some (Cf_number n) \<Rightarrow> if - 32768 \<le> n \<and> n < 32768 then word_of_int n else 0
           | _ \<Rightarrow> 0))"

section \<open>macOS: the USB device above a port\<close>

text \<open>
  The loop that climbs to the parents, of which the entry has a finite list. A port that is itself
  of the class ends the loop before the first call, whose result then still says failure.
\<close>

definition iousb_device :: string where "iousb_device = ''IOUSBDevice''"

fun climb :: "io_entry list \<Rightarrow> io_entry option" where
  "climb [] = None"
| "climb (p # ps) = (if get_class_name p = iousb_device then Some p else climb ps)"

definition get_parent_iousb_device :: "io_entry \<Rightarrow> io_entry list \<Rightarrow> io_entry option" where
  "get_parent_iousb_device service parents =
     (if get_class_name service = iousb_device then None else climb parents)"

section \<open>macOS: the list\<close>

definition is_blank :: "char \<Rightarrow> bool" where
  "is_blank c \<longleftrightarrow> c \<in> set [CHR '' '', CHR 0x09, CHR 0x0C, CHR 0x0B, CHR 0x0A, CHR 0x0D]"

text \<open>\<open>find_last_not_of\<close>, then \<open>erase\<close> or \<open>clear\<close>.\<close>

fun find_last_not :: "(char \<Rightarrow> bool) \<Rightarrow> string \<Rightarrow> nat option" where
  "find_last_not b [] = None"
| "find_last_not b (c # cs) =
     (case find_last_not b cs of Some i \<Rightarrow> Some (Suc i) | None \<Rightarrow> if b c then None else Some 0)"

definition rtrim :: "string \<Rightarrow> string" where
  "rtrim str = (case find_last_not is_blank str of Some found \<Rightarrow> take (found + 1) str | None \<Rightarrow> [])"

definition hex_digit :: "int \<Rightarrow> char" where
  "hex_digit n = ''0123456789abcdef'' ! nat n"

text \<open>\<open>%04x\<close> of a 16-bit number.\<close>

definition hex4 :: "u16 \<Rightarrow> string" where
  "hex4 w = map hex_digit [uint w div 4096, uint w div 256 mod 16, uint w div 16 mod 16, uint w mod 16]"

definition hardware_id_string_length :: nat where "hardware_id_string_length = 128"

definition osx_hardware_id :: "u16 \<Rightarrow> u16 \<Rightarrow> string \<Rightarrow> string" where
  "osx_hardware_id vendor product serial =
     (if vendor \<noteq> 0 \<and> product \<noteq> 0 then
        let serial = (if serial = [] then ''None'' else serial);
            out = ''USB VID:PID='' @ hex4 vendor @ '':'' @ hex4 product @ '' SNR='' @ c_str serial
        in if length out < hardware_id_string_length then out else ''n/a''
      else ''n/a'')"

definition osx_port_info :: "string \<Rightarrow> io_entry option \<Rightarrow> port_info" where
  "osx_port_info device_path parent =
     (let device_name = rtrim (get_string_property parent ''USB Product Name'');
          vendor_name = rtrim (get_string_property parent ''USB Vendor Name'');
          descr = rtrim (vendor_name @ '' '' @ device_name)
      in \<lparr>port = device_path, description = (if descr \<noteq> [] then descr else ''n/a''),
          hardware_id = osx_hardware_id (get_int_property parent ''idVendor'') (get_int_property parent ''idProduct'')
            (rtrim (get_string_property parent ''USB Serial Number''))\<rparr>)"

text \<open>The services, each with its parents; \<open>None\<close> when one of the calls before the loop fails.\<close>

fun osx_ports :: "(io_entry \<times> io_entry list) list \<Rightarrow> port_info list" where
  "osx_ports [] = []"
| "osx_ports ((e, parents) # es) =
     (let device_path = get_device_path e; parent = get_parent_iousb_device e parents
      in if device_path = [] then osx_ports es else osx_port_info device_path parent # osx_ports es)"

definition list_ports_osx :: "(io_entry \<times> io_entry list) list option \<Rightarrow> port_info list" where
  "list_ports_osx services = (case services of None \<Rightarrow> [] | Some es \<Rightarrow> osx_ports es)"

section \<open>Windows: the list\<close>

text \<open>
  A device of the set: the value \<open>PortName\<close>, \<open>None\<close> when the query fails, and the two registry
  properties, \<open>None\<close> when there is none; each with its final NUL. The narrow build is modelled.
\<close>

record win_device =
  wd_port_name :: "string option"
  wd_friendly_name :: "string option"
  wd_hardware_id :: "string option"

definition port_name_max_length :: nat where "port_name_max_length = 256"

text \<open>The last character that was written becomes NUL, or the buffer is emptied.\<close>

definition port_name_buffer :: "string \<Rightarrow> string" where
  "port_name_buffer d =
     (if 0 < length d \<and> length d \<le> port_name_max_length then c_str (take (length d - 1) d) else [])"

definition registry_buffer :: "string option \<Rightarrow> string" where
  "registry_buffer r =
     (case r of Some d \<Rightarrow> if 0 < length d then c_str (take (length d - 1) d) else [] | None \<Rightarrow> [])"

fun list_ports_win :: "win_device list \<Rightarrow> port_info list" where
  "list_ports_win [] = []"
| "list_ports_win (d # ds) =
     (case wd_port_name d of
        None \<Rightarrow> list_ports_win ds
      | Some name \<Rightarrow>
          let port_name = port_name_buffer name
          in if contains port_name ''LPT'' then list_ports_win ds
             else \<lparr>port = port_name, description = registry_buffer (wd_friendly_name d),
                   hardware_id = registry_buffer (wd_hardware_id d)\<rparr> # list_ports_win ds)"

section \<open>The formatted output of the Linux list\<close>

text \<open>
  \<open>format\<close> grows its buffer until the output fits; \<open>allocs\<close> are the results of \<open>realloc\<close>,
  \<open>turns\<close> the turns left of the six. \<open>out\<close> is what \<open>vsnprintf\<close> prints.
\<close>

fun format_loop :: "nat \<Rightarrow> nat \<Rightarrow> string \<Rightarrow> bool list \<Rightarrow> string" where
  "format_loop 0 buffer_size out allocs = []"
| "format_loop (Suc turns) buffer_size out allocs =
     (if buffer_size \<le> length out then
        (case allocs of True # q \<Rightarrow> format_loop turns (length out + 1) out q | _ \<Rightarrow> [])
      else out)"

definition format_out :: "string \<Rightarrow> bool list \<Rightarrow> string" where
  "format_out out allocs = format_loop 6 256 out allocs"

section \<open>Lemmas\<close>

text \<open>Formatting takes at most two turns and truncates nothing.\<close>

lemma format_out_exact: "length out < 256 \<or> take 1 allocs = [True] \<Longrightarrow> format_out out allocs = out"
  by (cases allocs) (auto simp: format_out_def numeral_eq_Suc)

lemma find_last_not_None: "find_last_not b xs = None \<longleftrightarrow> (\<forall>c\<in>set xs. b c)"
  by (induction xs) (auto split: option.splits)

lemma find_last_not_append:
  "\<forall>c\<in>set ys. b c \<Longrightarrow> \<not> b x \<Longrightarrow> find_last_not b (xs @ x # ys) = Some (length xs)"
  by (induction xs) (simp_all add: find_last_not_None [THEN iffD2])

text \<open>Trimming is dropping the blanks at the end.\<close>

lemma rtrim_dropWhile: "rtrim s = rev (dropWhile is_blank (rev s))"
proof (cases "\<forall>c\<in>set s. is_blank c")
  case True
  then have "dropWhile is_blank (rev s) = []" by simp
  then show ?thesis using True by (simp add: rtrim_def find_last_not_None [THEN iffD2])
next
  case False
  then obtain xs x ys where s: "s = xs @ x # ys" "\<not> is_blank x" "\<forall>c\<in>set ys. is_blank c"
    using split_list_last_prop [of s "\<lambda>c. \<not> is_blank c"] by blast
  then have "dropWhile is_blank (rev s) = x # rev xs" by (simp add: dropWhile_append)
  then show ?thesis using s by (simp add: rtrim_def find_last_not_append)
qed

lemma rtrim_idem [simp]: "rtrim (rtrim s) = rtrim s"
  by (simp add: rtrim_dropWhile dropWhile_idem)

lemma climb_first:
  "climb ps = Some e \<longleftrightarrow>
   (\<exists>us vs. ps = us @ e # vs \<and> get_class_name e = iousb_device \<and> (\<forall>u\<in>set us. get_class_name u \<noteq> iousb_device))"
proof (induction ps)
  case (Cons p ps)
  show ?case
  proof (cases "get_class_name p = iousb_device")
    case True
    have "us = []" if "p # ps = us @ e # vs" "\<forall>u\<in>set us. get_class_name u \<noteq> iousb_device" for us vs
      using that True by (cases us) auto
    then show ?thesis using True by fastforce
  next
    case False
    have "(\<exists>us vs. p # ps = us @ e # vs \<and> get_class_name e = iousb_device \<and> (\<forall>u\<in>set us. get_class_name u \<noteq> iousb_device))
      \<longleftrightarrow> (\<exists>us vs. ps = us @ e # vs \<and> get_class_name e = iousb_device \<and> (\<forall>u\<in>set us. get_class_name u \<noteq> iousb_device))"
      (is "?l \<longleftrightarrow> ?r")
    proof
      assume ?l
      then obtain us vs where "p # ps = us @ e # vs" "get_class_name e = iousb_device"
        "\<forall>u\<in>set us. get_class_name u \<noteq> iousb_device" by blast
      then show ?r using False by (cases us) auto
    next
      assume ?r
      then obtain us vs where "ps = us @ e # vs" "get_class_name e = iousb_device"
        "\<forall>u\<in>set us. get_class_name u \<noteq> iousb_device" by blast
      then show ?l using False by (intro exI [of _ "p # us"] exI [of _ vs]) simp
    qed
    then show ?thesis using Cons.IH False by simp
  qed
qed simp

text \<open>What the lists hold: no port without a name on macOS, no parallel port on Windows.\<close>

lemma osx_ports_named: "q \<in> set (osx_ports es) \<Longrightarrow> port q \<noteq> [] \<and> description q \<noteq> [] \<and> hardware_id q \<noteq> []"
  by (induction es rule: osx_ports.induct)
    (auto simp: Let_def osx_port_info_def osx_hardware_id_def split: if_splits)

lemma win_ports_serial: "q \<in> set (list_ports_win ds) \<Longrightarrow> \<not> contains (port q) ''LPT''"
  by (induction ds) (auto simp: Let_def split: option.splits if_splits)

end
