(* ===== verification/Device_IO.thy ===== *)
theory Device_IO
  imports Prelude Modes Serial_Port Device_Text
begin

text \<open>
  The state of a \<open>dt1_device\<close> and the line protocol it speaks
  (\<open>device/dt1_device.cpp\<close>: \<open>send_and_receive\<close>, \<open>send_and_receive_ack\<close>,
  \<open>read_line\<close>, \<open>read_line_until\<close>, \<open>read_to_prompt\<close>, \<open>connect\<close>,
  \<open>stop_if_streaming\<close>, the setters). An operation maps a state to a result and the state
  it leaves. The environment is part of the state: the bytes to come, the results of writing and of
  asking for available bytes, and the moment at which another thread clears \<open>_running\<close>,
  counted in reads of that flag, so that every interleaving with \<open>stop()\<close> is covered.
\<close>

section \<open>State\<close>

record device_info =
  device_version :: string
  hw_id :: string
  info_mode :: int

definition default_info :: device_info where
  "default_info = \<lparr>device_version = [], hw_id = [], info_mode = 0\<rparr>"

record imu_sample =
  is_timestamp :: u64
  is_accel :: "ieee list"
  is_gyro :: "ieee list"
  is_temp :: int

text \<open>What the device layer does to the outside: the serial port and its callbacks.\<close>

datatype action =
    Wrote string
  | Constructed_port string
  | Opened_port
  | Closed_port
  | Connect_cb bool device_info
  | Cloud_cb u64 "ieee list list"
  | Imu_cb "imu_sample list"

record dev =
  rx_stream :: "rx list"
  stop_in :: "nat option"
  available_q :: "nat option list"
  flush_q :: "nat list"
  write_q :: "exn option list"
  actions :: "action list"
  running :: bool
  has_serial :: bool
  port_open :: bool
  dev_info :: device_info
  dev_mode :: int
  frame_rate_hz :: int
  dev_serial_number :: string
  dev_sync_mode :: sync_mode
  imu_samples :: "imu_sample list"
  imu_data :: "u8 list list"
  latest_imu_sample_ts :: u64
  clock_offset :: u64
  point_cloud :: "ieee list list"
  receive_buf :: "u8 list"
  now_q :: "u64 list"

text \<open>The constructor, with an environment that has nothing to offer yet.\<close>

definition new_dev :: "string \<Rightarrow> dev" where
  "new_dev serial_number =
     \<lparr>rx_stream = [], stop_in = None, available_q = [], flush_q = [], write_q = [], actions = [],
      running = False, has_serial = False, port_open = False, dev_info = default_info, dev_mode = 0,
      frame_rate_hz = 30, dev_serial_number = serial_number, dev_sync_mode = Sync_none,
      imu_samples = [], imu_data = [], latest_imu_sample_ts = - 1, clock_offset = 0,
      point_cloud = [], receive_buf = [], now_q = []\<rparr>"

text \<open>\<open>high_resolution_clock::now()\<close> in nanoseconds: the next value the environment has.\<close>

definition now :: "dev \<Rightarrow> u64 \<times> dev" where
  "now s = (case now_q s of [] \<Rightarrow> (0, s) | t # q \<Rightarrow> (t, s\<lparr>now_q := q\<rparr>))"

definition act :: "action \<Rightarrow> dev \<Rightarrow> dev" where
  "act a s = s\<lparr>actions := actions s @ [a]\<rparr>"

text \<open>A read of \<open>_running\<close>: another thread may have stopped the device just before.\<close>

definition poll :: "dev \<Rightarrow> bool \<times> dev" where
  "poll s =
     (case stop_in s of
        None \<Rightarrow> (running s, s)
      | Some 0 \<Rightarrow> (False, s\<lparr>running := False, stop_in := None\<rparr>)
      | Some (Suc n) \<Rightarrow> (running s, s\<lparr>stop_in := Some n\<rparr>))"

section \<open>The serial port of the device\<close>

definition on_stream :: "(rx list \<Rightarrow> ('a, rx list) outcome) \<Rightarrow> dev \<Rightarrow> ('a, dev) outcome" where
  "on_stream f s =
     (if \<not> has_serial s then Throw Null_pointer s
      else if \<not> port_open s then Throw Port_not_opened s
      else case f (rx_stream s) of
             Ret x r \<Rightarrow> Ret x (s\<lparr>rx_stream := r\<rparr>)
           | Throw e r \<Rightarrow> Throw e (s\<lparr>rx_stream := r\<rparr>)
           | Block r \<Rightarrow> Block (s\<lparr>rx_stream := r\<rparr>))"

definition serial_read :: "nat \<Rightarrow> dev \<Rightarrow> (string, dev) outcome" where
  "serial_read n = on_stream (stream_read n [])"

definition serial_readline :: "dev \<Rightarrow> (string, dev) outcome" where
  "serial_readline = on_stream (stream_readline [])"

definition serial_write :: "string \<Rightarrow> dev \<Rightarrow> (unit, dev) outcome" where
  "serial_write str s =
     (if \<not> has_serial s then Throw Null_pointer s
      else if \<not> port_open s then Throw Port_not_opened s
      else case write_q s of
             [] \<Rightarrow> Ret () (act (Wrote str) s)
           | None # q \<Rightarrow> Ret () (act (Wrote str) (s\<lparr>write_q := q\<rparr>))
           | Some e # q \<Rightarrow> Throw e (s\<lparr>write_q := q\<rparr>))"

definition serial_flush :: "dev \<Rightarrow> (unit, dev) outcome" where
  "serial_flush s =
     (if \<not> has_serial s then Throw Null_pointer s
      else if \<not> port_open s then Throw Port_not_opened s
      else Ret () s)"

text \<open>\<open>flushInput\<close> drops the bytes received and not yet read: how many is the environment's.\<close>

definition serial_flush_input :: "dev \<Rightarrow> (unit, dev) outcome" where
  "serial_flush_input s =
     (if \<not> has_serial s then Throw Null_pointer s
      else if \<not> port_open s then Throw Port_not_opened s
      else case flush_q s of
             [] \<Rightarrow> Ret () s
           | n # q \<Rightarrow>
               Ret () (s\<lparr>flush_q := q,
                 rx_stream := drop (min n (length (takeWhile is_byte (rx_stream s)))) (rx_stream s)\<rparr>))"

definition serial_close :: "dev \<Rightarrow> (unit, dev) outcome" where
  "serial_close s =
     (if \<not> has_serial s then Throw Null_pointer s
      else if port_open s then Ret () (act Closed_port (s\<lparr>port_open := False\<rparr>))
      else Ret () s)"

definition serial_open :: "dev \<Rightarrow> (unit, dev) outcome" where
  "serial_open s =
     (if \<not> has_serial s then Throw Null_pointer s
      else if port_open s then Throw Serial_exception s
      else Ret () (act Opened_port (s\<lparr>port_open := True\<rparr>)))"

definition serial_available :: "dev \<Rightarrow> (nat, dev) outcome" where
  "serial_available s =
     (if \<not> has_serial s then Throw Null_pointer s
      else if \<not> port_open s then Ret 0 s
      else case available_q s of
             [] \<Rightarrow> Ret 0 s
           | Some n # q \<Rightarrow> Ret n (s\<lparr>available_q := q\<rparr>)
           | None # q \<Rightarrow> Throw IO_exception (s\<lparr>available_q := q\<rparr>))"

section \<open>Lines and prompts\<close>

definition is_eol_char :: "char \<Rightarrow> bool" where
  "is_eol_char c \<longleftrightarrow> c = CHR 0x0D \<or> c = CHR 0x0A"

definition strip_eol :: "string \<Rightarrow> string" where
  "strip_eol line = rev (dropWhile is_eol_char (rev line))"

definition read_line :: "dev \<Rightarrow> (string, dev) outcome" where
  "read_line s = seq (serial_readline s) (\<lambda>line s. Ret (strip_eol line) s)"

lemma stream_readline_consumes:
  "stream_readline acc r = Ret x r' \<Longrightarrow> length r' < length r"
  by (induction acc r rule: stream_readline.induct) (auto split: if_splits)

lemma serial_readline_consumes:
  "serial_readline s = Ret x s' \<Longrightarrow> length (rx_stream s') < length (rx_stream s)"
  by (auto simp: serial_readline_def on_stream_def stream_readline_consumes
      split: if_splits outcome.splits)

lemma poll_rx [simp]: "rx_stream (snd (poll s)) = rx_stream s"
  by (simp add: poll_def split: option.splits nat.splits)

function read_line_until :: "string \<Rightarrow> dev \<Rightarrow> (string, dev) outcome" where
  "read_line_until find_str s =
     (case serial_readline s of
        Ret line s1 \<Rightarrow>
          if contains line find_str then Ret line s1
          else if fst (poll s1) then read_line_until find_str (snd (poll s1))
          else Ret line (snd (poll s1))
      | Throw e s1 \<Rightarrow> Throw e s1
      | Block s1 \<Rightarrow> Block s1)"
  by pat_completeness auto
termination
  by (relation "measure (\<lambda>(f, s). length (rx_stream s))") (auto dest: serial_readline_consumes)

declare read_line_until.simps [simp del]

text \<open>
  The loop of \<open>read_to_prompt\<close>, byte by byte. An empty answer continues at the loop
  condition, where \<open>resp[0]\<close> of an empty string is the terminating NUL: never the prompt.
\<close>

fun prompt_loop :: "rx list \<Rightarrow> (bool, rx list) outcome" where
  "prompt_loop [] = Block []"
| "prompt_loop (Rx_byte c # r) = (if c = CHR ''>'' then Ret True r else prompt_loop r)"
| "prompt_loop (Rx_quiet # r) = prompt_loop r"
| "prompt_loop (Rx_gone # r) = Throw Serial_exception (Rx_gone # r)"

definition read_to_prompt :: "dev \<Rightarrow> (bool, dev) outcome" where
  "read_to_prompt s =
     (case on_stream prompt_loop s of
        Throw Out_of_range s' \<Rightarrow> Ret False s'
      | m \<Rightarrow> m)"

definition send_and_receive_ack :: "string \<Rightarrow> dev \<Rightarrow> (bool, dev) outcome" where
  "send_and_receive_ack cmd s = seq (serial_write (cmd @ [CHR 0x0D]) s) (\<lambda>_. read_to_prompt)"

definition send_and_receive :: "string \<Rightarrow> dev \<Rightarrow> (unit, dev) outcome" where
  "send_and_receive command s =
     seq (serial_write (command @ [CHR 0x0D]) s) (\<lambda>_ s.
     seq (read_line_until command s) (\<lambda>_ s. Ret () s))"

section \<open>Connection helpers and setters\<close>

text \<open>\<open>connect\<close>: \<open>ok\<close> says whether constructing the port succeeds.\<close>

definition connect :: "bool \<Rightarrow> string \<Rightarrow> dev \<Rightarrow> bool \<times> dev" where
  "connect ok p s =
     (if ok then (True, act (Constructed_port p) (s\<lparr>has_serial := True, port_open := True\<rparr>))
      else (False, s))"

definition stop_if_streaming :: "dev \<Rightarrow> (unit, dev) outcome" where
  "stop_if_streaming s =
     seq (serial_available s) (\<lambda>n s.
     seq (if 0 < n then serial_write (''fsync 0'' @ [CHR 0x0D]) s else Ret () s) (\<lambda>_.
     serial_flush))"

definition set_mode :: "int \<Rightarrow> dev \<Rightarrow> bool \<times> dev" where
  "set_mode new_mode s =
     (if new_mode < 0 \<or> int (length dt1_modes_list) \<le> new_mode then (False, s)
      else (True, s\<lparr>dev_mode := new_mode\<rparr>))"

definition set_frame_rate :: "int \<Rightarrow> dev \<Rightarrow> dev" where
  "set_frame_rate hz s = (if 1 \<le> hz \<and> hz \<le> 30 then s\<lparr>frame_rate_hz := hz\<rparr> else s)"

definition set_sync_mode :: "sync_mode \<Rightarrow> dev \<Rightarrow> dev" where
  "set_sync_mode m s = s\<lparr>dev_sync_mode := m\<rparr>"

section \<open>What every operation keeps\<close>

text \<open>
  The contract all operations of the serial thread share: the bytes to come only get fewer,
  \<open>_running\<close> is never set, the configuration is not touched, actions are only added and the
  port object, once made, stays. The buffers of the frame reader keep their sizes.
\<close>

definition config :: "dev \<Rightarrow> int \<times> int \<times> string \<times> sync_mode" where
  "config s = (dev_mode s, frame_rate_hz s, dev_serial_number s, dev_sync_mode s)"

definition later :: "dev \<Rightarrow> dev \<Rightarrow> bool" where
  "later s t \<longleftrightarrow>
     length (rx_stream t) \<le> length (rx_stream s) \<and> (running t \<longrightarrow> running s) \<and>
     config t = config s \<and> (\<exists>as. actions t = actions s @ as) \<and> (has_serial s \<longrightarrow> has_serial t) \<and>
     length (point_cloud t) = length (point_cloud s) \<and> length (receive_buf t) = length (receive_buf s)"

lemma later_refl [simp, intro]: "later s s"
  by (simp add: later_def)

lemma later_trans [trans]: "later s t \<Longrightarrow> later t u \<Longrightarrow> later s u"
  by (fastforce simp: later_def)

lemma laterD:
  assumes "later s t"
  shows "length (rx_stream t) \<le> length (rx_stream s)" and "running t \<Longrightarrow> running s"
    and "config t = config s" and "has_serial s \<Longrightarrow> has_serial t"
    and "\<exists>as. actions t = actions s @ as"
    and "length (point_cloud t) = length (point_cloud s)" "length (receive_buf t) = length (receive_buf s)"
  using assms by (auto simp: later_def)

locale dev_op =
  fixes oper :: "dev \<Rightarrow> ('a, dev) outcome"
  assumes keeps: "later s (final_state (oper s))"
begin

lemma ret_later: "oper s = Ret x t \<Longrightarrow> later s t"
  using keeps [of s] by simp

lemma throw_later: "oper s = Throw e t \<Longrightarrow> later s t"
  using keeps [of s] by simp

lemma stays_stopped: "\<not> running s \<Longrightarrow> \<not> running (final_state (oper s))"
  using keeps [of s] laterD(2) by blast

lemma config_unchanged: "config (final_state (oper s)) = config s"
  using keeps [of s] laterD(3) by blast

end

locale consuming_op = dev_op +
  assumes consumes: "oper s = Ret x t \<Longrightarrow> length (rx_stream t) < length (rx_stream s)"

named_theorems dev_ops \<open>operations that keep the contract\<close>

lemma dev_op_Ret [dev_ops]: "(\<And>s. later s (f s)) \<Longrightarrow> dev_op (\<lambda>s. Ret (g s) (f s))"
  by unfold_locales simp

lemma dev_op_Throw [dev_ops]: "dev_op (Throw e)"
  by unfold_locales simp

lemma dev_op_seq [dev_ops]:
  assumes f: "dev_op f" and k: "\<And>x. dev_op (k x)"
  shows "dev_op (\<lambda>s. seq (f s) k)"
proof
  fix s :: dev
  show "later s (final_state (seq (f s) k))"
  proof (cases "f s")
    case (Ret x t)
    then show ?thesis
      using later_trans [OF dev_op.ret_later [OF f Ret] dev_op.keeps [OF k]] by simp
  qed (use dev_op.keeps [OF f, of s] in simp_all)
qed

lemma dev_op_if [dev_ops]: "dev_op f \<Longrightarrow> dev_op g \<Longrightarrow> dev_op (\<lambda>s. if b s then f s else g s)"
  by (simp add: dev_op_def)

lemma consuming_seq:
  assumes f: "consuming_op f" and k: "\<And>x. dev_op (k x)"
  shows "consuming_op (\<lambda>s. seq (f s) k)"
proof (intro consuming_op.intro consuming_op_axioms.intro)
  show "dev_op (\<lambda>s. seq (f s) k)"
    by (rule dev_op_seq [OF consuming_op.axioms(1) [OF f] k])
  fix s :: dev and x t
  assume "seq (f s) k = Ret x t"
  then obtain y u where "f s = Ret y u" and u: "k y u = Ret x t" by (auto simp: seq_eq_Ret_iff)
  then have "length (rx_stream u) < length (rx_stream s)"
    using f by (blast dest: consuming_op.consumes)
  moreover have "later u t" using k u by (rule dev_op.ret_later)
  ultimately show "length (rx_stream t) < length (rx_stream s)" using laterD(1) by fastforce
qed

lemma later_poll [simp]: "later s (snd (poll s))"
  by (auto simp: later_def poll_def config_def split: option.splits nat.splits)

lemma later_now: "now s = (x, t) \<Longrightarrow> later s t"
  by (auto simp: later_def now_def config_def split: list.splits)

lemma poll_later: "poll s = (r, t) \<Longrightarrow> later s t"
  using later_poll [of s] by simp

lemma poll_running: "poll s = (r, t) \<Longrightarrow> r = running t"
  by (auto simp: poll_def split: option.splits nat.splits)

lemma dev_op_poll [dev_ops]:
  assumes "\<And>r. dev_op (f r)"
  shows "dev_op (\<lambda>s. case poll s of (r, t) \<Rightarrow> f r t)"
proof
  fix s :: dev
  obtain r t where p: "poll s = (r, t)" by (cases "poll s")
  then show "later s (final_state (case poll s of (r, t) \<Rightarrow> f r t))"
    using later_trans [OF poll_later [OF p] dev_op.keeps [OF assms]] by simp
qed

lemma later_act [simp]: "later s (act a s)"
  by (simp add: later_def act_def config_def)

lemma dev_op_on_stream:
  assumes "\<And>r. length (final_state (f r)) \<le> length r"
  shows "dev_op (on_stream f)"
proof
  fix s :: dev
  have "length (final_state (f (rx_stream s))) \<le> length (rx_stream s)" by (rule assms)
  then show "later s (final_state (on_stream f s))"
    by (auto simp: on_stream_def later_def config_def split: outcome.splits)
qed

lemma on_stream_consumes:
  assumes "\<And>r x r'. f r = Ret x r' \<Longrightarrow> length r' < length r" and "on_stream f s = Ret x t"
  shows "length (rx_stream t) < length (rx_stream s)"
  using assms by (auto simp: on_stream_def split: if_splits outcome.splits)

lemma stream_read_le: "length (final_state (stream_read n acc r)) \<le> length r"
  by (induction n acc r rule: stream_read.induct) auto

lemma stream_readline_le: "length (final_state (stream_readline acc r)) \<le> length r"
  by (induction acc r rule: stream_readline.induct) auto

lemma prompt_loop_le: "length (final_state (prompt_loop r)) \<le> length r"
  by (induction r rule: prompt_loop.induct) auto

lemma prompt_loop_consumes: "prompt_loop r = Ret x r' \<Longrightarrow> length r' < length r"
  by (induction r rule: prompt_loop.induct) (auto split: if_splits)

lemma prompt_loop_no_out_of_range: "prompt_loop r \<noteq> Throw Out_of_range r'"
  by (induction r rule: prompt_loop.induct) auto

lemma read_to_prompt_eq: "read_to_prompt s = on_stream prompt_loop s"
  by (auto simp: read_to_prompt_def on_stream_def prompt_loop_no_out_of_range
      split: outcome.splits exn.splits)

lemma dev_op_serial_read [dev_ops]: "dev_op (serial_read n)"
  unfolding serial_read_def by (rule dev_op_on_stream) (rule stream_read_le)

lemma dev_op_serial_readline [dev_ops]: "dev_op serial_readline"
  unfolding serial_readline_def by (rule dev_op_on_stream) (rule stream_readline_le)

lemma dev_op_read_to_prompt [dev_ops]: "dev_op read_to_prompt"
  unfolding read_to_prompt_eq by (rule dev_op_on_stream) (rule prompt_loop_le)

lemma dev_op_serial_write [dev_ops]: "dev_op (serial_write str)"
  by unfold_locales
    (auto simp: serial_write_def later_def act_def config_def split: list.splits option.splits)

lemma dev_op_serial_flush [dev_ops]: "dev_op serial_flush"
  by unfold_locales (simp add: serial_flush_def)

lemma dev_op_serial_flush_input [dev_ops]: "dev_op serial_flush_input"
  by unfold_locales (auto simp: serial_flush_input_def later_def config_def split: list.splits)

lemma dev_op_serial_close [dev_ops]: "dev_op serial_close"
  by unfold_locales (simp add: serial_close_def later_def act_def config_def)

lemma dev_op_serial_available [dev_ops]: "dev_op serial_available"
  by unfold_locales (auto simp: serial_available_def later_def config_def split: list.splits option.splits)

lemma dev_op_read_line [dev_ops]: "dev_op read_line"
  unfolding read_line_def by (intro dev_ops) simp

lemma read_line_until_later: "later s (final_state (read_line_until f s))"
proof (induction f s rule: read_line_until.induct)
  case (1 f s)
  have s1: "later s (final_state (serial_readline s))" by (rule dev_op.keeps [OF dev_op_serial_readline])
  show ?case
  proof (cases "serial_readline s")
    case (Ret line t)
    have st: "later s t" and tu: "later t (snd (poll t))" using s1 Ret by simp_all
    show ?thesis
    proof (cases "\<not> contains line f \<and> fst (poll t)")
      case True
      then have "later (snd (poll t)) (final_state (read_line_until f (snd (poll t))))"
        using "1.IH" Ret by blast
      with later_trans [OF st tu] have "later s (final_state (read_line_until f (snd (poll t))))"
        by (rule later_trans)
      then show ?thesis using Ret True by (subst read_line_until.simps) simp
    next
      case False
      then show ?thesis using Ret st later_trans [OF st tu] by (subst read_line_until.simps) auto
    qed
  qed (use s1 in \<open>subst read_line_until.simps, simp\<close>)+
qed

lemma dev_op_read_line_until [dev_ops]: "dev_op (read_line_until f)"
  by unfold_locales (rule read_line_until_later)

lemma dev_op_send_and_receive_ack [dev_ops]: "dev_op (send_and_receive_ack c)"
  unfolding send_and_receive_ack_def by (intro dev_ops)

lemma dev_op_send_and_receive [dev_ops]: "dev_op (send_and_receive c)"
  unfolding send_and_receive_def by (intro dev_ops) simp

lemma dev_op_stop_if_streaming [dev_ops]: "dev_op stop_if_streaming"
  unfolding stop_if_streaming_def by (intro dev_ops) simp


lemma consuming_serial_readline: "consuming_op serial_readline"
  by (intro consuming_op.intro consuming_op_axioms.intro dev_ops) (rule serial_readline_consumes)

lemma consuming_read_to_prompt: "consuming_op read_to_prompt"
  by (intro consuming_op.intro consuming_op_axioms.intro dev_ops)
    (auto simp: read_to_prompt_eq intro: on_stream_consumes prompt_loop_consumes)

lemma read_line_until_RetD:
  "read_line_until f s = Ret line t \<Longrightarrow>
   \<exists>l u. serial_readline s = Ret l u \<and>
     (if contains l f then line = l \<and> t = u
      else if fst (poll u) then read_line_until f (snd (poll u)) = Ret line t
      else line = l \<and> t = snd (poll u))"
  by (subst (asm) read_line_until.simps) (auto split: outcome.splits if_splits)

lemma read_line_until_consumes:
  assumes "read_line_until f s = Ret x t"
  shows "length (rx_stream t) < length (rx_stream s)"
proof -
  obtain l u where u: "serial_readline s = Ret l u"
    and tu: "t = u \<or> t = snd (poll u) \<or> read_line_until f (snd (poll u)) = Ret x t"
    using read_line_until_RetD [OF assms] by (metis (full_types))
  have "length (rx_stream t) \<le> length (rx_stream u)"
    using tu dev_op.ret_later [OF dev_op_read_line_until] laterD(1) by fastforce
  then show ?thesis using serial_readline_consumes [OF u] by simp
qed

lemma consuming_read_line_until: "consuming_op (read_line_until f)"
  by (intro consuming_op.intro consuming_op_axioms.intro dev_ops) (rule read_line_until_consumes)

interpretation readline: consuming_op serial_readline
  by (rule consuming_serial_readline)

interpretation prompt: consuming_op read_to_prompt
  by (rule consuming_read_to_prompt)

interpretation until: consuming_op "read_line_until f" for f
  by (rule consuming_read_line_until)

interpretation ser_write: dev_op "serial_write str" for str
  by (rule dev_op_serial_write)

text \<open>What \<open>read_line_until\<close> returns.\<close>

lemma read_line_until_result:
  "read_line_until f s = Ret line t \<Longrightarrow> contains line f \<or> \<not> running t"
proof (induction f s rule: read_line_until.induct)
  case (1 f s)
  obtain l u where u: "serial_readline s = Ret l u"
    and c: "if contains l f then line = l \<and> t = u
      else if fst (poll u) then read_line_until f (snd (poll u)) = Ret line t
      else line = l \<and> t = snd (poll u)"
    using read_line_until_RetD [OF "1.prems"] by blast
  show ?case
    using c "1.IH" [OF u] poll_running [of u "fst (poll u)" "snd (poll u)"]
    by (auto split: if_splits)
qed

text \<open>Without a prompt among the bytes to come, \<open>read_to_prompt\<close> does not return.\<close>

lemma prompt_loop_blocks:
  "Rx_byte (CHR ''>'') \<notin> set r \<Longrightarrow> Rx_gone \<notin> set r \<Longrightarrow> prompt_loop r = Block []"
  by (induction r rule: prompt_loop.induct) auto

lemma prompt_loop_returns:
  "Rx_byte (CHR ''>'') \<notin> set u \<Longrightarrow> Rx_gone \<notin> set u \<Longrightarrow>
   prompt_loop (u @ Rx_byte (CHR ''>'') # r) = Ret True r"
  by (induction u rule: prompt_loop.induct) auto

text \<open>A line that arrives whole.\<close>

lemma stream_readline_line:
  "CHR 0x0A \<notin> set l \<Longrightarrow> length acc + length l < readline_limit \<Longrightarrow>
   stream_readline acc (map Rx_byte (l @ [CHR 0x0A]) @ r) = Ret (acc @ l @ [CHR 0x0A]) r"
  by (induction l arbitrary: acc) auto

lemma read_line_until_line:
  assumes "has_serial s" "port_open s" "CHR 0x0A \<notin> set l" "length l < readline_limit"
    and "rx_stream s = map Rx_byte (l @ [CHR 0x0A]) @ r"
  shows "contains (l @ [CHR 0x0A]) f \<Longrightarrow>
      read_line_until f s = Ret (l @ [CHR 0x0A]) (s\<lparr>rx_stream := r\<rparr>)"
    and "\<not> contains (l @ [CHR 0x0A]) f \<Longrightarrow> running s \<Longrightarrow> stop_in s = None \<Longrightarrow>
      read_line_until f s = read_line_until f (s\<lparr>rx_stream := r\<rparr>)"
proof -
  have rd: "serial_readline s = Ret (l @ [CHR 0x0A]) (s\<lparr>rx_stream := r\<rparr>)"
    using assms stream_readline_line [of l "[]" r] by (simp add: serial_readline_def on_stream_def)
  show "contains (l @ [CHR 0x0A]) f \<Longrightarrow>
      read_line_until f s = Ret (l @ [CHR 0x0A]) (s\<lparr>rx_stream := r\<rparr>)"
    by (subst read_line_until.simps) (simp add: rd)
  show "\<not> contains (l @ [CHR 0x0A]) f \<Longrightarrow> running s \<Longrightarrow> stop_in s = None \<Longrightarrow>
      read_line_until f s = read_line_until f (s\<lparr>rx_stream := r\<rparr>)"
    by (subst read_line_until.simps) (simp add: rd poll_def)
qed

end
