(* ===== verification/Device_Run.thy ===== *)
theory Device_Run
  imports Device_IO
begin

text \<open>
  The serial thread of a \<open>dt1_device\<close> (\<open>device/dt1_device.cpp\<close>): the checks made on
  connecting (\<open>verify_device_mode\<close>, \<open>get_device_info\<close>) and \<open>run\<close>, with its three
  phases, its exception handlers and its exit. The frame reader of the subclass
  (\<open>process_serial_data\<close>) is an argument, as the virtual call is.
\<close>

section \<open>The frame rate command\<close>

text \<open>\<open>snprintf(cmd, 16, "fsync %.2f", 1000.0 / _frame_rate_hz)\<close> keeps 15 characters.\<close>

definition fsync_cmd :: "int \<Rightarrow> string" where
  "fsync_cmd hz =
     take 15 (''fsync '' @ fixed2_str (f_div binary64 (f_of_int binary64 1000) (f_of_int binary64 hz)))"

section \<open>Checks on connecting\<close>

datatype device_kind = Kind_cdc | Kind_hist

definition create :: "string \<Rightarrow> exn + device_kind" where
  "create point_cloud_type =
     (if point_cloud_type = ''XYZ'' then Inr Kind_cdc
      else if point_cloud_type = ''XYZITR'' then Inr Kind_hist
      else Inl Invalid_argument)"

fun expected_flstart_mode :: "device_kind \<Rightarrow> string" where
  "expected_flstart_mode Kind_cdc = ''cdc''"
| "expected_flstart_mode Kind_hist = ''hist''"

definition verify_device_mode :: "device_kind \<Rightarrow> dev \<Rightarrow> (bool, dev) outcome" where
  "verify_device_mode kind s =
     seq (send_and_receive ''flstart'' s) (\<lambda>_ s.
     seq (read_line s) (\<lambda>mode_resp s.
     seq (read_to_prompt s) (\<lambda>_ s.
       if \<not> contains mode_resp (expected_flstart_mode kind) then
         seq (send_and_receive (''flstart '' @ expected_flstart_mode kind) s) (\<lambda>_ s.
         seq (send_and_receive ''reboot'' s) (\<lambda>_ s.
         seq (serial_close s) (\<lambda>_ s. Ret False s)))
       else Ret True s)))"

text \<open>The loop over the mode table: the first mode whose name the answer contains.\<close>

fun mode_in_resp :: "string \<Rightarrow> int \<Rightarrow> mode_info list \<Rightarrow> int" where
  "mode_in_resp resp i [] = i"
| "mode_in_resp resp i (m # ms) =
     (if contains resp (mode_str m) then i else mode_in_resp resp (i + 1) ms)"

definition get_device_info :: "dev \<Rightarrow> (device_info, dev) outcome" where
  "get_device_info s =
     seq (serial_flush s) (\<lambda>_ s.
     seq (send_and_receive_ack [CHR 0x0D] s) (\<lambda>_ s.
     seq (serial_flush_input s) (\<lambda>_ s.
     seq (send_and_receive ''ver'' s) (\<lambda>_ s.
     seq (read_line s) (\<lambda>version s.
     seq (read_line s) (\<lambda>settings s.
     seq (read_line s) (\<lambda>dev_info_line s.
     seq (read_line s) (\<lambda>dummy s.
     seq (lift_sum (is_supported_device version) s) (\<lambda>supported s.
       if \<not> supported then Throw Unsupported_device s
       else
         seq (read_to_prompt s) (\<lambda>_ s.
         seq (send_and_receive ''flmode'' s) (\<lambda>_ s.
         seq (read_line s) (\<lambda>mode_resp s.
           let i = mode_in_resp mode_resp 0 dt1_modes_list
           in if int (length dt1_modes_list) \<le> i then Throw Unknown_mode s
              else seq (read_to_prompt s) (\<lambda>_ s.
                Ret \<lparr>device_version = version, hw_id = get_hw_id dev_info_line, info_mode = i\<rparr> s)))))))))))))"

section \<open>Phase 1: connect\<close>

text \<open>
  \<open>connect_loop\<close> is the inner loop over \<open>connect(port)\<close>; \<open>oks\<close> are the results of
  constructing the port. \<open>connect_phase\<close> is the outer loop; every turn has its own view of
  the ports and its own results.
\<close>

fun connect_loop :: "bool list \<Rightarrow> string \<Rightarrow> dev \<Rightarrow> (unit, dev) outcome" where
  "connect_loop [] p s = (case poll s of (r, s1) \<Rightarrow> if r then Block s1 else Ret () s1)"
| "connect_loop (ok # oks) p s =
     (case poll s of (r, s1) \<Rightarrow>
        if \<not> r then Ret () s1
        else case connect ok p s1 of (done, s2) \<Rightarrow>
          if done then Ret () s2 else connect_loop oks p s2)"

record attempt =
  at_sysfs :: sysfs
  at_devices :: "string list"
  at_connects :: "bool list"

fun connect_phase :: "device_kind \<Rightarrow> attempt list \<Rightarrow> dev \<Rightarrow> (unit, dev) outcome" where
  "connect_phase kind [] s = (case poll s of (r, s1) \<Rightarrow> if r then Block s1 else Ret () s1)"
| "connect_phase kind (a # as) s =
     (case poll s of (r, s1) \<Rightarrow>
        if \<not> r then Ret () s1
        else seq (lift_sum (find_port (dev_serial_number s1) (at_sysfs a) (at_devices a)) s1) (\<lambda>p s1.
            if p = [] then connect_phase kind as s1
            else
              seq (connect_loop (at_connects a) p s1) (\<lambda>_ s2.
              case poll s2 of (r2, s3) \<Rightarrow>
                if \<not> r2 then Ret () s3
                else
                  seq (stop_if_streaming s3) (\<lambda>_ s4.
                  seq (verify_device_mode kind s4) (\<lambda>ok s5.
                    if \<not> ok then connect_phase kind as s5
                    else
                      seq (get_device_info s5) (\<lambda>info s6.
                      let s7 = s6\<lparr>dev_info := info\<rparr>
                      in if info_mode info \<noteq> dev_mode s7 then
                           seq (send_and_receive (''flmode '' @ mode_str (mode_of (dev_mode s7))) s7) (\<lambda>_ s.
                           seq (send_and_receive ''reboot'' s) (\<lambda>_ s.
                           seq (serial_close s) (\<lambda>_ s. connect_phase kind as s)))
                         else Ret () s7))))))"

section \<open>Phase 2: set up and start streaming\<close>

fun send_acks :: "string list \<Rightarrow> dev \<Rightarrow> (unit, dev) outcome" where
  "send_acks [] s = Ret () s"
| "send_acks (c # cs) s = seq (send_and_receive_ack c s) (\<lambda>_. send_acks cs)"

definition sync_cmds :: "sync_mode \<Rightarrow> int \<Rightarrow> string list" where
  "sync_cmds m hz =
     (case m of
        Sync_slave \<Rightarrow> [''trgin rise'', ''fsync 0'']
      | Sync_none \<Rightarrow> [''trgin disable'', fsync_cmd hz]
      | Sync_master \<Rightarrow> [''trgin disable'', fsync_cmd hz])"

fun skip_frames :: "nat \<Rightarrow> dev \<Rightarrow> (unit, dev) outcome" where
  "skip_frames 0 s = Ret () s"
| "skip_frames (Suc n) s = seq (read_line_until ''END'' s) (\<lambda>_. skip_frames n)"

definition default_cmds :: "string list" where
  "default_cmds =
     [''flformat binary imu'', ''fltrgout disable'', ''fltrgin disable'', ''flfsync 0'',
      ''format binary imu'', ''fltrgout riselast'']"

definition setup_phase :: "dev \<Rightarrow> (unit, dev) outcome" where
  "setup_phase s =
     (case poll s of (r, s1) \<Rightarrow>
        if \<not> r then Ret () s1
        else
          seq (Ret () (act (Connect_cb True (dev_info s1)) s1)) (\<lambda>_ s.
          seq (send_acks default_cmds s) (\<lambda>_ s.
          seq (send_acks (sync_cmds (dev_sync_mode s) (frame_rate_hz s)) s) (\<lambda>_ s.
          skip_frames (nat (frame_rate_hz s)) s))))"

section \<open>Phase 3: receive, and the whole thread\<close>

text \<open>\<open>fuel\<close> bounds the turns; with more fuel than bytes to come it is never used up.\<close>

fun main_loop :: "nat \<Rightarrow> (dev \<Rightarrow> (unit, dev) outcome) \<Rightarrow> dev \<Rightarrow> (unit, dev) outcome" where
  "main_loop 0 proc s = Block s"
| "main_loop (Suc fuel) proc s =
     (case poll s of (r, s1) \<Rightarrow>
        if \<not> r then Ret () s1 else seq (proc s1) (\<lambda>_. main_loop fuel proc))"

text \<open>The two handlers catch every C++ exception; a null dereference is not one.\<close>

definition catch_all :: "(unit, dev) outcome \<Rightarrow> (unit, dev) outcome" where
  "catch_all m = (case m of Throw e s \<Rightarrow> if e = Null_pointer then Throw e s else Ret () s | _ \<Rightarrow> m)"

definition run_exit :: "dev \<Rightarrow> (unit, dev) outcome" where
  "run_exit s =
     (case poll s of (r, s1) \<Rightarrow>
        seq (if \<not> r \<and> has_serial s1 then send_acks [''fsync 0'', ''trgin disable''] s1 else Ret () s1) (\<lambda>_ s.
        seq (Ret () (act (Connect_cb False (dev_info s)) s)) (\<lambda>_ s.
        seq (if has_serial s then serial_close s else Ret () s) (\<lambda>_ s.
        Ret () (s\<lparr>running := False\<rparr>)))))"

definition run ::
  "device_kind \<Rightarrow> (dev \<Rightarrow> (unit, dev) outcome) \<Rightarrow> nat \<Rightarrow> attempt list \<Rightarrow> dev \<Rightarrow> (unit, dev) outcome" where
  "run kind proc fuel attempts s =
     seq (catch_all
       (seq (connect_phase kind attempts s) (\<lambda>_ s.
        seq (setup_phase s) (\<lambda>_.
        main_loop fuel proc)))) (\<lambda>_. run_exit)"

section \<open>Commands sent\<close>

text \<open>
  \<open>sent s t cs\<close>: between \<open>s\<close> and \<open>t\<close> exactly the commands \<open>cs\<close> went out, and nothing
  else happened to the port, the configuration or the device information.
\<close>

definition sent :: "dev \<Rightarrow> dev \<Rightarrow> string list \<Rightarrow> bool" where
  "sent s t cs \<longleftrightarrow>
     has_serial t \<and> port_open t \<and> dev_info t = dev_info s \<and> config t = config s \<and>
     actions t = actions s @ map (\<lambda>c. Wrote (c @ [CHR 0x0D])) cs"

lemma sent_trans: "sent s t cs \<Longrightarrow> sent t u ds \<Longrightarrow> sent s u (cs @ ds)"
  by (simp add: sent_def)

lemma sent_nil_trans: "sent s t [] \<Longrightarrow> sent t u ds \<Longrightarrow> sent s u ds"
  using sent_trans [of s t "[]" u ds] by simp

lemma sent_trans_nil: "sent s t cs \<Longrightarrow> sent t u [] \<Longrightarrow> sent s u cs"
  using sent_trans [of s t cs u "[]"] by simp

lemma on_stream_sent: "on_stream f s = Ret x t \<Longrightarrow> sent s t []"
  by (auto simp: on_stream_def sent_def config_def split: if_splits outcome.splits)

lemma serial_readline_sent: "serial_readline s = Ret x t \<Longrightarrow> sent s t []"
  by (simp add: serial_readline_def on_stream_sent)

lemma read_line_sent: "read_line s = Ret x t \<Longrightarrow> sent s t []"
  by (auto simp: read_line_def seq_eq_Ret_iff dest: serial_readline_sent)

lemma read_to_prompt_sent: "read_to_prompt s = Ret x t \<Longrightarrow> sent s t []"
  by (simp add: read_to_prompt_eq on_stream_sent)

lemma serial_flush_sent: "serial_flush s = Ret x t \<Longrightarrow> sent s t []"
  by (auto simp: serial_flush_def sent_def split: if_splits)

lemma serial_flush_input_sent: "serial_flush_input s = Ret x t \<Longrightarrow> sent s t []"
  by (auto simp: serial_flush_input_def sent_def config_def split: if_splits list.splits)

lemma serial_write_sent: "serial_write (c @ [CHR 0x0D]) s = Ret x t \<Longrightarrow> sent s t [c]"
  by (auto simp: serial_write_def sent_def config_def act_def split: if_splits list.splits option.splits)

lemma poll_sent: "sent s (snd (poll s)) [] \<longleftrightarrow> has_serial s \<and> port_open s"
  by (auto simp: sent_def poll_def config_def split: option.splits nat.splits)

lemma read_line_until_sent: "read_line_until f s = Ret x t \<Longrightarrow> sent s t []"
proof (induction f s rule: read_line_until.induct)
  case (1 f s)
  obtain l u where u: "serial_readline s = Ret l u"
    and c: "if contains l f then x = l \<and> t = u
      else if fst (poll u) then read_line_until f (snd (poll u)) = Ret x t
      else x = l \<and> t = snd (poll u)"
    using read_line_until_RetD [OF "1.prems"] by blast
  have su: "sent s u []" using u by (rule serial_readline_sent)
  then have "has_serial u" "port_open u" by (simp_all add: sent_def)
  then have sp: "sent s (snd (poll u)) []" using sent_nil_trans [OF su] poll_sent by blast
  show ?case
    using c "1.IH" [OF u] su sp sent_nil_trans [OF sp] by (auto split: if_splits)
qed

lemma send_and_receive_sent: "send_and_receive c s = Ret x t \<Longrightarrow> sent s t [c]"
  by (auto simp: send_and_receive_def seq_eq_Ret_iff
      dest!: serial_write_sent read_line_until_sent intro: sent_trans_nil)

lemma send_and_receive_ack_sent: "send_and_receive_ack c s = Ret x t \<Longrightarrow> sent s t [c]"
  by (auto simp: send_and_receive_ack_def seq_eq_Ret_iff
      dest!: serial_write_sent read_to_prompt_sent intro: sent_trans_nil)

lemma send_acks_sent:
  "has_serial s \<Longrightarrow> port_open s \<Longrightarrow> send_acks cs s = Ret x t \<Longrightarrow> sent s t cs"
proof (induction cs arbitrary: s)
  case Nil
  then show ?case by (simp add: sent_def)
next
  case (Cons c cs)
  obtain y u where u: "send_and_receive_ack c s = Ret y u" "send_acks cs u = Ret x t"
    using Cons.prems(3) by (auto simp: seq_eq_Ret_iff)
  have "sent s u [c]" using u(1) by (rule send_and_receive_ack_sent)
  moreover from this have "has_serial u" "port_open u" by (simp_all add: sent_def)
  then have "sent u t cs" using Cons.IH u(2) by blast
  ultimately show ?case using sent_trans by fastforce
qed

lemma skip_frames_sent:
  "has_serial s \<Longrightarrow> port_open s \<Longrightarrow> skip_frames n s = Ret x t \<Longrightarrow> sent s t []"
proof (induction n arbitrary: s)
  case 0
  then show ?case by (simp add: sent_def)
next
  case (Suc n)
  obtain y u where u: "read_line_until ''END'' s = Ret y u" "skip_frames n u = Ret x t"
    using Suc.prems(3) by (auto simp: seq_eq_Ret_iff)
  have su: "sent s u []" using u(1) by (rule read_line_until_sent)
  then have "has_serial u" "port_open u" by (simp_all add: sent_def)
  then have "sent u t []" using Suc.IH u(2) by blast
  with su show ?case by (rule sent_nil_trans)
qed

text \<open>The answers to the commands.\<close>

lemma verify_device_mode_True:
  "verify_device_mode kind s = Ret True t \<Longrightarrow> sent s t [''flstart'']"
  by (auto simp: verify_device_mode_def seq_eq_Ret_iff split: if_splits
      dest!: send_and_receive_sent read_line_sent read_to_prompt_sent intro: sent_trans_nil)

lemma verify_device_mode_False:
  assumes "verify_device_mode kind s = Ret False t"
  shows "\<not> port_open t \<and>
    actions t = actions s @ map (\<lambda>c. Wrote (c @ [CHR 0x0D]))
      [''flstart'', ''flstart '' @ expected_flstart_mode kind, ''reboot''] @ [Closed_port]"
proof -
  let ?e = "''flstart '' @ expected_flstart_mode kind"
  obtain s1 s2 s3 s4 s5 r where *: "send_and_receive ''flstart'' s = Ret () s1"
    "read_line s1 = Ret r s2" "\<exists>b. read_to_prompt s2 = Ret b s3"
    "send_and_receive ?e s3 = Ret () s4" "send_and_receive ''reboot'' s4 = Ret () s5"
    "serial_close s5 = Ret () t"
    using assms by (auto simp: verify_device_mode_def seq_eq_Ret_iff split: if_splits)
  have "sent s s3 [''flstart'']"
    using * by (blast intro: sent_trans_nil dest: send_and_receive_sent read_line_sent read_to_prompt_sent)
  then have "sent s s5 ([''flstart''] @ [?e] @ [''reboot''])"
    using sent_trans * send_and_receive_sent by blast
  then show ?thesis
    using *(6) by (auto simp: serial_close_def sent_def act_def split: if_splits)
qed

lemma mode_in_resp_range:
  "i \<le> mode_in_resp r i ms \<and> mode_in_resp r i ms \<le> i + int (length ms)"
proof (induction ms arbitrary: i)
  case (Cons m ms)
  show ?case using Cons.IH [of "i + 1"] by auto
qed simp

lemma get_device_info_Ret:
  assumes "get_device_info s = Ret info t"
  shows "sent s t [[CHR 0x0D], ''ver'', ''flmode'']"
    and "is_supported_device (device_version info) = Inr True" and "valid_mode (info_mode info)"
proof -
  obtain s1 s2 s3 s4 s5 s6 s7 s8 s9 s10 s11 b where *:
    "serial_flush s = Ret () s1" "send_and_receive_ack [CHR 0x0D] s1 = Ret b s2"
    "serial_flush_input s2 = Ret () s3" "send_and_receive ''ver'' s3 = Ret () s4"
    "read_line s4 = Ret (device_version info) s5"
    "\<exists>r. read_line s5 = Ret r s6" "\<exists>r. read_line s6 = Ret r s7" "\<exists>r. read_line s7 = Ret r s8"
    "\<exists>r. read_to_prompt s8 = Ret r s9" "send_and_receive ''flmode'' s9 = Ret () s10"
    "\<exists>r. read_line s10 = Ret r s11" "\<exists>r. read_to_prompt s11 = Ret r t"
    and sup: "is_supported_device (device_version info) = Inr True"
    and md: "\<exists>r. info_mode info = mode_in_resp r 0 dt1_modes_list \<and>
      mode_in_resp r 0 dt1_modes_list < int (length dt1_modes_list)"
    using assms
    by (clarsimp simp: get_device_info_def seq_eq_Ret_iff lift_sum_eq_Ret_iff Let_def not_le split: if_splits)
      (rule that; (assumption | rule exI conjI | simp)+)
  show "is_supported_device (device_version info) = Inr True" by (rule sup)
  show "valid_mode (info_mode info)"
    using md mode_in_resp_range [of 0 _ dt1_modes_list] by (auto simp: valid_mode_def)
  have "sent s s3 [[CHR 0x0D]]"
    using *(1-3) by (meson sent_nil_trans sent_trans_nil serial_flush_sent send_and_receive_ack_sent serial_flush_input_sent)
  moreover have "sent s3 s9 [''ver'']"
    using *(4-9) by (meson sent_trans_nil send_and_receive_sent read_line_sent read_to_prompt_sent)
  moreover have "sent s9 t [''flmode'']"
    using *(10-12) by (meson sent_trans_nil send_and_receive_sent read_line_sent read_to_prompt_sent)
  ultimately have "sent s t ([[CHR 0x0D]] @ [''ver''] @ [''flmode''])" using sent_trans by blast
  then show "sent s t [[CHR 0x0D], ''ver'', ''flmode'']" by simp
qed


section \<open>The connection phase\<close>

text \<open>What holds when the connection phase ends with the device still running.\<close>

definition ready :: "dev \<Rightarrow> bool" where
  "ready s \<longleftrightarrow>
     has_serial s \<and> port_open s \<and> info_mode (dev_info s) = dev_mode s \<and>
     is_supported_device (device_version (dev_info s)) = Inr True"

lemma connect_loop_Ret:
  "connect_loop oks p s = Ret () t \<Longrightarrow> running t \<Longrightarrow> has_serial t \<and> port_open t"
proof (induction oks p s rule: connect_loop.induct)
  case (1 p s)
  then show ?case using poll_running by (auto split: prod.splits if_splits)
next
  case (2 ok oks p s)
  then show ?case
    using poll_running by (cases ok) (auto simp: connect_def act_def split: prod.splits if_splits)
qed

lemma connect_phase_ready:
  "connect_phase kind as s = Ret () t \<Longrightarrow> running t \<Longrightarrow> ready t"
proof (induction as arbitrary: s)
  case Nil
  then show ?case using poll_running by (auto split: prod.splits if_splits)
next
  case (Cons a as)
  obtain r s1 where p1: "poll s = (r, s1)" by (cases "poll s")
  with Cons.prems poll_running [OF p1] have r: "r" by (auto split: if_splits)
  obtain p where p: "find_port (dev_serial_number s1) (at_sysfs a) (at_devices a) = Inr p"
    using Cons.prems p1 r by (auto simp: seq_eq_Ret_iff lift_sum_eq_Ret_iff)
  show ?case
  proof (cases "p = []")
    case True
    then show ?thesis using Cons p1 r p by simp
  next
    case False
    obtain s2 where s2: "connect_loop (at_connects a) p s1 = Ret () s2"
      using Cons.prems p1 r p False by (auto simp: seq_eq_Ret_iff)
    obtain r2 s3 where p3: "poll s2 = (r2, s3)" by (cases "poll s2")
    have r2: "r2" using Cons.prems p1 r p False s2 p3 poll_running [OF p3] by (auto split: if_splits)
    obtain s4 ok s5 where s4: "stop_if_streaming s3 = Ret () s4"
      and s5: "verify_device_mode kind s4 = Ret ok s5"
      using Cons.prems p1 r p False s2 p3 r2 by (auto simp: seq_eq_Ret_iff)
    note ctx = p1 r p False s2 p3 r2 s4 s5
    show ?thesis
    proof (cases ok)
      case False
      then show ?thesis using Cons ctx by simp
    next
      case True
      obtain info s6 where s6: "get_device_info s5 = Ret info s6"
        using Cons.prems ctx True by (auto simp: seq_eq_Ret_iff)
      show ?thesis
      proof (cases "info_mode info = dev_mode s6")
        case True
        then have "t = s6\<lparr>dev_info := info\<rparr>"
          using Cons.prems ctx \<open>ok\<close> s6 by (simp add: Let_def)
        then show ?thesis
          using True get_device_info_Ret [OF s6] by (simp add: ready_def sent_def)
      next
        case False
        then obtain u where "connect_phase kind as u = Ret () t"
          using Cons.prems ctx \<open>ok\<close> s6 by (auto simp: Let_def seq_eq_Ret_iff)
        then show ?thesis using Cons by blast
      qed
    qed
  qed
qed

section \<open>Set-up and exit\<close>

lemma config_simps: "config s = config t \<Longrightarrow> dev_sync_mode s = dev_sync_mode t \<and> frame_rate_hz s = frame_rate_hz t"
  by (simp add: config_def)

lemma setup_phase_Ret:
  assumes "setup_phase s = Ret () t" and "running t" and "has_serial s" "port_open s"
  shows "has_serial t \<and> port_open t \<and> actions t = actions s @ Connect_cb True (dev_info s) #
    map (\<lambda>c. Wrote (c @ [CHR 0x0D])) (default_cmds @ sync_cmds (dev_sync_mode s) (frame_rate_hz s))"
proof -
  obtain r s1 where p: "poll s = (r, s1)" by (cases "poll s")
  have r using assms(1,2) p poll_running [OF p] by (auto simp: setup_phase_def split: if_splits)
  have s1: "sent s s1 []" using poll_sent [of s] assms(3,4) p by simp
  define s2 where "s2 = act (Connect_cb True (dev_info s1)) s1"
  obtain s3 s4 where *: "send_acks default_cmds s2 = Ret () s3"
      "send_acks (sync_cmds (dev_sync_mode s3) (frame_rate_hz s3)) s3 = Ret () s4"
      "skip_frames (nat (frame_rate_hz s4)) s4 = Ret () t"
    using assms(1) p \<open>r\<close> by (auto simp: setup_phase_def seq_eq_Ret_iff simp flip: s2_def)
  have s2: "has_serial s2" "port_open s2" "config s2 = config s"
    "actions s2 = actions s @ [Connect_cb True (dev_info s)]"
    using s1 by (simp_all add: s2_def act_def sent_def config_def)
  have 3: "sent s2 s3 default_cmds" using send_acks_sent [OF s2(1,2) *(1)] .
  then have s3: "has_serial s3" "port_open s3" "config s3 = config s" using s2 by (simp_all add: sent_def)
  have 4: "sent s3 s4 (sync_cmds (dev_sync_mode s3) (frame_rate_hz s3))"
    using send_acks_sent [OF s3(1,2) *(2)] .
  then have "has_serial s4" "port_open s4" by (simp_all add: sent_def)
  then have "sent s4 t []" using *(3) by (intro skip_frames_sent)
  then have "sent s2 t (default_cmds @ sync_cmds (dev_sync_mode s3) (frame_rate_hz s3))"
    using sent_trans [OF 3 4] by (rule sent_trans_nil [rotated])
  then show ?thesis using s2(4) config_simps [OF s3(3)] by (simp add: sent_def)
qed

lemma run_exit_Ret:
  assumes "run_exit s = Ret () t"
  shows "\<not> running t" and "has_serial t \<Longrightarrow> \<not> port_open t"
    and "\<exists>as. actions t = actions s @ as @ [Connect_cb False (dev_info s)] \<or>
      actions t = actions s @ as @ [Connect_cb False (dev_info s), Closed_port]"
proof -
  obtain r s1 where p: "poll s = (r, s1)" by (cases "poll s")
  obtain s2 where s2: "(if \<not> r \<and> has_serial s1 then send_acks [''fsync 0'', ''trgin disable''] s1
      else Ret () s1) = Ret () s2"
    and t: "seq (if has_serial s2 then serial_close (act (Connect_cb False (dev_info s2)) s2)
        else Ret () (act (Connect_cb False (dev_info s2)) s2)) (\<lambda>_ s. Ret () (s\<lparr>running := False\<rparr>)) = Ret () t"
    using assms p by (auto simp: run_exit_def seq_eq_Ret_iff act_def split: if_splits)
  have s1: "dev_info s1 = dev_info s \<and> actions s1 = actions s"
    using p by (auto simp: poll_def split: option.splits nat.splits)
  have "dev_info s2 = dev_info s1 \<and> (\<exists>as. actions s2 = actions s1 @ as)"
  proof (cases "\<not> r \<and> has_serial s1")
    case True
    then have "send_acks [''fsync 0'', ''trgin disable''] s1 = Ret () s2" using s2 by simp
    then show ?thesis
      by (auto simp: seq_eq_Ret_iff sent_def dest!: send_and_receive_ack_sent)
  next
    case False
    then show ?thesis using s2 by auto
  qed
  with s1 obtain as where s2: "dev_info s2 = dev_info s" "actions s2 = actions s @ as" by auto
  show "\<not> running t" "has_serial t \<Longrightarrow> \<not> port_open t"
    using t by (auto simp: seq_eq_Ret_iff serial_close_def act_def split: if_splits)
  have "actions t = actions s @ as @ [Connect_cb False (dev_info s)] \<or>
      actions t = actions s @ as @ [Connect_cb False (dev_info s), Closed_port]"
    using t s2 by (auto simp: seq_eq_Ret_iff serial_close_def act_def split: if_splits)
  then show "\<exists>as. actions t = actions s @ as @ [Connect_cb False (dev_info s)] \<or>
      actions t = actions s @ as @ [Connect_cb False (dev_info s), Closed_port]" by blast
qed

section \<open>The frame reader contract and the receive loop\<close>

text \<open>
  What \<open>run\<close> asks of \<open>process_serial_data\<close>: it keeps the contract of the thread, and
  every call that returns with the device running has consumed input.
\<close>

locale frame_reader = dev_op proc for proc :: "dev \<Rightarrow> (unit, dev) outcome" +
  assumes progress: "proc s = Ret () t \<Longrightarrow> running t \<Longrightarrow> length (rx_stream t) < length (rx_stream s)"
begin

lemma main_loop_stops: "main_loop fuel proc s = Ret () t \<Longrightarrow> \<not> running t"
proof (induction fuel arbitrary: s)
  case (Suc fuel)
  obtain r s1 where p: "poll s = (r, s1)" by (cases "poll s")
  then show ?case using Suc poll_running [OF p] by (auto simp: seq_eq_Ret_iff split: if_splits)
qed simp

lemma main_loop_enough:
  "0 < fuel \<Longrightarrow> running s \<longrightarrow> Suc (length (rx_stream s)) < fuel \<Longrightarrow>
   main_loop (fuel + k) proc s = main_loop fuel proc s"
proof (induction fuel arbitrary: s)
  case (Suc fuel)
  obtain r s1 where p: "poll s = (r, s1)" by (cases "poll s")
  show ?case
  proof (cases r)
    case True
    then have "running s" using poll_running [OF p] laterD(2) [OF poll_later [OF p]] by simp
    then have len: "Suc (length (rx_stream s1)) < Suc fuel"
      using Suc.prems laterD(1) [OF poll_later [OF p]] by fastforce
    show ?thesis
    proof (cases "proc s1")
      case (Ret x t)
      then have "proc s1 = Ret () t" by simp
      then have "running t \<longrightarrow> Suc (length (rx_stream t)) < fuel" using progress len by fastforce
      moreover have "0 < fuel" using len by simp
      ultimately show ?thesis using Suc.IH p True Ret by simp
    qed (use p True in simp_all)
  qed (use p in simp)
qed simp

lemma main_loop_fuel:
  assumes "Suc (length (rx_stream s)) < f" "Suc (length (rx_stream s)) < g"
  shows "main_loop f proc s = main_loop g proc s"
proof (cases "f \<le> g")
  case True
  then show ?thesis using main_loop_enough [of f s "g - f"] assms by simp
next
  case False
  then show ?thesis using main_loop_enough [of g s "f - g"] assms by simp
qed

text \<open>With enough fuel the loop waits only where the frame reader itself waits.\<close>

lemma main_loop_Block:
  "0 < fuel \<Longrightarrow> running s \<longrightarrow> Suc (length (rx_stream s)) < fuel \<Longrightarrow>
   main_loop fuel proc s = Block t \<Longrightarrow> \<exists>u. running u \<and> proc u = Block t"
proof (induction fuel arbitrary: s)
  case (Suc fuel)
  obtain r s1 where p: "poll s = (r, s1)" by (cases "poll s")
  with Suc.prems have r: r by (auto split: if_splits)
  then have "running s" "running s1"
    using poll_running [OF p] laterD(2) [OF poll_later [OF p]] by simp_all
  then have len: "Suc (length (rx_stream s1)) < Suc fuel"
    using Suc.prems laterD(1) [OF poll_later [OF p]] by fastforce
  show ?case
  proof (cases "proc s1")
    case (Ret x v)
    then have "proc s1 = Ret () v" by simp
    then have "running v \<longrightarrow> Suc (length (rx_stream v)) < fuel" using progress len by fastforce
    moreover have "0 < fuel" using len by simp
    ultimately show ?thesis using Suc p r Ret by auto
  next
    case (Block v)
    then show ?thesis using Suc.prems p r \<open>running s1\<close> by auto
  qed (use Suc.prems p r in simp_all)
qed simp

lemma main_loop_later: "later s (final_state (main_loop fuel proc s))"
proof (induction fuel arbitrary: s)
  case (Suc fuel)
  obtain r s1 where p: "poll s = (r, s1)" by (cases "poll s")
  show ?case
  proof (cases "proc s1")
    case (Ret x v)
    then have "later s v" using later_trans [OF poll_later [OF p] ret_later] by blast
    then show ?thesis using p Ret Suc.IH [of v] poll_later [OF p] by (auto intro: later_trans)
  qed (use p poll_later [OF p] later_trans [OF poll_later [OF p] keeps [of s1]] in auto)
qed simp

end

section \<open>The whole thread\<close>

lemma run_Ret:
  assumes "run kind proc fuel attempts s = Ret () t"
  shows "\<not> running t" and "has_serial t \<Longrightarrow> \<not> port_open t"
    and "\<exists>as i. actions t = as @ [Connect_cb False i] \<or>
      actions t = as @ [Connect_cb False i, Closed_port]"
proof -
  obtain u where "run_exit u = Ret () t" using assms by (auto simp: run_def seq_eq_Ret_iff)
  then show "\<not> running t" "has_serial t \<Longrightarrow> \<not> port_open t"
    "\<exists>as i. actions t = as @ [Connect_cb False i] \<or>
      actions t = as @ [Connect_cb False i, Closed_port]"
    using run_exit_Ret [of u t] by (blast, blast, metis append_assoc)
qed

text \<open>The exceptions that leave \<open>run\<close> come from its exit, outside the handlers.\<close>

lemma catch_all_Throw: "catch_all m = Throw e s \<Longrightarrow> e = Null_pointer"
  by (auto simp: catch_all_def split: outcome.splits if_splits)

section \<open>The frame rate command, all rates\<close>

text \<open>The command for a period of \<open>h\<close> hundredths of a millisecond.\<close>

definition fsync_text :: "int \<Rightarrow> string" where
  "fsync_text h = ''fsync '' @ dec_str (h div 100) @ ''.'' @ two_digits (h mod 100)"

lemma fsync_cmd_1_6:
  "\<forall>hz\<in>set [1, 2, 3, 4, 5, 6]. fsync_cmd hz = fsync_text ((200000 + hz) div (2 * hz))"
  by code_simp

lemma fsync_cmd_7_12:
  "\<forall>hz\<in>set [7, 8, 9, 10, 11, 12]. fsync_cmd hz = fsync_text ((200000 + hz) div (2 * hz))"
  by code_simp

lemma fsync_cmd_13_18:
  "\<forall>hz\<in>set [13, 14, 15, 16, 17, 18]. fsync_cmd hz = fsync_text ((200000 + hz) div (2 * hz))"
  by code_simp

lemma fsync_cmd_19_24:
  "\<forall>hz\<in>set [19, 20, 21, 22, 23, 24]. fsync_cmd hz = fsync_text ((200000 + hz) div (2 * hz))"
  by code_simp

lemma fsync_cmd_25_30:
  "\<forall>hz\<in>set [25, 26, 27, 28, 29, 30]. fsync_cmd hz = fsync_text ((200000 + hz) div (2 * hz))"
  by code_simp

lemma fsync_text_short: "\<forall>hz\<in>set [1, 2, 3, 4, 5, 6, 7, 8, 9, 10, 11, 12, 13, 14, 15, 16, 17, 18, 19, 20, 21, 22, 23, 24, 25, 26, 27, 28, 29, 30]. length (fsync_text ((200000 + hz) div (2 * hz))) < 15"
  by code_simp

section \<open>Properties\<close>

text \<open>C27: for every frame rate the setter lets through, the command sent is \<open>fsync\<close> with the period in
  milliseconds rounded to the nearest hundredth, and it always fits the 16-byte buffer.\<close>

theorem fsync_command_exact:
  assumes "1 \<le> hz" "hz \<le> 30"
  shows "fsync_cmd hz = fsync_text ((200000 + hz) div (2 * hz)) \<and> length (fsync_cmd hz) < 15"
proof -
  have hz: "hz \<in> set [1, 2, 3, 4, 5, 6] \<or> hz \<in> set [7, 8, 9, 10, 11, 12] \<or> hz \<in> set [13, 14, 15, 16, 17, 18] \<or> hz \<in> set [19, 20, 21, 22, 23, 24] \<or> hz \<in> set [25, 26, 27, 28, 29, 30]"
    "hz \<in> set [1, 2, 3, 4, 5, 6, 7, 8, 9, 10, 11, 12, 13, 14, 15, 16, 17, 18, 19, 20, 21, 22, 23, 24, 25, 26, 27, 28, 29, 30]"
    using assms by (simp; presburger)+
  have "fsync_cmd hz = fsync_text ((200000 + hz) div (2 * hz))"
    using hz(1) bspec [OF fsync_cmd_1_6] bspec [OF fsync_cmd_7_12] bspec [OF fsync_cmd_13_18]
      bspec [OF fsync_cmd_19_24] bspec [OF fsync_cmd_25_30] by blast
  then show ?thesis using bspec [OF fsync_text_short hz(2)] by simp
qed

lemma fsync_command_exact_witness: "fsync_cmd 30 = ''fsync 33.33''"
proof -
  have "fsync_text ((200000 + 30) div (2 * 30)) = ''fsync 33.33''"
    by code_simp
  then show ?thesis using fsync_command_exact [of 30] by simp
qed

text \<open>\<open>read_line_until\<close> ends for every input; a line it returns contains the text looked for unless
  the device is being stopped, and every return consumes input.\<close>

theorem read_line_until_finds:
  assumes "read_line_until f s = Ret line t"
  shows "(contains line f \<or> \<not> running t) \<and> length (rx_stream t) < length (rx_stream s)"
  using read_line_until_result [OF assms] read_line_until_consumes [OF assms] by simp

definition sample_dev :: "rx list \<Rightarrow> dev" where
  "sample_dev r = (new_dev [])\<lparr>rx_stream := r, running := True, has_serial := True, port_open := True\<rparr>"

lemma read_line_until_finds_witness:
  "contains ''tm=5\<newline>'' ''tm=''"
proof -
  have "read_line_until ''tm='' (sample_dev (map Rx_byte ''x\<newline>tm=5\<newline>'')) =
      Ret ''tm=5\<newline>'' (sample_dev [])"
    by code_simp
  then show ?thesis using read_line_until_finds by (fastforce simp: sample_dev_def)
qed

text \<open>C28: \<open>read_to_prompt\<close> returns only at a prompt: while the open port delivers no \<open>>\<close> it waits for
  ever, even when the device has been stopped.\<close>

theorem read_to_prompt_waits:
  assumes "has_serial s" "port_open s"
    and "Rx_byte (CHR ''>'') \<notin> set (rx_stream s)" "Rx_gone \<notin> set (rx_stream s)"
  shows "read_to_prompt s = Block (s\<lparr>rx_stream := []\<rparr>)"
  using assms prompt_loop_blocks [of "rx_stream s"] by (simp add: read_to_prompt_eq on_stream_def)

lemma read_to_prompt_waits_witness:
  "read_to_prompt ((sample_dev (Rx_quiet # map Rx_byte ''ok''))\<lparr>running := False\<rparr>) =
    Block ((sample_dev [])\<lparr>running := False\<rparr>)"
  using read_to_prompt_waits [of "(sample_dev (Rx_quiet # map Rx_byte ''ok''))\<lparr>running := False\<rparr>"]
  by (simp add: sample_dev_def)

text \<open>C5: when the connection phase ends with the device still running, the port is open, the firmware
  version passed the gate and the sensor is in the configured mode, whatever reboots it took.\<close>

theorem connected_device_is_ready:
  assumes "connect_phase kind as s = Ret () t" and "running t"
  shows "has_serial t \<and> port_open t \<and> info_mode (dev_info t) = dev_mode t \<and>
    is_supported_device (device_version (dev_info t)) = Inr True"
  using connect_phase_ready [OF assms] by (simp add: ready_def)

text \<open>A device that answers as an AS-DT1 in CDC mode, 20 m.\<close>

definition sample_attempt :: attempt where
  "sample_attempt = \<lparr>at_sysfs = sample_fs, at_devices = [''/dev/ttyACM0''], at_connects = [True]\<rparr>"

definition sample_answers :: "rx list" where
  "sample_answers = map Rx_byte
     ''flstart\<newline>cdc\<newline>>>ver\<newline>Version: 1.02\<newline>s\<newline>id:7 x\<newline>y\<newline>>flmode\<newline>20m\<newline>>''"

definition sample_start :: dev where
  "sample_start = (new_dev ''1234567'')\<lparr>rx_stream := sample_answers, running := True\<rparr>"

lemma connected_device_is_ready_witness:
  "running (final_state (connect_phase Kind_cdc [sample_attempt] sample_start)) \<and>
   info_mode (dev_info (final_state (connect_phase Kind_cdc [sample_attempt] sample_start))) = 0"
proof -
  let ?t = "final_state (connect_phase Kind_cdc [sample_attempt] sample_start)"
  have "is_ret (connect_phase Kind_cdc [sample_attempt] sample_start)" by code_simp
  then have r: "connect_phase Kind_cdc [sample_attempt] sample_start = Ret () ?t"
    by (cases "connect_phase Kind_cdc [sample_attempt] sample_start") simp_all
  moreover have "running ?t" "dev_mode ?t = 0" by code_simp+
  ultimately show ?thesis using connected_device_is_ready [OF r] by simp
qed

section \<open>Properties of the thread\<close>


definition sample_setup :: dev where
  "sample_setup = (sample_dev (map Rx_byte ''>>>>>>>>..END\<newline>''))\<lparr>frame_rate_hz := 1, dev_sync_mode := Sync_slave\<rparr>"


text \<open>C9: when \<open>run\<close> returns, the device is not running, its port is closed, and the last callback it
  made said that the device is disconnected.\<close>

theorem run_ends_stopped:
  assumes "run kind proc fuel attempts s = Ret () t"
  shows "\<not> running t \<and> (has_serial t \<longrightarrow> \<not> port_open t) \<and>
    (\<exists>as i. actions t = as @ [Connect_cb False i] \<or> actions t = as @ [Connect_cb False i, Closed_port])"
  using run_Ret [OF assms] by blast

lemma run_ends_stopped_witness:
  "\<not> port_open (final_state (run Kind_cdc (\<lambda>s. Ret () s) 1 []
     ((sample_dev (map Rx_byte ''>>''))\<lparr>running := False\<rparr>)))"
proof -
  let ?s = "(sample_dev (map Rx_byte ''>>''))\<lparr>running := False\<rparr>"
  let ?m = "run Kind_cdc (\<lambda>s. Ret () s) 1 [] ?s"
  have "is_ret ?m" by code_simp
  then have r: "?m = Ret () (final_state ?m)" by (cases ?m) simp_all
  have "has_serial (final_state ?m)" by code_simp
  then show ?thesis using run_ends_stopped [OF r] by blast
qed

lemma poll_stopped: "\<not> running s \<Longrightarrow> \<exists>t. poll s = (False, t) \<and> \<not> running t \<and>
    has_serial t = has_serial s \<and> port_open t = port_open s"
  by (auto simp: poll_def split: option.splits nat.splits)

text \<open>C10: when the device is stopped while its port is closed between two connection attempts (after the
  driver made the sensor reboot into another mode), the commands \<open>run\<close> sends on its way out throw, and the exception leaves the thread function.\<close>

theorem stop_during_reboot_throws:
  assumes "connect_phase kind as s = Ret () u" and "\<not> running u" and "has_serial u" "\<not> port_open u"
  shows "\<exists>t. run kind proc (Suc fuel) as s = Throw Port_not_opened t"
proof -
  obtain v where v: "poll u = (False, v)" "\<not> running v" "has_serial v" "\<not> port_open v"
    using poll_stopped [OF assms(2)] assms(3,4) by auto
  obtain w where w: "poll v = (False, w)" "\<not> running w" "has_serial w" "\<not> port_open w"
    using poll_stopped [OF v(2)] v(3,4) by auto
  obtain x where x: "poll w = (False, x)" "has_serial x" "\<not> port_open x"
    using poll_stopped [OF w(2)] w(3,4) by auto
  show ?thesis
    using assms(1) v w x
    by (simp add: run_def setup_phase_def catch_all_def run_exit_def send_and_receive_ack_def serial_write_def)
qed

definition sample_reboot :: dev where
  "sample_reboot = (new_dev ''1234567'')\<lparr>running := True, stop_in := Some 3,
     rx_stream := map Rx_byte ''flstart\<newline>hist\<newline>>flstart cdc\<newline>reboot\<newline>''\<rparr>"

lemma stop_during_reboot_throws_witness:
  "\<exists>t. run Kind_cdc (\<lambda>s. Ret () s) (Suc 0) [sample_attempt, sample_attempt] sample_reboot = Throw Port_not_opened t"
proof -
  let ?m = "connect_phase Kind_cdc [sample_attempt, sample_attempt] sample_reboot"
  have "is_ret ?m" by code_simp
  then have r: "?m = Ret () (final_state ?m)" by (cases ?m) simp_all
  have "\<not> running (final_state ?m)" "has_serial (final_state ?m)" "\<not> port_open (final_state ?m)"
    by code_simp+
  then show ?thesis by (rule stop_during_reboot_throws [OF r])
qed

end
