(* ===== verification/Imu.thy ===== *)
theory Imu
  imports Device_IO
begin

text \<open>
  The IMU block and the timestamps of a frame (\<open>device/dt1_device.cpp\<close>:
  \<open>read_imu\<close>, \<open>read_timestamp\<close>, \<open>unpack_imu_data\<close>). Records of 16 bytes arrive until
  the bytes \<open>END\<close>; unpacking gives every record the time of the last reset record plus
  10 ms per record after it.
\<close>

section \<open>Reading the block\<close>

text \<open>
  The loop \<open>while (read_count < n) read_count += _serial->read(...)\<close>: \<open>acc\<close> holds the
  bytes already in the line.
\<close>

lemma stream_read_consumes:
  "stream_read n acc r = Ret x r' \<Longrightarrow> 0 < n \<Longrightarrow> length r' < length r"
proof (induction n acc r rule: stream_read.induct)
  case (3 n acc c r)
  then show ?case by (cases n) auto
qed auto

lemma serial_read_consumes:
  "serial_read n s = Ret x t \<Longrightarrow> 0 < n \<Longrightarrow> length (rx_stream t) < length (rx_stream s)"
  unfolding serial_read_def by (rule on_stream_consumes) (rule stream_read_consumes)

function read_bytes :: "nat \<Rightarrow> string \<Rightarrow> dev \<Rightarrow> (string, dev) outcome" where
  "read_bytes n acc s =
     (if n \<le> length acc then Ret acc s
      else case serial_read (n - length acc) s of
             Ret x t \<Rightarrow> read_bytes n (acc @ x) t
           | Throw e t \<Rightarrow> Throw e t
           | Block t \<Rightarrow> Block t)"
  by pat_completeness auto
termination
  by (relation "measure (\<lambda>(n, acc, s). length (rx_stream s))") (auto dest!: serial_read_consumes)

declare read_bytes.simps [simp del]

lemma read_bytes_later: "later s (final_state (read_bytes n acc s))"
proof (induction n acc s rule: read_bytes.induct)
  case (1 n acc s)
  have s1: "later s (final_state (serial_read (n - length acc) s))"
    by (rule dev_op.keeps [OF dev_op_serial_read])
  show ?case
  proof (cases "n \<le> length acc")
    case True
    then show ?thesis by (subst read_bytes.simps) simp
  next
    case False
    show ?thesis
    proof (cases "serial_read (n - length acc) s")
      case (Ret x t)
      then have "later t (final_state (read_bytes n (acc @ x) t))" using "1.IH" False by blast
      moreover have "later s t" using s1 Ret by simp
      ultimately show ?thesis using Ret False later_trans by (subst read_bytes.simps) auto
    qed (use s1 False in \<open>subst read_bytes.simps, simp\<close>)+
  qed
qed

lemma dev_op_read_bytes [dev_ops]: "dev_op (read_bytes n acc)"
  by unfold_locales (rule read_bytes_later)

lemma read_bytes_consumes:
  assumes "read_bytes n acc s = Ret x t" and "length acc < n"
  shows "length (rx_stream t) < length (rx_stream s)"
proof -
  obtain y u where u: "serial_read (n - length acc) s = Ret y u" "read_bytes n (acc @ y) u = Ret x t"
    using assms by (subst (asm) read_bytes.simps) (auto split: outcome.splits)
  have "length (rx_stream t) \<le> length (rx_stream u)"
    using laterD(1) dev_op.ret_later [OF dev_op_read_bytes u(2)] by blast
  then show ?thesis using serial_read_consumes [OF u(1)] assms(2) by simp
qed

text \<open>
  The loop of \<open>read_imu\<close>. A record is kept as its 16 bytes; \<open>END\<close> is looked for in the
  first three.
\<close>

function imu_loop :: "dev \<Rightarrow> (unit, dev) outcome" where
  "imu_loop s =
     (case poll s of (r, s1) \<Rightarrow>
        if \<not> r then Ret () s1
        else case read_bytes 3 [] s1 of
               Ret h s2 \<Rightarrow>
                 if h = ''END'' then Ret () s2
                 else (case read_bytes 16 h s2 of
                         Ret rec s3 \<Rightarrow> imu_loop (s3\<lparr>imu_data := imu_data s3 @ [map byte_of rec]\<rparr>)
                       | Throw e s3 \<Rightarrow> Throw e s3
                       | Block s3 \<Rightarrow> Block s3)
             | Throw e s2 \<Rightarrow> Throw e s2
             | Block s2 \<Rightarrow> Block s2)"
  by pat_completeness auto
termination
  apply (relation "measure (\<lambda>s. length (rx_stream s))")
   apply simp
  subgoal for s x s1 h s2 bytes s3
    using read_bytes_consumes [of 3 "[]" s1 h s2] laterD(1) [of s2 s3] laterD(1) [of s s1]
      dev_op.ret_later [OF dev_op_read_bytes, of 16 h s2 bytes s3] poll_later [of s x s1]
    apply simp
    done
  done

declare imu_loop.simps [simp del]

definition read_imu :: "dev \<Rightarrow> (unit, dev) outcome" where
  "read_imu s = seq (read_line_until ''BEGIN IMU'' (s\<lparr>imu_data := []\<rparr>)) (\<lambda>_. imu_loop)"

section \<open>Timestamps\<close>

text \<open>
  \<open>sscanf(line, "tm=%" SCNu64, &timestamp)\<close> as the C library converts: blanks, a sign, digits; the
  value saturates at \<open>2 ^ 64 - 1\<close> and a minus sign negates it modulo \<open>2 ^ 64\<close>. Without
  a conversion \<open>timestamp\<close> stays 0.
\<close>

definition scan_u64 :: "string \<Rightarrow> u64 option" where
  "scan_u64 s =
     (let t = dropWhile isspace s;
          neg = (case t of c # _ \<Rightarrow> c = CHR ''-'' | [] \<Rightarrow> False);
          ds = takeWhile isdigit (case t of c # cs \<Rightarrow> if c = CHR ''-'' \<or> c = CHR ''+'' then cs else t | [] \<Rightarrow> [])
      in if ds = [] then None
         else let n = digits_val 0 ds
              in Some (if 2 ^ 64 \<le> n then - 1
                       else if neg then - word_of_int n else word_of_int n))"

definition scan_tm :: "string \<Rightarrow> u64" where
  "scan_tm line =
     (if starts_with line ''tm='' then (case scan_u64 (drop 3 line) of Some v \<Rightarrow> v | None \<Rightarrow> 0)
      else 0)"

definition read_timestamp :: "dev \<Rightarrow> (u64, dev) outcome" where
  "read_timestamp s =
     seq (read_line_until ''tm='' s) (\<lambda>line s.
       if line = [] then Ret 0 s else Ret (scan_tm (c_str line)) s)"

section \<open>Unpacking\<close>

definition accel_scale :: ieee where
  "accel_scale = f_div binary64 (round_frac binary64 False 981 100) (f_of_int binary64 8192)"

definition m_pi :: ieee where
  "m_pi = F_Fin False 7074237752028440 (- 51)"

definition gyro_scale :: ieee where
  "gyro_scale =
     f_div binary64
       (f_mul binary64 (f_div binary64 (f_of_int binary64 500) (f_of_int binary64 32768)) m_pi)
       (f_of_int binary64 180)"

text \<open>The big-endian 16-bit fields: \<open>static_cast<uint16_t>(a) << 8 | b\<close>.\<close>

definition be16 :: "u8 \<Rightarrow> u8 \<Rightarrow> u16" where
  "be16 a b = push_bit 8 (ucast a) OR ucast b"

definition scaled :: "ieee \<Rightarrow> u16 \<Rightarrow> ieee" where
  "scaled k w = f_cast binary32 (f_mul binary64 (f_of_int binary64 (sint w)) k)"

definition imu_sample_of :: "u64 \<Rightarrow> u8 list \<Rightarrow> imu_sample" where
  "imu_sample_of ts d =
     \<lparr>is_timestamp = ts,
      is_accel = [scaled accel_scale (be16 (d ! 3) (d ! 4)), scaled accel_scale (be16 (d ! 1) (d ! 2)),
                  scaled accel_scale (be16 (d ! 5) (d ! 6))],
      is_gyro = [scaled gyro_scale (be16 (d ! 9) (d ! 10)), scaled gyro_scale (be16 (d ! 7) (d ! 8)),
                 scaled gyro_scale (be16 (d ! 11) (d ! 12))],
      is_temp = uint (d ! 13)\<rparr>"

text \<open>
  The loop of \<open>unpack_imu_data\<close> over the records still to unpack: the samples it adds and the
  new \<open>_latest_imu_sample_ts\<close>, a signed 64-bit value kept as its word.
\<close>

definition imu_reset :: "u8 list \<Rightarrow> bool" where
  "imu_reset d \<longleftrightarrow> hd d = 0x6C"

definition next_ts :: "u64 \<Rightarrow> u8 list \<Rightarrow> u64 \<Rightarrow> u64" where
  "next_ts frame_ts d latest =
     (if imu_reset d then frame_ts + ucast (be16 (d ! 14) (d ! 15)) * 1000
      else if 0 < sint latest then latest + 10000000
      else latest)"

fun unpack_loop :: "u64 \<Rightarrow> u64 \<Rightarrow> bool \<Rightarrow> u64 \<Rightarrow> u8 list list \<Rightarrow> imu_sample list \<times> u64" where
  "unpack_loop frame_ts off got_reset latest [] = ([], latest)"
| "unpack_loop frame_ts off got_reset latest (d # ds) =
     (if imu_reset d \<and> got_reset then ([], latest)
      else
        let latest' = next_ts frame_ts d latest;
            (ss, fin) = unpack_loop frame_ts off (got_reset \<or> imu_reset d) latest' ds
        in (if 0 < sint latest' then imu_sample_of (latest' + off) d # ss else ss, fin))"

definition unpack_imu_data :: "u64 \<Rightarrow> dev \<Rightarrow> dev" where
  "unpack_imu_data frame_ts s =
     (case unpack_loop frame_ts (clock_offset s) False (latest_imu_sample_ts s) (imu_data s) of
        (ss, latest) \<Rightarrow> s\<lparr>imu_samples := ss, latest_imu_sample_ts := latest\<rparr>)"

section \<open>What the frame readers share\<close>

text \<open>The clock offset from the end timestamp of a frame, and the two callbacks.\<close>

definition sync_clock :: "u64 \<Rightarrow> dev \<Rightarrow> dev" where
  "sync_clock end_ts s = (case now s of (receive_ts, s) \<Rightarrow> s\<lparr>clock_offset := receive_ts - end_ts\<rparr>)"

definition publish_cloud :: "u64 \<Rightarrow> dev \<Rightarrow> dev" where
  "publish_cloud frame_ts s =
     (case poll s of (r, s) \<Rightarrow>
        if r then act (Cloud_cb (frame_ts + clock_offset s) (point_cloud s)) s else s)"

definition publish_imu :: "dev \<Rightarrow> dev" where
  "publish_imu s =
     (case poll s of (r, s) \<Rightarrow>
        if r \<and> imu_samples s \<noteq> [] then act (Imu_cb (imu_samples s)) s else s)"

section \<open>The contract of the readers\<close>

lemma later_imu_data [simp]: "later s (t\<lparr>imu_data := d\<rparr>) \<longleftrightarrow> later s t"
  "later (s\<lparr>imu_data := d\<rparr>) t \<longleftrightarrow> later s t"
  by (simp_all add: later_def config_def)

lemma imu_loop_later: "later s (final_state (imu_loop s))"
proof (induction s rule: imu_loop.induct)
  case (1 s)
  obtain r s1 where p: "poll s = (r, s1)" by (cases "poll s")
  have s1: "later s s1" by (rule poll_later [OF p])
  have b: "later s1 (final_state (read_bytes 3 [] s1))" by (rule read_bytes_later)
  show ?case
  proof (cases r)
    case True
    note r = this
    show ?thesis
    proof (cases "read_bytes 3 [] s1")
      case (Ret h s2)
      have s2: "later s s2" using s1 b Ret later_trans by auto
      have c: "later s2 (final_state (read_bytes 16 h s2))" by (rule read_bytes_later)
      show ?thesis
      proof (cases "h = ''END'' \<or> \<not> is_ret (read_bytes 16 h s2)")
        case True
        then show ?thesis
          using p r Ret s2 later_trans [OF s2 c]
          by (subst imu_loop.simps) (auto split: outcome.splits)
      next
        case False
        then obtain d s3 where s3: "read_bytes 16 h s2 = Ret d s3" "h \<noteq> ''END''"
          by (cases "read_bytes 16 h s2") auto
        let ?s4 = "s3\<lparr>imu_data := imu_data s3 @ [map byte_of d]\<rparr>"
        have "later ?s4 (final_state (imu_loop ?s4))"
          using "1.IH" p r Ret s3 by simp
        moreover have "later s ?s4" using later_trans [OF s2 c] s3 by simp
        ultimately have "later s (final_state (imu_loop ?s4))" by (rule later_trans [rotated])
        then show ?thesis using p r Ret s3 by (subst imu_loop.simps) simp
      qed
    qed (use p r s1 b in \<open>subst imu_loop.simps, auto intro: later_trans\<close>)+
  qed (use p s1 in \<open>subst imu_loop.simps, simp\<close>)
qed

lemma dev_op_imu_loop [dev_ops]: "dev_op imu_loop"
  by unfold_locales (rule imu_loop_later)

lemma consuming_read_imu: "consuming_op read_imu"
proof -
  have "consuming_op (\<lambda>s. seq (read_line_until ''BEGIN IMU'' s) (\<lambda>_. imu_loop))"
    by (rule consuming_seq [OF consuming_read_line_until dev_op_imu_loop])
  then have c: "later s (final_state (seq (read_line_until ''BEGIN IMU'' s) (\<lambda>_. imu_loop)))"
    "seq (read_line_until ''BEGIN IMU'' s) (\<lambda>_. imu_loop) = Ret x t \<Longrightarrow>
      length (rx_stream t) < length (rx_stream s)" for s x t
    by (blast dest: consuming_op.axioms(1) dev_op.keeps consuming_op.consumes)+
  show ?thesis
  proof (intro consuming_op.intro consuming_op_axioms.intro dev_op.intro)
    fix s :: dev
    show "later s (final_state (read_imu s))"
      using c(1) [of "s\<lparr>imu_data := []\<rparr>"] by (simp add: read_imu_def)
    fix x t
    assume "read_imu s = Ret x t"
    then show "length (rx_stream t) < length (rx_stream s)"
      using c(2) [of "s\<lparr>imu_data := []\<rparr>"] by (simp add: read_imu_def)
  qed
qed

lemma consuming_read_timestamp: "consuming_op read_timestamp"
  unfolding read_timestamp_def
  by (intro consuming_seq consuming_read_line_until dev_op_if dev_op_Ret later_refl)

interpretation imu_rd: consuming_op read_imu
  by (rule consuming_read_imu)

interpretation tm_rd: consuming_op read_timestamp
  by (rule consuming_read_timestamp)

lemma later_unpack_imu [simp]: "later s (unpack_imu_data ts s)"
  by (simp add: unpack_imu_data_def later_def config_def split: prod.split)

section \<open>Reading is byte by byte\<close>

text \<open>
  The reference: the next \<open>n\<close> bytes, whatever the silences between them, and the rest of
  the stream. The partial reads of \<open>read_bytes\<close> give the same bytes and leave the same rest.
\<close>

fun take_bytes :: "nat \<Rightarrow> rx list \<Rightarrow> (string \<times> rx list) option" where
  "take_bytes 0 r = Some ([], r)"
| "take_bytes (Suc n) [] = None"
| "take_bytes (Suc n) (Rx_byte c # r) = map_option (\<lambda>(bs, r'). (c # bs, r')) (take_bytes n r)"
| "take_bytes (Suc n) (Rx_quiet # r) = take_bytes (Suc n) r"
| "take_bytes (Suc n) (Rx_gone # r) = None"

lemma take_bytes_add:
  "take_bytes (m + n) r = Some (bs, r') \<Longrightarrow>
   \<exists>u. take_bytes m r = Some (take m bs, u) \<and> take_bytes n u = Some (drop m bs, r')"
proof (induction m r arbitrary: bs rule: take_bytes.induct)
  case (3 k c r)
  then show ?case by fastforce
qed auto

lemma take_bytes_length: "take_bytes n r = Some (bs, r') \<Longrightarrow> length bs = n"
  by (induction n r arbitrary: bs rule: take_bytes.induct) auto

lemma stream_read_take:
  "take_bytes n r = Some (bs, r') \<Longrightarrow>
   \<exists>x t. stream_read n acc r = Ret (acc @ x) t \<and> length x \<le> n \<and> x = take (length x) bs \<and>
     take_bytes (n - length x) t = Some (drop (length x) bs, r')"
proof (induction r arbitrary: n acc bs)
  case Nil
  then show ?case by (cases n) auto
next
  case (Cons e r)
  show ?case
  proof (cases n)
    case (Suc k)
    show ?thesis
    proof (cases e)
      case (Rx_byte c)
      then obtain cs where cs: "bs = c # cs" "take_bytes k r = Some (cs, r')"
        using Cons.prems Suc by auto
      obtain x t where "stream_read k (acc @ [c]) r = Ret ((acc @ [c]) @ x) t" "length x \<le> k"
        "x = take (length x) cs" "take_bytes (k - length x) t = Some (drop (length x) cs, r')"
        using Cons.IH [OF cs(2)] by blast
      then show ?thesis using Rx_byte Suc cs(1) by (intro exI [of _ "c # x"] exI [of _ t]) simp
    qed (use Cons.prems Suc in auto)
  qed (use Cons.prems in simp)
qed

lemma read_bytes_take:
  "has_serial s \<Longrightarrow> port_open s \<Longrightarrow> length acc \<le> n \<Longrightarrow>
   take_bytes (n - length acc) (rx_stream s) = Some (bs, r) \<Longrightarrow>
   read_bytes n acc s = Ret (acc @ bs) (s\<lparr>rx_stream := r\<rparr>)"
proof (induction n acc s arbitrary: bs rule: read_bytes.induct)
  case (1 n acc s)
  show ?case
  proof (cases "n \<le> length acc")
    case True
    then show ?thesis using "1.prems" by (subst read_bytes.simps) simp
  next
    case False
    obtain x t where x: "stream_read (n - length acc) [] (rx_stream s) = Ret x t"
      "length x \<le> n - length acc" "x = take (length x) bs"
      "take_bytes (n - length acc - length x) t = Some (drop (length x) bs, r)"
      using stream_read_take [OF "1.prems"(4), of "[]"] by auto
    then have sr: "serial_read (n - length acc) s = Ret x (s\<lparr>rx_stream := t\<rparr>)"
      using "1.prems" by (simp add: serial_read_def on_stream_def)
    have "read_bytes n (acc @ x) (s\<lparr>rx_stream := t\<rparr>) =
        Ret ((acc @ x) @ drop (length x) bs) (s\<lparr>rx_stream := t, rx_stream := r\<rparr>)"
      using "1.prems" x False by (intro "1.IH" [OF False sr]) auto
    moreover have "x @ drop (length x) bs = bs" using x(3) by (metis append_take_drop_id)
    ultimately show ?thesis using False sr by (subst read_bytes.simps) simp
  qed
qed

lemma imu_loop_records:
  assumes "has_serial s" "port_open s" "running s" "stop_in s = None"
    and "\<forall>d\<in>set recs. length d = 16 \<and> take 3 d \<noteq> ''END''"
    and "take_bytes (16 * length recs + 3) (rx_stream s) = Some (concat recs @ ''END'', r)"
  shows "imu_loop s = Ret () (s\<lparr>rx_stream := r, imu_data := imu_data s @ map (map byte_of) recs\<rparr>)"
  using assms
proof (induction recs arbitrary: s)
  case Nil
  have "read_bytes 3 [] s = Ret ([] @ ''END'') (s\<lparr>rx_stream := r\<rparr>)"
    using Nil by (intro read_bytes_take) simp_all
  then show ?case using Nil by (subst imu_loop.simps) (simp add: poll_def)
next
  case (Cons d recs)
  let ?bs = "concat (d # recs) @ ''END''"
  have d: "length d = 16" "take 3 d \<noteq> ''END''" using Cons.prems by auto
  have "take_bytes (3 + (13 + (16 * length recs + 3))) (rx_stream s) = Some (?bs, r)"
    using Cons.prems(6) by (simp add: algebra_simps)
  then obtain u1 where u1: "take_bytes 3 (rx_stream s) = Some (take 3 d, u1)"
    "take_bytes (13 + (16 * length recs + 3)) u1 = Some (drop 3 ?bs, r)"
    using take_bytes_add d by fastforce
  then obtain u2 where u2: "take_bytes 13 u1 = Some (drop 3 d, u2)"
    "take_bytes (16 * length recs + 3) u2 = Some (concat recs @ ''END'', r)"
    using take_bytes_add [OF u1(2)] d by auto
  have r3: "read_bytes 3 [] s = Ret ([] @ take 3 d) (s\<lparr>rx_stream := u1\<rparr>)"
    using Cons.prems u1 by (intro read_bytes_take) simp_all
  have r16: "read_bytes 16 (take 3 d) (s\<lparr>rx_stream := u1\<rparr>) =
      Ret (take 3 d @ drop 3 d) (s\<lparr>rx_stream := u1, rx_stream := u2\<rparr>)"
    using Cons.prems u2(1) d by (intro read_bytes_take) simp_all
  let ?s4 = "s\<lparr>rx_stream := u2, imu_data := imu_data s @ [map byte_of d]\<rparr>"
  have "imu_loop ?s4 = Ret () (?s4\<lparr>rx_stream := r, imu_data := imu_data ?s4 @ map (map byte_of) recs\<rparr>)"
    using Cons.prems u2(2) by (intro Cons.IH) simp_all
  then show ?case using Cons.prems(3,4) d r3 r16 by (subst imu_loop.simps) (simp add: poll_def)
qed

section \<open>Timestamps round trip\<close>

lemma isdigit_not_special:
  "isdigit c \<Longrightarrow> c \<noteq> CHR ''-'' \<and> c \<noteq> CHR ''+'' \<and> \<not> isspace c"
  by (auto simp: isdigit_def isspace_def)

lemma scan_u64_dec_str:
  assumes n: "0 \<le> n" "n < 2 ^ 64" and suf: "suf = [] \<or> \<not> isdigit (hd suf)"
  shows "scan_u64 (dec_str n @ suf) = Some (word_of_int n)"
proof -
  obtain c cs where c: "dec_str n = c # cs" using dec_str_val(1) [OF n(1)] by (cases "dec_str n") auto
  then have dig: "isdigit c" "list_all isdigit cs" using dec_str_val(2) [OF n(1)] by simp_all
  have tw: "takeWhile isdigit (cs @ suf) = cs"
    using dig(2) suf by (subst takeWhile_append2) (auto simp: list_all_iff takeWhile_eq_Nil_iff)
  have "digits_val 0 (c # cs) = n" using dec_str_val(3) [OF n(1)] c by simp
  then show ?thesis
    using isdigit_not_special [OF dig(1)] dig(1) tw n c by (simp add: scan_u64_def Let_def del: digits_val.simps)
qed

lemma scan_tm_dec_str:
  "0 \<le> n \<Longrightarrow> n < 2 ^ 64 \<Longrightarrow> suf = [] \<or> \<not> isdigit (hd suf) \<Longrightarrow>
   scan_tm (''tm='' @ dec_str n @ suf) = word_of_int n"
  using scan_u64_dec_str [of n suf] by (simp add: scan_tm_def starts_with_def)

section \<open>Samples\<close>

lemma uint_ucast16: "uint (ucast (a :: u8) :: u16) = uint a"
  using uint_bounded [of a] by (simp add: unsigned_ucast_eq take_bit_int_eq_self)
lemma uint_be16: "uint (be16 a b) = 256 * uint a + uint b"
proof -
  have a: "uint a < 256" "0 \<le> uint a" and b: "uint b < 256" "0 \<le> uint b"
    using uint_bounded [of a] uint_bounded [of b] by simp_all
  have "push_bit 8 (ucast a :: u16) AND ucast b = 0"
    by (rule bit_word_eqI) (auto simp: bit_simps dest: bit_imp_le_length)
  then have "be16 a b = push_bit 8 (ucast a) + ucast b"
    using word_plus_and_or [of "push_bit 8 (ucast a :: u16)" "ucast b"] by (simp add: be16_def)
  also have "push_bit 8 (ucast a :: u16) = ucast a * 256"
    by (simp add: push_bit_eq_mult)
  finally have "uint (be16 a b) = (uint a * 256 mod 2 ^ 16 + uint b) mod 2 ^ 16"
    by (simp add: uint_word_ariths uint_ucast16)
  then show ?thesis using a b by simp
qed

text \<open>The times of \<open>n\<close> records after the time \<open>t\<close>: 10 ms apart.\<close>

definition imu_times :: "u64 \<Rightarrow> nat \<Rightarrow> u64 list" where
  "imu_times t n = map (\<lambda>i. t + word_of_nat (Suc i) * 10000000) [0..<n]"

lemma imu_times_Suc: "imu_times t (Suc n) = (t + 10000000) # imu_times (t + 10000000) n"
proof -
  have "imu_times t (Suc n) =
      (t + word_of_nat (Suc 0) * 10000000) # map (\<lambda>i. t + word_of_nat (Suc (Suc i)) * 10000000) [0..<n]"
    unfolding imu_times_def by (simp only: upt_conv_Cons map_Suc_upt [symmetric] map_map comp_def) simp
  then show ?thesis by (simp add: imu_times_def algebra_simps)
qed

lemma sint_u64_pos: "uint (w :: u64) < 2 ^ 63 \<Longrightarrow> sint w = uint w"
  by (subst sint_uint) (simp add: signed_take_bit_eq_if_positive bit_iff_odd take_bit_int_eq_self)

lemma unpack_segment:
  assumes "\<forall>d\<in>set ds. \<not> imu_reset d" and "0 < uint latest"
    and "uint latest + 10000000 * int (length ds) < 2 ^ 63"
  shows "unpack_loop fts off g latest (ds @ es) =
    (case unpack_loop fts off g (latest + word_of_nat (length ds) * 10000000) es of
       (ss, fin) \<Rightarrow> (map2 (\<lambda>t. imu_sample_of (t + off)) (imu_times latest (length ds)) ds @ ss, fin))"
  using assms
proof (induction ds arbitrary: latest)
  case Nil
  then show ?case by (simp add: imu_times_def split: prod.split)
next
  case (Cons d ds)
  have u: "uint (latest + 10000000) = uint latest + 10000000"
    using Cons.prems by (simp add: uint_word_ariths)
  have s0: "0 < sint latest" using Cons.prems sint_u64_pos [of latest] by simp
  have s1: "0 < sint (latest + 10000000)"
    using Cons.prems sint_u64_pos [of "latest + 10000000"] u by simp
  have "unpack_loop fts off g (latest + 10000000) (ds @ es) =
    (case unpack_loop fts off g (latest + 10000000 + word_of_nat (length ds) * 10000000) es of
       (ss, fin) \<Rightarrow> (map2 (\<lambda>t. imu_sample_of (t + off)) (imu_times (latest + 10000000) (length ds)) ds @ ss, fin))"
    using Cons.prems u by (intro Cons.IH) auto
  then show ?case
    using Cons.prems(1) s0 s1
    by (simp add: next_ts_def Let_def imu_times_Suc algebra_simps split: prod.splits)
qed

lemma unpack_unknown:
  assumes "\<forall>d\<in>set ds. \<not> imu_reset d" and "sint latest \<le> 0"
  shows "unpack_loop fts off g latest (ds @ es) = unpack_loop fts off g latest es"
  using assms by (induction ds) (auto simp: next_ts_def Let_def split: prod.splits)

lemma unpack_second_reset:
  "imu_reset d \<Longrightarrow> unpack_loop fts off True latest (d # ds) = ([], latest)"
  by simp

lemma unpack_loop_length: "length (fst (unpack_loop fts off g latest ds)) \<le> length ds"
  by (induction fts off g latest ds rule: unpack_loop.induct) (auto simp: Let_def split: prod.splits)

text \<open>A frame with a reset record, from a device whose sample time is not known yet.\<close>

lemma unpack_first_frame:
  assumes pre: "\<forall>d\<in>set pre. \<not> imu_reset d" and r: "imu_reset r" and post: "\<forall>d\<in>set post. \<not> imu_reset d"
    and rest: "rest = [] \<or> imu_reset (hd rest)" and unknown: "sint latest \<le> 0"
    and t: "t = fts + ucast (be16 (r ! 14) (r ! 15)) * 1000" "0 < uint t"
      "uint t + 10000000 * int (length post) < 2 ^ 63"
  shows "unpack_loop fts off False latest (pre @ r # post @ rest) =
    (imu_sample_of (t + off) r # map2 (\<lambda>x. imu_sample_of (x + off)) (imu_times t (length post)) post,
     t + word_of_nat (length post) * 10000000)"
proof -
  have rest': "unpack_loop fts off True u rest = ([], u)" for u
    using rest by (cases rest) auto
  have "0 < sint t" using t sint_u64_pos [of t] by simp
  moreover have "next_ts fts r latest = t" using r t by (simp add: next_ts_def)
  ultimately show ?thesis
    using unpack_unknown [OF pre unknown] unpack_segment [OF post t(2,3), of fts off True rest] r
    by (simp add: Let_def rest')
qed

lemma later_sync_clock [simp]: "later s (sync_clock e s)"
proof -
  obtain t u where n: "now s = (t, u)" by (cases "now s")
  then have "later s u" by (rule later_now)
  then show ?thesis using n by (simp add: sync_clock_def later_def config_def)
qed

lemma later_poll_act:
  "later s (case poll s of (r, t) \<Rightarrow> if b r t then act (g t) t else t)"
  using later_poll [of s] later_act later_trans by (cases "poll s") auto

lemma later_publish_cloud [simp]: "later s (publish_cloud ts s)"
  unfolding publish_cloud_def by (rule later_poll_act)

lemma later_publish_imu [simp]: "later s (publish_imu s)"
  unfolding publish_imu_def by (rule later_poll_act)

section \<open>Properties\<close>

text \<open>The IMU block is read record by record whatever the sizes of the partial reads and the silences
  between them: the records are those sent up to \<open>END\<close>, and exactly the bytes of the block are consumed.\<close>

theorem imu_block_read:
  assumes "has_serial s" "port_open s" "running s" "stop_in s = None"
    and "\<forall>d\<in>set recs. length d = 16 \<and> take 3 d \<noteq> ''END''"
    and "take_bytes (16 * length recs + 3) (rx_stream s) = Some (concat recs @ ''END'', r)"
  shows "imu_loop s = Ret () (s\<lparr>rx_stream := r, imu_data := imu_data s @ map (map byte_of) recs\<rparr>)"
  using assms by (rule imu_loop_records)

definition sample_imu :: dev where
  "sample_imu = (new_dev [])\<lparr>running := True, has_serial := True, port_open := True,
     rx_stream := map Rx_byte ''lEN'' @ Rx_quiet # map Rx_byte ''D567890123456EN'' @ [Rx_quiet, Rx_byte (CHR ''D'')]\<rparr>"

lemma imu_block_read_witness: "length (imu_data (final_state (imu_loop sample_imu))) = 1"
proof -
  have "take_bytes (16 * length [''lEND567890123456''] + 3) (rx_stream sample_imu) =
      Some (concat [''lEND567890123456''] @ ''END'', [])"
    by (simp add: sample_imu_def numeral_eq_Suc)
  then have "imu_loop sample_imu =
      Ret () (sample_imu\<lparr>rx_stream := [], imu_data := imu_data sample_imu @ map (map byte_of) [''lEND567890123456'']\<rparr>)"
    by (intro imu_block_read) (simp_all add: sample_imu_def new_dev_def)
  then show ?thesis by (simp add: sample_imu_def new_dev_def)
qed

text \<open>A timestamp line parses back to the number printed in it, for every 64-bit value.\<close>

theorem timestamp_roundtrip:
  assumes "0 \<le> n" "n < 2 ^ 64" and "suf = [] \<or> \<not> isdigit (hd suf)"
  shows "scan_tm (''tm='' @ dec_str n @ suf) = word_of_int n"
  using assms by (rule scan_tm_dec_str)

lemma timestamp_roundtrip_witness: "scan_tm ''tm=18446744073709551615\<newline>'' = - 1"
proof -
  have "dec_str (2 ^ 64 - 1) = ''18446744073709551615''" by code_simp
  then show ?thesis using timestamp_roundtrip [of "2 ^ 64 - 1" "''\<newline>''"] by (simp add: isdigit_def)
qed

text \<open>C8: in the first frame with a reset record, the samples are those from the reset record on, up to a
  second reset; their times start at the frame time plus the offset in the record and are exactly 10 ms apart.\<close>

theorem imu_times_after_reset:
  assumes "\<forall>d\<in>set pre. \<not> imu_reset d" and "imu_reset r" and "\<forall>d\<in>set post. \<not> imu_reset d"
    and "rest = [] \<or> imu_reset (hd rest)" and "sint latest \<le> 0"
    and "t = fts + ucast (be16 (r ! 14) (r ! 15)) * 1000" "0 < uint t"
      "uint t + 10000000 * int (length post) < 2 ^ 63"
  shows "unpack_loop fts off False latest (pre @ r # post @ rest) =
    (imu_sample_of (t + off) r # map2 (\<lambda>x. imu_sample_of (x + off)) (imu_times t (length post)) post,
     t + word_of_nat (length post) * 10000000)"
  using assms by (rule unpack_first_frame)

definition sample_record :: "u8 \<Rightarrow> u8 list" where
  "sample_record h = [h, 0, 1, 0, 2, 0, 3, 0, 4, 0, 5, 0, 6, 40, 0, 7]"

lemma imu_times_after_reset_witness:
  "map is_timestamp (fst (unpack_loop 1000000 5 False (- 1)
     [sample_record 0, sample_record 0x6C, sample_record 1, sample_record 0x6C])) = [1007005, 11007005]"
  using imu_times_after_reset [of "[sample_record 0]" "sample_record 0x6C" "[sample_record 1]" "[sample_record 0x6C]"
      "- 1" 1007000 1000000 5]
  by (simp add: sample_record_def imu_reset_def be16_def imu_times_def imu_sample_of_def)

text \<open>between resets the 10 ms clock of the samples goes on from frame to frame.\<close>

theorem imu_times_go_on:
  assumes "\<forall>d\<in>set ds. \<not> imu_reset d" and "0 < uint latest"
    and "uint latest + 10000000 * int (length ds) < 2 ^ 63"
  shows "unpack_loop fts off False latest ds =
    (map2 (\<lambda>t. imu_sample_of (t + off)) (imu_times latest (length ds)) ds,
     latest + word_of_nat (length ds) * 10000000)"
  using unpack_segment [OF assms, of fts off False "[]"] by simp

lemma imu_times_go_on_witness:
  "map is_timestamp (fst (unpack_loop 0 0 False 5 [sample_record 0, sample_record 1])) = [10000005, 20000005]"
  using imu_times_go_on [of "[sample_record 0, sample_record 1]" 5 0 0]
  by (simp add: sample_record_def imu_reset_def imu_times_def imu_sample_of_def upt_rec)

end
