(* ===== verification/Cdc.thy ===== *)
theory Cdc
  imports Imu Device_Run
begin

text \<open>
  The point-cloud reader of a device in XYZ mode (\<open>device/dt1_device_cdc.cpp\<close>). A frame is
  a timestamp line, a block of 15 bytes per point in the order of the sensor's lines, the
  IMU block and the end timestamp; points are written in scan order.
\<close>

section \<open>Points\<close>

definition line_order :: "nat list" where
  "line_order = [0, 2, 12, 14, 4, 6, 16, 18, 8, 10, 20, 22, 1, 3, 13, 15, 5, 7, 17, 19, 9, 11, 21, 23]"

text \<open>The 20-bit fields, and their sign: \<open>if (x & 0x80000) { x = 0 - (0x100000 - x); }\<close>.\<close>

definition sign20 :: "int \<Rightarrow> int" where
  "sign20 x = (if x AND 0x80000 \<noteq> 0 then 0 - (0x100000 - x) else x)"

definition hi20 :: "u8 \<Rightarrow> u8 \<Rightarrow> u8 \<Rightarrow> int" where
  "hi20 a b c = push_bit 12 (uint a) OR push_bit 4 (uint b) OR drop_bit 4 (uint c)"

definition lo20 :: "u8 \<Rightarrow> u8 \<Rightarrow> u8 \<Rightarrow> int" where
  "lo20 a b c = push_bit 16 (uint a AND 0x0f) OR push_bit 8 (uint b) OR uint c"

text \<open>\<open>static_cast<float>(v) / 1000.f * 0.25f\<close>\<close>

definition quarter_mm :: "int \<Rightarrow> ieee" where
  "quarter_mm v =
     f_mul binary32 (f_div binary32 (f_of_int binary32 v) (f_of_int binary32 1000))
       (F_Fin False (2 ^ 23) (- 25))"

definition extract_first_peak :: "u8 list \<Rightarrow> nat \<Rightarrow> exn + ieee list" where
  "extract_first_peak data off =
     (if length data < off + 15 then Inl Out_of_range
      else
        let x1 = sign20 (hi20 (data ! (off + 0)) (data ! (off + 1)) (data ! (off + 2)));
            y1 = sign20 (lo20 (data ! (off + 2)) (data ! (off + 3)) (data ! (off + 4)));
            z1 = sign20 (hi20 (data ! (off + 5)) (data ! (off + 6)) (data ! (off + 7)));
            peak1 = [quarter_mm (- y1), quarter_mm x1, quarter_mm z1]
        in Inr (if list_all (\<lambda>c. f_eq c (f_of_int binary32 0)) peak1 then [F_NaN, F_NaN, F_NaN]
                else peak1))"

definition get_offset_full_res :: "nat \<Rightarrow> nat" where
  "get_offset_full_res p = 15 * (24 * line_order ! (p div 24) + p mod 24)"

definition get_offset_half_res :: "nat \<Rightarrow> nat" where
  "get_offset_half_res p = 15 * (24 * line_order ! (p div 24) div 2 + p mod 24)"

section \<open>Frames\<close>

definition resize :: "nat \<Rightarrow> 'a \<Rightarrow> 'a list \<Rightarrow> 'a list" where
  "resize n x xs = take n xs @ replicate (n - length xs) x"

text \<open>
  \<open>start_impl\<close>. Eigen leaves the new points uninitialised; here they are NaN. A frame
  overwrites all of them before it is published.
\<close>

definition start_impl_cdc :: "dev \<Rightarrow> dev" where
  "start_impl_cdc s =
     (let n = nat (nbr_points_x (mode_of (dev_mode s)) * nbr_points_y (mode_of (dev_mode s)))
      in s\<lparr>point_cloud := resize n [F_NaN, F_NaN, F_NaN] (point_cloud s),
           receive_buf := resize (n * 15) 0 (receive_buf s)\<rparr>)"

definition store_at :: "nat \<Rightarrow> string \<Rightarrow> u8 list \<Rightarrow> u8 list" where
  "store_at n x buf = take n buf @ map byte_of x @ drop (n + length x) buf"

text \<open>The loop of \<open>read_serial_point_cloud\<close>: \<open>n\<close> bytes of the buffer are filled.\<close>

function cloud_loop :: "nat \<Rightarrow> dev \<Rightarrow> (unit, dev) outcome" where
  "cloud_loop n s =
     (if \<not> n < length (receive_buf s) then Ret () s
      else case serial_read (length (receive_buf s) - n) s of
             Ret x s1 \<Rightarrow>
               (case poll (s1\<lparr>receive_buf := store_at n x (receive_buf s1)\<rparr>) of (r, s2) \<Rightarrow>
                  if \<not> r then Ret () s2 else cloud_loop (n + length x) s2)
           | Throw e s1 \<Rightarrow> Throw e s1
           | Block s1 \<Rightarrow> Block s1)"
  by pat_completeness auto
termination
  apply (relation "measure (\<lambda>(n, s). length (rx_stream s))")
   apply simp
  subgoal for n s x s1 r s2
    using poll_later [of "s1\<lparr>receive_buf := store_at n x (receive_buf s1)\<rparr>" r s2]
      serial_read_consumes [of "length (receive_buf s) - n" s x s1]
    by (auto dest: laterD(1))
  done

declare cloud_loop.simps [simp del]

definition read_serial_point_cloud :: "dev \<Rightarrow> (unit, dev) outcome" where
  "read_serial_point_cloud s = seq (read_line_until ''BEGIN MP'' s) (\<lambda>_. cloud_loop 0)"

fun unpack_points :: "(nat \<Rightarrow> nat) \<Rightarrow> nat list \<Rightarrow> dev \<Rightarrow> (unit, dev) outcome" where
  "unpack_points offset [] s = Ret () s"
| "unpack_points offset (i # is) s =
     (case extract_first_peak (receive_buf s) (offset i) of
        Inl e \<Rightarrow> Throw e s
      | Inr p \<Rightarrow> unpack_points offset is (s\<lparr>point_cloud := (point_cloud s)[i := p]\<rparr>))"

text \<open>
  \<open>process_serial_data\<close>. \<open>cdc_frame\<close> is what follows the first timestamp. The callbacks
  are always set by the node that owns the device.
\<close>

definition cdc_frame :: "int \<Rightarrow> int \<Rightarrow> u64 \<Rightarrow> dev \<Rightarrow> (unit, dev) outcome" where
  "cdc_frame point_count_x point_count_y tm s =
     (let frame_ts = tm * 1000000;
          offset = (if point_count_y = 24 then get_offset_full_res else get_offset_half_res)
      in case poll s of (r, s) \<Rightarrow>
        if \<not> r then Ret () s
        else
          seq (read_serial_point_cloud s) (\<lambda>_ s.
          seq (read_imu s) (\<lambda>_ s.
          seq (read_timestamp s) (\<lambda>tm2 s.
          seq (unpack_points offset [0..<nat (point_count_x * point_count_y)] (sync_clock (tm2 * 1000000) s)) (\<lambda>_ s.
          Ret () (publish_imu (publish_cloud frame_ts (unpack_imu_data frame_ts s))))))))"

definition process_serial_data_cdc :: "dev \<Rightarrow> (unit, dev) outcome" where
  "process_serial_data_cdc s =
     seq (read_timestamp s)
       (cdc_frame (nbr_points_x (mode_of (dev_mode s))) (nbr_points_y (mode_of (dev_mode s))))"

section \<open>The contract of the reader\<close>

lemma later_receive_buf:
  "length b = length (receive_buf t) \<Longrightarrow> later s (t\<lparr>receive_buf := b\<rparr>) \<longleftrightarrow> later s t"
  by (simp add: later_def config_def)

lemma later_point_cloud [simp]:
  "later s (t\<lparr>point_cloud := (point_cloud t)[i := p]\<rparr>) \<longleftrightarrow> later s t"
  by (simp add: later_def config_def)

lemma stream_read_length: "stream_read n acc r = Ret x r' \<Longrightarrow> length x \<le> length acc + n"
  by (induction n acc r rule: stream_read.induct) auto

lemma serial_read_length: "serial_read n s = Ret x t \<Longrightarrow> length x \<le> n"
  by (auto simp: serial_read_def on_stream_def split: if_splits outcome.splits dest: stream_read_length)

lemma store_at_length: "n + length x \<le> length buf \<Longrightarrow> length (store_at n x buf) = length buf"
  by (simp add: store_at_def)

lemma cloud_loop_later: "later s (final_state (cloud_loop n s))"
proof (induction n s rule: cloud_loop.induct)
  case (1 n s)
  have rd: "later s (final_state (serial_read (length (receive_buf s) - n) s))"
    by (rule dev_op.keeps [OF dev_op_serial_read])
  show ?case
  proof (cases "n < length (receive_buf s)")
    case True
    show ?thesis
    proof (cases "serial_read (length (receive_buf s) - n) s")
      case (Ret x s1)
      obtain r s2 where p: "poll (s1\<lparr>receive_buf := store_at n x (receive_buf s1)\<rparr>) = (r, s2)"
        by (cases "poll (s1\<lparr>receive_buf := store_at n x (receive_buf s1)\<rparr>)")
      have "later s s1" using rd Ret by simp
      then have "length (store_at n x (receive_buf s1)) = length (receive_buf s1)"
        using store_at_length [of n x "receive_buf s1"] serial_read_length [OF Ret] True
          laterD(7) [of s s1] by simp
      then have s2: "later s s2"
        using later_trans [OF _ poll_later [OF p], of s] rd Ret by (simp add: later_receive_buf)
      have "r \<Longrightarrow> later s2 (final_state (cloud_loop (n + length x) s2))"
        using "1.IH" True Ret p by auto
      then show ?thesis using True Ret p s2 later_trans by (subst cloud_loop.simps) auto
    qed (use True rd in \<open>subst cloud_loop.simps, simp\<close>)+
  qed (subst cloud_loop.simps, simp)
qed

lemma dev_op_cloud_loop [dev_ops]: "dev_op (cloud_loop n)"
  by unfold_locales (rule cloud_loop_later)

lemma unpack_points_later: "later s (final_state (unpack_points offset idx s))"
proof (induction idx arbitrary: s)
  case (Cons i idx)
  show ?case
  proof (cases "extract_first_peak (receive_buf s) (offset i)")
    case (Inr p)
    have "later s (s\<lparr>point_cloud := (point_cloud s)[i := p]\<rparr>)" by simp
    then show ?thesis using Inr later_trans [OF _ Cons.IH] by simp
  qed simp
qed simp

lemma dev_op_read_serial_point_cloud [dev_ops]: "dev_op read_serial_point_cloud"
  unfolding read_serial_point_cloud_def by (intro dev_ops)

lemma dev_op_unpack_synced [dev_ops]: "dev_op (\<lambda>s. unpack_points offset is (sync_clock e s))"
  by unfold_locales (rule later_trans [OF later_sync_clock unpack_points_later])

lemma later_publish_frame: "later s (publish_imu (publish_cloud ts (unpack_imu_data ts s)))"
  by (rule later_trans [OF later_unpack_imu later_trans [OF later_publish_cloud later_publish_imu]])

lemma dev_op_cdc_frame [dev_ops]: "dev_op (cdc_frame px py tm)"
  unfolding cdc_frame_def Let_def
  by (intro dev_ops later_refl imu_rd.dev_op_axioms tm_rd.dev_op_axioms later_publish_frame)

lemma consuming_process_cdc: "consuming_op process_serial_data_cdc"
proof -
  have c: "consuming_op (\<lambda>s. seq (read_timestamp s) (cdc_frame px py))" for px py
    by (rule consuming_seq [OF consuming_read_timestamp dev_op_cdc_frame])
  show ?thesis
    unfolding process_serial_data_cdc_def
    by (intro consuming_op.intro consuming_op_axioms.intro dev_op.intro)
      (rule dev_op.keeps [OF consuming_op.axioms(1) [OF c]], rule consuming_op.consumes [OF c])
qed

interpretation cdc: frame_reader process_serial_data_cdc
  by (intro frame_reader.intro frame_reader_axioms.intro consuming_op.axioms(1) consuming_process_cdc)
    (rule consuming_op.consumes [OF consuming_process_cdc])

section \<open>Coordinates\<close>

lemma f_of_int_pos32:
  assumes "v \<noteq> 0" "\<bar>v\<bar> < 2 ^ 24"
  shows "\<exists>m e. f_of_int binary32 v = F_Fin (v < 0) m e \<and> 0 < m \<and> real_of_int m * 2 powi e = real_of_int \<bar>v\<bar>"
proof -
  obtain m e where me: "f_of_int binary32 v = F_Fin (v < 0) m e" "real_of_int m * 2 powi e = real_of_int \<bar>v\<bar>"
    using f_of_int_exact32 [OF assms(2)] by blast
  have "0 < real_of_int m * 2 powi e" using me(2) assms(1) by simp
  then have "0 < m" using two_powi_pos [of e] by (auto simp: zero_less_mult_iff simp del: two_powi_pos)
  then show ?thesis using me by blast
qed

lemma quarter_mm_0: "quarter_mm 0 = F_Fin False 0 (- 149)"
  by code_simp

lemma quarter_mm_val:
  assumes v: "v \<noteq> 0" "\<bar>v\<bar> \<le> 2 ^ 19"
  shows "\<exists>m e. quarter_mm v = F_Fin (v < 0) m e \<and> 0 < m \<and>
    \<bar>real_of_int m * 2 powi e - \<bar>v\<bar> / 4000\<bar> \<le> \<bar>v\<bar> / 4000 * 2 powi (- 24)"
proof -
  obtain m e where me: "f_of_int binary32 v = F_Fin (v < 0) m e" "0 < m"
      "real_of_int m * 2 powi e = real_of_int \<bar>v\<bar>"
    using f_of_int_pos32 [of v] v by auto
  obtain k g where kg: "f_of_int binary32 1000 = F_Fin False k g" "0 < k" "real_of_int k * 2 powi g = 1000"
    using f_of_int_pos32 [of 1000] by auto
  define q where "q = real_of_int \<bar>v\<bar> / 1000"
  have v1: "1 \<le> \<bar>v\<bar>" using v by simp
  then have "1 \<le> real_of_int \<bar>v\<bar>" by linarith
  moreover have "real_of_int \<bar>v\<bar> \<le> real_of_int (2 ^ 19)" using v(2) by (simp only: of_int_le_iff)
  ultimately have qb: "1 / 1000 \<le> q" "q \<le> 2 ^ 19 / 1000" by (simp_all add: q_def)
  have lo: "2 powi (f_emin binary32 + int (f_prec binary32) - 1) \<le> q"
  proof -
    have "(2::real) powi (f_emin binary32 + int (f_prec binary32) - 1) \<le> 2 powi (- 10)"
      by (rule power_int_increasing) simp_all
    also have "\<dots> \<le> 1 / 1000" by (simp add: power_int_def power_one_over)
    finally show ?thesis using qb by simp
  qed
  have hi: "q < 2 powi (f_emax binary32 + int (f_prec binary32) - 1)"
  proof -
    have "(2::real) powi 10 \<le> 2 powi (f_emax binary32 + int (f_prec binary32) - 1)"
      by (rule power_int_increasing) simp_all
    moreover have "q < 2 powi 10" using qb by (simp add: power_int_def)
    ultimately show ?thesis by simp
  qed
  have qq: "q = (real_of_int m * 2 powi e) / (real_of_int k * 2 powi g)" using me kg by (simp add: q_def)
  obtain m' e' where d: "f_div binary32 (f_of_int binary32 v) (f_of_int binary32 1000) = F_Fin (v < 0) m' e'"
      "2 ^ 23 \<le> m'" "m' < 2 ^ 24" "e' \<le> 104"
      "\<bar>real_of_int m' * 2 powi e' - q\<bar> \<le> q * 2 powi (- 24)"
    using f_div_rel [OF me(2) kg(2) _ _ qq lo hi, of "v < 0" False] me kg by auto
  have e': "- 36 \<le> e'"
  proof (rule ccontr)
    assume "\<not> ?thesis"
    then have "(2::real) powi e' \<le> 2 powi (- 37)" by (intro power_int_increasing) simp_all
    moreover have "real_of_int m' \<le> 2 ^ 24" using d(3) by (metis of_int_le_numeral_power_cancel_iff less_imp_le)
    ultimately have "real_of_int m' * 2 powi e' \<le> 2 ^ 24 * 2 powi (- 37)"
      using d(2) by (intro mult_mono) (auto simp: less_imp_le)
    also have "\<dots> = 1 / 8192" by (simp add: power_int_def power_one_over)
    finally have "real_of_int m' * 2 powi e' \<le> 1 / 8192" .
    moreover have "q * 2 powi (- 24) \<le> q / 2" using qb(1) by (simp add: power_int_def power_one_over)
    ultimately show False using d(5) qb(1) by linarith
  qed
  obtain n h where nh: "scale (m' * 2 ^ 23) (e' + - 25) = (n, h)" by (cases "scale (m' * 2 ^ 23) (e' + - 25)")
  have nq: "quot n h = real_of_int m' * 2 powi (e' - 2)"
  proof -
    have "quot n h = real_of_int m' * (2 powi 23 * 2 powi (e' - 25))"
      using scale_quot(2) [OF nh] by (simp add: power_int_def)
    also have "(2::real) powi 23 * 2 powi (e' - 25) = 2 powi (e' - 2)"
      by (subst power_int_add [symmetric]) simp_all
    finally show ?thesis .
  qed
  have "\<exists>m'' e''. round_frac binary32 (v < 0) n h = F_Fin (v < 0) m'' e'' \<and> 0 < m'' \<and>
      real_of_int m'' * 2 powi e'' = real_of_int m' * 2 powi (e' - 2)"
    by (rule round_frac_exact [where g = 24]) (use d e' nq scale_quot(1) [OF nh] in simp_all)
  then obtain m'' e'' where r: "quarter_mm v = F_Fin (v < 0) m'' e''" "0 < m''"
      "real_of_int m'' * 2 powi e'' = real_of_int m' * 2 powi (e' - 2)"
    using d(1) nh by (auto simp: quarter_mm_def)
  have "real_of_int m' * 2 powi (e' - 2) = real_of_int m' * 2 powi e' / 4"
    by (simp add: power_int_diff)
  then have "\<bar>real_of_int m'' * 2 powi e'' - q / 4\<bar> \<le> q / 4 * 2 powi (- 24)" 
    unfolding r(3) \<open>real_of_int m' * 2 powi (e' - 2) = real_of_int m' * 2 powi e' / 4\<close>
    using d(5) by (simp only: abs_le_iff) linarith
  moreover have "q / 4 = \<bar>v\<bar> / 4000" by (simp add: q_def)
  ultimately show ?thesis using r by (intro exI [of _ m''] exI [of _ e'']) simp
qed

lemma quarter_mm_zero_iff: "\<bar>v\<bar> \<le> 2 ^ 19 \<Longrightarrow> f_eq (quarter_mm v) (f_of_int binary32 0) \<longleftrightarrow> v = 0"
proof -
  assume "\<bar>v\<bar> \<le> 2 ^ 19"
  moreover have "f_of_int binary32 0 = F_Fin False 0 (- 149)" by (simp add: f_of_int_def round_frac_def)
  ultimately show ?thesis
    using quarter_mm_val [of v] quarter_mm_0 f_eq_zero by (cases "v = 0") (auto simp del: f_eq.simps)
qed

section \<open>Fields\<close>

lemma or_disjoint: "0 \<le> b \<Longrightarrow> b < 2 ^ n \<Longrightarrow> push_bit n a OR b = a * 2 ^ n + (b :: int)"
proof -
  assume b: "0 \<le> b" "b < 2 ^ n"
  have "push_bit n a AND b = 0"
  proof (rule bit_eqI)
    fix i
    show "bit (push_bit n a AND b) i = bit (0 :: int) i"
    proof (cases "i < n")
      case False
      then have "b < 2 ^ i" using less_le_trans [OF b(2) power_increasing [of n i]] by simp
      then have "\<not> bit b i" using b(1) by (simp add: bit_iff_odd)
      then show ?thesis by (simp add: bit_and_iff)
    qed (simp add: bit_simps)
  qed
  then show ?thesis using plus_and_or [of "push_bit n a" b] by (simp add: push_bit_eq_mult)
qed

lemma uint8: "0 \<le> uint (a :: u8)" "uint (a :: u8) < 256"
  using uint_bounded [of a] by simp_all

lemma hi20_val: "hi20 a b c = 4096 * uint a + 16 * uint b + uint c div 16"
proof -
  have c: "drop_bit 4 (uint c) = uint c div 16" by (simp add: drop_bit_eq_div)
  have "push_bit 4 (uint b) OR uint c div 16 = uint b * 2 ^ 4 + uint c div 16"
    using uint8 [of c] by (intro or_disjoint) (simp_all add: pos_imp_zdiv_nonneg_iff)
  moreover have "push_bit 12 (uint a) OR (uint b * 2 ^ 4 + uint c div 16) =
      uint a * 2 ^ 12 + (uint b * 2 ^ 4 + uint c div 16)"
    using uint8 [of b] uint8 [of c] by (intro or_disjoint) (simp_all add: pos_imp_zdiv_nonneg_iff)
  ultimately show ?thesis by (simp add: hi20_def c or.assoc)
qed

lemma lo20_val: "lo20 a b c = 65536 * (uint a mod 16) + 256 * uint b + uint c"
proof -
  have a: "uint a AND 0x0f = uint a mod 16"
    using take_bit_eq_mask [of 4 "uint a"] by (simp add: take_bit_eq_mod mask_eq_exp_minus_1)
  have "push_bit 8 (uint b) OR uint c = uint b * 2 ^ 8 + uint c"
    using uint8 [of c] by (intro or_disjoint) simp_all
  moreover have "push_bit 16 (uint a mod 16) OR (uint b * 2 ^ 8 + uint c) =
      (uint a mod 16) * 2 ^ 16 + (uint b * 2 ^ 8 + uint c)"
    using uint8 [of b] uint8 [of c] by (intro or_disjoint) simp_all
  ultimately show ?thesis by (simp add: lo20_def a or.assoc)
qed

lemma sign20_val:
  assumes "0 \<le> x" "x < 2 ^ 20"
  shows "sign20 x = (if x < 2 ^ 19 then x else x - 2 ^ 20)"
proof -
  have "(x AND 0x80000 \<noteq> 0) = bit x 19"
    using and_exp_eq_0_iff_not_bit [of x 19] by simp
  moreover have "bit x 19 \<longleftrightarrow> 2 ^ 19 \<le> x"
  proof -
    have "x div 2 ^ 19 = (if 2 ^ 19 \<le> x then 1 else 0)"
    proof (cases "2 ^ 19 \<le> x")
      case True
      then have "x div 2 ^ 19 = (x - 2 ^ 19) div 2 ^ 19 + 1" by (intro div_pos_geq) simp_all
      moreover have "(x - 2 ^ 19) div 2 ^ 19 = 0" using True assms by (intro div_pos_pos_trivial) simp_all
      ultimately show ?thesis using True by simp
    qed (use assms in \<open>simp add: div_pos_pos_trivial\<close>)
    then show ?thesis by (simp add: bit_iff_odd)
  qed
  ultimately show ?thesis by (auto simp: sign20_def)
qed

text \<open>The 15 bytes of a point: the first peak in 60 bits, then what the driver ignores.\<close>

definition pack_peak :: "int \<Rightarrow> int \<Rightarrow> int \<Rightarrow> int \<Rightarrow> u8 list" where
  "pack_peak x y z w =
     (let X = x mod 2 ^ 20; Y = y mod 2 ^ 20; Z = z mod 2 ^ 20
      in map word_of_int
        [X div 4096, X div 16 mod 256, X mod 16 * 16 + Y div 65536, Y div 256 mod 256, Y mod 256,
         Z div 4096, Z div 16 mod 256, Z mod 16 * 16 + w mod 16])"

definition peak_of :: "int \<Rightarrow> int \<Rightarrow> int \<Rightarrow> ieee list" where
  "peak_of x y z =
     (if x = 0 \<and> y = 0 \<and> z = 0 then [F_NaN, F_NaN, F_NaN]
      else [quarter_mm (- y), quarter_mm x, quarter_mm z])"

definition fits20 :: "int \<Rightarrow> bool" where
  "fits20 v \<longleftrightarrow> - (2 ^ 19) \<le> v \<and> v < 2 ^ 19"

lemma sign20_mod: "fits20 v \<Longrightarrow> sign20 (v mod 2 ^ 20) = v"
proof -
  assume v: "fits20 v"
  have b: "- 524288 \<le> v" "v < 524288" using v by (simp_all add: fits20_def)
  have "v mod 2 ^ 20 = (if 0 \<le> v then v else v + 2 ^ 20)"
  proof (cases "0 \<le> v")
    case False
    have "v mod 2 ^ 20 = (v + 2 ^ 20) mod 2 ^ 20" by (simp only: mod_add_self2)
    also have "\<dots> = v + 2 ^ 20" using b False by (intro mod_pos_pos_trivial) simp_all
    finally show ?thesis using False by simp
  qed (use b in \<open>simp add: mod_pos_pos_trivial\<close>)
  then show ?thesis using v by (subst sign20_val) (simp_all add: fits20_def)
qed

lemma digits3:
  fixes X :: int
  assumes "0 < a" "0 < b" and c: "c = a * b"
  shows "c * (X div c) + a * (X div a mod b) + X mod a = X"
proof -
  have "X div c = X div a div b" using assms by (simp add: zdiv_zmult2_eq)
  then have "a * (b * (X div c) + X div a mod b) = a * (X div a)" by simp
  then show ?thesis using mult_div_mod_eq [of a X] c by (simp add: algebra_simps)
qed

lemma nth8:
  "[a, b, c, d, e, f, g, h] ! 0 = a" "[a, b, c, d, e, f, g, h] ! 1 = b"
  "[a, b, c, d, e, f, g, h] ! 2 = c" "[a, b, c, d, e, f, g, h] ! 3 = d"
  "[a, b, c, d, e, f, g, h] ! 4 = e" "[a, b, c, d, e, f, g, h] ! 5 = f"
  "[a, b, c, d, e, f, g, h] ! 6 = g" "[a, b, c, d, e, f, g, h] ! 7 = h"
  by simp_all

lemma uint_byte: "0 \<le> v \<Longrightarrow> v < 256 \<Longrightarrow> uint (word_of_int v :: u8) = v"
  by (simp add: uint_word_of_int)

lemma nibbles:
  fixes p q :: int
  assumes "0 \<le> q" "q < 16"
  shows "(p * 16 + q) div 16 = p" and "(p * 16 + q) mod 16 = q"
  using assms by simp_all

lemma extract_packed:
  assumes v: "fits20 x" "fits20 y" "fits20 z" and suf: "7 \<le> length suf"
  shows "extract_first_peak (pre @ pack_peak x y z w @ suf) (length pre) = Inr (peak_of x y z)"
proof -
  define X Y Z where "X = x mod 2 ^ 20" and "Y = y mod 2 ^ 20" and "Z = z mod 2 ^ 20"
  have r: "0 \<le> X" "X < 2 ^ 20" "0 \<le> Y" "Y < 2 ^ 20" "0 \<le> Z" "Z < 2 ^ 20"
    by (simp_all add: X_def Y_def Z_def)
  have q: "0 \<le> Y div 65536" "Y div 65536 < 16" "0 \<le> w mod 16" "w mod 16 < 16"
    using r by (auto simp: pos_imp_zdiv_nonneg_iff)
  define ds where "ds = pack_peak x y z w"
  let ?data = "pre @ ds @ suf"
  have len: "length ds = 8" by (simp add: ds_def pack_peak_def Let_def)
  have nth: "?data ! (length pre + i) = ds ! i" if "i < 8" for i
    using that len by (simp add: nth_append)
  define vs where "vs = [X div 4096, X div 16 mod 256, X mod 16 * 16 + Y div 65536, Y div 256 mod 256,
    Y mod 256, Z div 4096, Z div 16 mod 256, Z mod 16 * 16 + w mod 16]"
  have ds: "ds = map word_of_int vs" by (simp only: ds_def vs_def pack_peak_def Let_def X_def Y_def Z_def)
  have "0 \<le> X mod 16" "X mod 16 < 16" "0 \<le> Z mod 16" "Z mod 16 < 16" by simp_all
  then have "0 \<le> X mod 16 * 16 + Y div 65536 \<and> X mod 16 * 16 + Y div 65536 < 256"
    "0 \<le> Z mod 16 * 16 + w mod 16 \<and> Z mod 16 * 16 + w mod 16 < 256"
    using q by linarith+
  moreover have "X div 4096 < 256" "Z div 4096 < 256"
    using r zdiv_mono1 [of X "2 ^ 20 - 1" 4096] zdiv_mono1 [of Z "2 ^ 20 - 1" 4096] by simp_all
  moreover have "0 \<le> X div 4096" "0 \<le> Z div 4096" using r by (simp_all only: pos_imp_zdiv_nonneg_iff)
  moreover have "0 \<le> v mod 256 \<and> v mod 256 < 256" for v :: int by simp
  ultimately have "list_all (\<lambda>v. 0 \<le> v \<and> v < 256) vs"
    unfolding vs_def list.pred_inject(2) using list.pred_inject(1) by blast
  moreover have "length vs = 8" by (simp add: vs_def)
  ultimately have "uint (ds ! i) = vs ! i" if "i < 8" for i
    using that uint_byte by (simp add: ds list_all_length)
  then have b: "uint (ds ! 0) = vs ! 0" "uint (ds ! 1) = vs ! 1" "uint (ds ! 2) = vs ! 2"
    "uint (ds ! 3) = vs ! 3" "uint (ds ! 4) = vs ! 4" "uint (ds ! 5) = vs ! 5" "uint (ds ! 6) = vs ! 6"
    "uint (ds ! 7) = vs ! 7"
    by simp_all
  have e: "vs ! 0 = X div 4096" "vs ! 1 = X div 16 mod 256" "vs ! 2 = X mod 16 * 16 + Y div 65536"
    "vs ! 3 = Y div 256 mod 256" "vs ! 4 = Y mod 256" "vs ! 5 = Z div 4096" "vs ! 6 = Z div 16 mod 256"
    "vs ! 7 = Z mod 16 * 16 + w mod 16"
    by (simp_all only: vs_def nth8)
  have d: "4096 * (V div 4096) + 16 * (V div 16 mod 256) + V mod 16 = V"
    "65536 * (V div 65536) + 256 * (V div 256 mod 256) + V mod 256 = V" for V :: int
    by (rule digits3; simp)+
  have hx: "hi20 (ds ! 0) (ds ! 1) (ds ! 2) = X"
    unfolding hi20_val b e nibbles [OF q(1,2)] by (rule d(1))
  have ly: "lo20 (ds ! 2) (ds ! 3) (ds ! 4) = Y"
    unfolding lo20_val b e nibbles [OF q(1,2)] by (rule d(2))
  have hz: "hi20 (ds ! 5) (ds ! 6) (ds ! 7) = Z"
    unfolding hi20_val b e nibbles [OF q(3,4)] by (rule d(1))
  have zero: "list_all (\<lambda>c. f_eq c (f_of_int binary32 0)) [quarter_mm (- y), quarter_mm x, quarter_mm z] \<longleftrightarrow>
      x = 0 \<and> y = 0 \<and> z = 0"
    using v quarter_mm_zero_iff [of x] quarter_mm_zero_iff [of "- y"] quarter_mm_zero_iff [of z]
    by (auto simp: fits20_def)
  have "extract_first_peak ?data (length pre) = Inr (peak_of x y z)"
    using suf len sign20_mod [OF v(1)] sign20_mod [OF v(2)] sign20_mod [OF v(3)] hx ly hz zero
    unfolding extract_first_peak_def peak_of_def Let_def
    by (simp only: nth X_def [symmetric] Y_def [symmetric] Z_def [symmetric]) (simp add: nth)
  then show ?thesis by (simp add: ds_def)
qed

section \<open>Scan order\<close>

text \<open>
  The contract of an offset function: the points take whole slots of 15 bytes, every slot once.
\<close>

locale scan_order =
  fixes offset :: "nat \<Rightarrow> nat" and points :: nat and slot :: "nat \<Rightarrow> nat"
  assumes offset_slot: "p < points \<Longrightarrow> offset p = 15 * slot p"
    and slots: "bij_betw slot {..<points} {..<points}"
begin

lemma slot_range: "p < points \<Longrightarrow> slot p < points"
  using bij_betw_apply [OF slots] by simp

lemma in_bounds: "p < points \<Longrightarrow> offset p + 15 \<le> points * 15"
  using slot_range [of p] offset_slot [of p] by simp

lemma covers:
  assumes "b < points * 15"
  shows "\<exists>!p. p < points \<and> offset p \<le> b \<and> b < offset p + 15"
proof -
  have "b div 15 < points" using assms by (simp add: div_less_iff_less_mult)
  then obtain p where p: "p < points" "slot p = b div 15"
    using slots by (metis (no_types, lifting) bij_betw_def imageE lessThan_iff)
  show ?thesis
  proof (rule ex1I [of _ p])
    show "p < points \<and> offset p \<le> b \<and> b < offset p + 15"
      using p offset_slot [of p] by simp
    fix q
    assume q: "q < points \<and> offset q \<le> b \<and> b < offset q + 15"
    then have "slot q = b div 15" using offset_slot [of q] by auto
    then show "q = p" using p q slots by (metis bij_betw_inv_into_left lessThan_iff)
  qed
qed

end

section \<open>The two offset functions\<close>

lemma lines_bij:
  assumes "is_perm ls"
  shows "bij_betw (\<lambda>p. 24 * ls ! (p div 24) + p mod 24) {..<24 * length ls} {..<24 * length ls}"
proof (rule bij_betwI')
  have ls: "bij_betw (\<lambda>i. ls ! i) {..<length ls} {..<length ls}" by (rule is_perm_bij [OF assms])
  have line: "p div 24 < length ls" if "p \<in> {..<24 * length ls}" for p
    using that by (simp add: div_less_iff_less_mult mult.commute)
  fix p q assume p: "p \<in> {..<24 * length ls}" and q: "q \<in> {..<24 * length ls}"
  show "24 * ls ! (p div 24) + p mod 24 = 24 * ls ! (q div 24) + q mod 24 \<longleftrightarrow> p = q" (is "?a = ?b \<longleftrightarrow> _")
  proof
    assume "?a = ?b"
    then have "?a div 24 = ?b div 24" "?a mod 24 = ?b mod 24" by simp_all
    then have "ls ! (p div 24) = ls ! (q div 24)" "p mod 24 = q mod 24" by simp_all
    moreover from this have "p div 24 = q div 24"
      using bij_betw_imp_inj_on [OF ls] line [OF p] line [OF q] by (auto dest: inj_onD)
    ultimately show "p = q" by (metis div_mod_decomp)
  qed simp
next
  have ls: "bij_betw (\<lambda>i. ls ! i) {..<length ls} {..<length ls}" by (rule is_perm_bij [OF assms])
  fix p assume "p \<in> {..<24 * length ls}"
  then have "p div 24 < length ls" by (simp add: div_less_iff_less_mult mult.commute)
  then have "ls ! (p div 24) < length ls" using bij_betw_apply [OF ls] by simp
  then show "24 * ls ! (p div 24) + p mod 24 \<in> {..<24 * length ls}"
    using mod_less_divisor [of 24 p] by simp
next
  have ls: "bij_betw (\<lambda>i. ls ! i) {..<length ls} {..<length ls}" by (rule is_perm_bij [OF assms])
  fix y assume y: "y \<in> {..<24 * length ls}"
  then have "y div 24 < length ls" by (simp add: div_less_iff_less_mult mult.commute)
  then obtain i where i: "i < length ls" "ls ! i = y div 24"
    using bij_betw_imp_surj_on [OF ls] by (metis (no_types, lifting) imageE lessThan_iff)
  have "24 * i + y mod 24 < 24 * length ls" using i(1) mod_less_divisor [of 24 y] by simp
  moreover have "y = 24 * ls ! ((24 * i + y mod 24) div 24) + (24 * i + y mod 24) mod 24"
    using i by simp
  ultimately show "\<exists>x\<in>{..<24 * length ls}. y = 24 * ls ! (x div 24) + x mod 24" by blast
qed

lemma line_order_perm: "is_perm line_order"
  by code_simp

definition half_lines :: "nat list" where
  "half_lines = map (\<lambda>l. l div 2) (take 12 line_order)"

lemma half_lines_perm: "is_perm half_lines"
  by code_simp

lemma half_lines_even: "\<forall>k\<in>set [0..<12]. 24 * line_order ! k div 2 = 24 * half_lines ! k"
  by code_simp

interpretation full_res: scan_order get_offset_full_res 576 "\<lambda>p. 24 * line_order ! (p div 24) + p mod 24"
proof
  have "length line_order = 24" by (simp add: line_order_def)
  then show "bij_betw (\<lambda>p. 24 * line_order ! (p div 24) + p mod 24) {..<576} {..<576}"
    using lines_bij [OF line_order_perm] by simp
qed (simp add: get_offset_full_res_def)

interpretation half_res: scan_order get_offset_half_res 288 "\<lambda>p. 24 * half_lines ! (p div 24) + p mod 24"
proof
  have "length half_lines = 12" by (simp add: half_lines_def line_order_def)
  then show "bij_betw (\<lambda>p. 24 * half_lines ! (p div 24) + p mod 24) {..<288} {..<288}"
    using lines_bij [OF half_lines_perm] by simp
  fix p :: nat
  assume "p < 288"
  then have "p div 24 \<in> set [0..<12]" by (simp add: div_less_iff_less_mult)
  then show "get_offset_half_res p = 15 * (24 * half_lines ! (p div 24) + p mod 24)"
    using half_lines_even by (simp only: get_offset_half_res_def)
qed

section \<open>Unpacking a frame\<close>

text \<open>The point at an offset that is in bounds.\<close>

definition peak_at :: "u8 list \<Rightarrow> nat \<Rightarrow> ieee list" where
  "peak_at data off = (case extract_first_peak data off of Inr p \<Rightarrow> p | Inl e \<Rightarrow> [])"

lemma extract_in_bounds: "off + 15 \<le> length data \<Longrightarrow> extract_first_peak data off = Inr (peak_at data off)"
  by (simp add: peak_at_def extract_first_peak_def Let_def)

lemma unpack_points_from:
  assumes "\<And>p. p < n \<Longrightarrow> offset p + 15 \<le> length (receive_buf s)" and "length (point_cloud s) = n" and "i \<le> n"
  shows "unpack_points offset [i..<n] s =
    Ret () (s\<lparr>point_cloud := take i (point_cloud s) @ map (\<lambda>p. peak_at (receive_buf s) (offset p)) [i..<n]\<rparr>)"
  using assms(3) assms(1,2)
proof (induction i arbitrary: s rule: inc_induct)
  case base
  then show ?case by simp
next
  case (step i)
  let ?s = "s\<lparr>point_cloud := (point_cloud s)[i := peak_at (receive_buf s) (offset i)]\<rparr>"
  have "unpack_points offset [Suc i..<n] ?s = Ret () (?s\<lparr>point_cloud :=
      take (Suc i) (point_cloud ?s) @ map (\<lambda>p. peak_at (receive_buf ?s) (offset p)) [Suc i..<n]\<rparr>)"
    using step.prems by (intro step.IH) simp_all
  moreover have "take (Suc i) ((point_cloud s)[i := v]) = take i (point_cloud s) @ [v]" for v
    using step.hyps step.prems by (simp add: take_Suc_conv_app_nth)
  ultimately show ?case
    using step extract_in_bounds [OF step.prems(1) [OF step.hyps(2)]] by (simp add: upt_conv_Cons)
qed

context scan_order
begin

lemma unpack_all:
  assumes "length (receive_buf s) = points * 15" "length (point_cloud s) = points"
  shows "unpack_points offset [0..<points] s =
    Ret () (s\<lparr>point_cloud := map (\<lambda>p. peak_at (receive_buf s) (15 * slot p)) [0..<points]\<rparr>)"
  using unpack_points_from [of points offset s 0] assms in_bounds offset_slot by simp

end

definition point_slot :: "int \<Rightarrow> nat \<Rightarrow> nat" where
  "point_slot m p =
     (if nbr_points_y (mode_of m) = 24 then 24 * line_order ! (p div 24) + p mod 24
      else 24 * half_lines ! (p div 24) + p mod 24)"

definition cdc_ready :: "dev \<Rightarrow> bool" where
  "cdc_ready s \<longleftrightarrow>
     valid_mode (dev_mode s) \<and> length (point_cloud s) = nat (mode_points (dev_mode s)) \<and>
     length (receive_buf s) = nat (mode_points (dev_mode s)) * 15"

lemma mode_points_cases:
  assumes "valid_mode m"
  obtains "nbr_points_x (mode_of m) = 24" "nbr_points_y (mode_of m) = 24" "mode_points m = 576"
    | "nbr_points_x (mode_of m) = 24" "nbr_points_y (mode_of m) = 12" "mode_points m = 288"
  using assms by (rule valid_mode_cases) (auto simp: mode_points_def mode_table)

lemma start_impl_ready: "valid_mode (dev_mode s) \<Longrightarrow> cdc_ready (start_impl_cdc s)"
  by (auto simp: cdc_ready_def start_impl_cdc_def Let_def resize_def mode_points_def)

lemma later_ready: "later s t \<Longrightarrow> cdc_ready s \<Longrightarrow> cdc_ready t"
  by (simp add: later_def cdc_ready_def config_def)

lemma unpack_mode_points:
  assumes "cdc_ready s"
  defines "m \<equiv> mode_of (dev_mode s)"
  shows "unpack_points (if nbr_points_y m = 24 then get_offset_full_res else get_offset_half_res)
      [0..<nat (nbr_points_x m * nbr_points_y m)] s =
    Ret () (s\<lparr>point_cloud := map (\<lambda>p. peak_at (receive_buf s) (15 * point_slot (dev_mode s) p))
      [0..<nat (mode_points (dev_mode s))]\<rparr>)"
proof -
  have v: "valid_mode (dev_mode s)" using assms by (simp add: cdc_ready_def)
  then show ?thesis
  proof (rule mode_points_cases)
    assume *: "nbr_points_x (mode_of (dev_mode s)) = 24" "nbr_points_y (mode_of (dev_mode s)) = 24"
      "mode_points (dev_mode s) = 576"
    then show ?thesis
      using full_res.unpack_all [of s] assms by (simp add: cdc_ready_def m_def point_slot_def)
  next
    assume *: "nbr_points_x (mode_of (dev_mode s)) = 24" "nbr_points_y (mode_of (dev_mode s)) = 12"
      "mode_points (dev_mode s) = 288"
    then show ?thesis
      using half_res.unpack_all [of s] assms by (simp add: cdc_ready_def m_def point_slot_def)
  qed
qed

section \<open>A frame on the stream\<close>

lemma take_bytes_bytes: "take_bytes (length bs) (map Rx_byte bs @ r) = Some (bs, r)"
  by (induction bs) simp_all

lemma dec_digits_length: "length (dec_digits k n acc) \<le> k + length acc"
  by (induction k n acc rule: dec_digits.induct) (auto simp: Let_def)

lemma dec_str_short:
  assumes "n < 2 ^ 64"
  shows "length (dec_str n) \<le> 65"
proof -
  have "blen n \<le> 64"
  proof (cases "0 < n")
    case True
    then have "(2::int) ^ nat (blen n - 1) < 2 ^ 64" using blen_bounds [of n] assms by linarith
    then have "nat (blen n - 1) < 64" by (simp only: power_strict_increasing_iff)
    then show ?thesis by simp
  qed (simp add: blen.simps)
  then show ?thesis using dec_digits_length [of "nat (blen n) + 1" n "[]"]
    by (simp add: dec_str_def del: dec_digits.simps)
qed

text \<open>The bytes of a frame: two timestamps in milliseconds, the points, the IMU records.\<close>

definition crlf :: string where
  "crlf = [CHR 0x0D, CHR 0x0A]"

definition frame_text :: "int \<Rightarrow> string \<Rightarrow> string list \<Rightarrow> int \<Rightarrow> string" where
  "frame_text ts1 cloud recs ts2 =
     ''tm='' @ dec_str ts1 @ crlf @ ''BEGIN MP'' @ crlf @ cloud @
     ''BEGIN IMU'' @ crlf @ concat recs @ ''END'' @ crlf @ ''tm='' @ dec_str ts2 @ crlf"

definition listening :: "dev \<Rightarrow> bool" where
  "listening s \<longleftrightarrow> has_serial s \<and> port_open s \<and> running s \<and> stop_in s = None"

lemma read_timestamp_line:
  assumes s: "listening s" and n: "0 \<le> n" "n < 2 ^ 64"
    and rx: "rx_stream s = map Rx_byte (''tm='' @ dec_str n @ crlf) @ r"
  shows "read_timestamp s = Ret (word_of_int n) (s\<lparr>rx_stream := r\<rparr>)"
proof -
  let ?l = "''tm='' @ dec_str n @ [CHR 0x0D]"
  have dig: "\<forall>c\<in>set (dec_str n). isdigit c" using dec_str_val(2) [OF n(1)] by (simp add: list_all_iff)
  have nl: "CHR 0x0A \<notin> set ?l" "\<forall>c\<in>set (?l @ [CHR 0x0A]). c \<noteq> CHR 0x00"
    using dig by (auto simp: isdigit_def)
  have len: "length ?l < readline_limit" using dec_str_short [OF n(2)] by (simp add: readline_limit_def)
  have "contains (?l @ [CHR 0x0A]) ''tm=''"
    by (auto simp: contains_iff intro: exI [of _ "[]"])
  then have rd: "read_line_until ''tm='' s = Ret (?l @ [CHR 0x0A]) (s\<lparr>rx_stream := r\<rparr>)"
    using s nl(1) len rx by (intro read_line_until_line) (simp_all add: listening_def crlf_def)
  have "c_str (?l @ [CHR 0x0A]) = ?l @ [CHR 0x0A]"
    using nl(2) by (simp add: c_str_def takeWhile_eq_all_conv)
  moreover have "scan_tm (''tm='' @ dec_str n @ [CHR 0x0D, CHR 0x0A]) = word_of_int n"
    using n by (intro scan_tm_dec_str) (simp_all add: isdigit_def)
  ultimately show ?thesis using rd by (simp add: read_timestamp_def)
qed

lemma read_imu_block:
  assumes s: "listening s" and recs: "\<forall>d\<in>set recs. length d = 16 \<and> take 3 d \<noteq> ''END''"
    and rx: "rx_stream s = map Rx_byte (''BEGIN IMU'' @ crlf @ concat recs @ ''END'') @ r"
  shows "read_imu s = Ret () (s\<lparr>rx_stream := r, imu_data := map (map byte_of) recs\<rparr>)"
proof -
  let ?l = "''BEGIN IMU'' @ [CHR 0x0D]" and ?s = "s\<lparr>imu_data := []\<rparr>"
  let ?rest = "map Rx_byte (concat recs @ ''END'') @ r"
  have "contains (?l @ [CHR 0x0A]) ''BEGIN IMU''"
    by (auto simp: contains_iff intro: exI [of _ "[]"])
  then have rd: "read_line_until ''BEGIN IMU'' ?s = Ret (?l @ [CHR 0x0A]) (?s\<lparr>rx_stream := ?rest\<rparr>)"
    using s rx by (intro read_line_until_line) (simp_all add: listening_def crlf_def readline_limit_def)
  have len: "length (concat recs @ ''END'') = 16 * length recs + 3"
    using recs by (induction recs) auto
  have "imu_loop (?s\<lparr>rx_stream := ?rest\<rparr>) =
      Ret () (?s\<lparr>rx_stream := ?rest, rx_stream := r, imu_data := [] @ map (map byte_of) recs\<rparr>)"
    using imu_loop_records [of "?s\<lparr>rx_stream := ?rest\<rparr>" recs r] s recs
      take_bytes_bytes [of "concat recs @ ''END''" r] unfolding len by (simp add: listening_def)
  then show ?thesis using rd by (simp add: read_imu_def)
qed

lemma cloud_loop_bytes:
  "listening s \<Longrightarrow> n \<le> length (receive_buf s) \<Longrightarrow>
   take_bytes (length (receive_buf s) - n) (rx_stream s) = Some (bs, r) \<Longrightarrow>
   cloud_loop n s = Ret () (s\<lparr>rx_stream := r, receive_buf := take n (receive_buf s) @ map byte_of bs\<rparr>)"
proof (induction n s arbitrary: bs rule: cloud_loop.induct)
  case (1 n s)
  let ?len = "length (receive_buf s)"
  show ?case
  proof (cases "n < ?len")
    case False
    then show ?thesis using "1.prems" by (subst cloud_loop.simps) simp
  next
    case True
    obtain x t where x: "stream_read (?len - n) [] (rx_stream s) = Ret x t" "length x \<le> ?len - n"
      "x = take (length x) bs" "take_bytes (?len - n - length x) t = Some (drop (length x) bs, r)"
      using stream_read_take [OF "1.prems"(3), of "[]"] by auto
    let ?s1 = "s\<lparr>rx_stream := t\<rparr>"
    let ?s2 = "?s1\<lparr>receive_buf := store_at n x (receive_buf ?s1)\<rparr>"
    have sr: "serial_read (?len - n) s = Ret x ?s1"
      using "1.prems" x by (simp add: serial_read_def on_stream_def listening_def)
    have p: "poll ?s2 = (True, ?s2)" using "1.prems"(1) by (simp add: poll_def listening_def)
    have len: "length (receive_buf ?s2) = ?len" using x(2) True by (simp add: store_at_length)
    have "cloud_loop (n + length x) ?s2 = Ret () (?s2\<lparr>rx_stream := r,
        receive_buf := take (n + length x) (receive_buf ?s2) @ map byte_of (drop (length x) bs)\<rparr>)"
      using "1.prems" x True len by (intro "1.IH" [OF _ sr p [symmetric]]) (auto simp: listening_def)
    moreover have "take (n + length x) (store_at n x (receive_buf s)) = take n (receive_buf s) @ map byte_of x"
      using True by (simp add: store_at_def)
    moreover have "map byte_of x @ map byte_of (drop (length x) bs) = map byte_of bs"
      using x(3) by (metis append_take_drop_id map_append)
    ultimately show ?thesis using True sr p by (subst cloud_loop.simps) simp
  qed
qed

lemma read_cloud_block:
  assumes s: "listening s" and len: "length cloud = length (receive_buf s)"
    and rx: "rx_stream s = map Rx_byte (''BEGIN MP'' @ crlf @ cloud) @ r"
  shows "read_serial_point_cloud s = Ret () (s\<lparr>rx_stream := r, receive_buf := map byte_of cloud\<rparr>)"
proof -
  let ?l = "''BEGIN MP'' @ [CHR 0x0D]" and ?rest = "map Rx_byte cloud @ r"
  have "contains (?l @ [CHR 0x0A]) ''BEGIN MP''"
    by (auto simp: contains_iff intro: exI [of _ "[]"])
  then have rd: "read_line_until ''BEGIN MP'' s = Ret (?l @ [CHR 0x0A]) (s\<lparr>rx_stream := ?rest\<rparr>)"
    using s rx by (intro read_line_until_line) (simp_all add: listening_def crlf_def readline_limit_def)
  have "cloud_loop 0 (s\<lparr>rx_stream := ?rest\<rparr>) = Ret () (s\<lparr>rx_stream := ?rest, rx_stream := r,
      receive_buf := take 0 (receive_buf s) @ map byte_of cloud\<rparr>)"
    using cloud_loop_bytes [of "s\<lparr>rx_stream := ?rest\<rparr>" 0 cloud r] s take_bytes_bytes [of cloud r]
    by (simp add: listening_def len)
  then show ?thesis using rd by (simp add: read_serial_point_cloud_def)
qed

lemma skip_eol:
  assumes s: "listening s" and rx: "rx_stream s = map Rx_byte crlf @ r"
  shows "read_timestamp s = read_timestamp (s\<lparr>rx_stream := r\<rparr>)"
proof -
  have "\<not> contains ([CHR 0x0D] @ [CHR 0x0A]) ''tm=''" by code_simp
  then have "read_line_until ''tm='' s = read_line_until ''tm='' (s\<lparr>rx_stream := r\<rparr>)"
    using s rx
    by (intro read_line_until_line(2) [where l = "[CHR 0x0D]"])
      (simp_all add: listening_def crlf_def readline_limit_def)
  then show ?thesis by (simp add: read_timestamp_def)
qed

text \<open>The whole frame: what is published is what was sent, with the time it was taken.\<close>

lemma process_cdc_frame:
  assumes s: "listening s" "cdc_ready s" and q: "now_q s = recv # q"
    and ts: "0 \<le> ts1" "ts1 < 2 ^ 64" "0 \<le> ts2" "ts2 < 2 ^ 64"
    and cloud: "length cloud = nat (mode_points (dev_mode s)) * 15"
    and recs: "\<forall>d\<in>set recs. length d = 16 \<and> take 3 d \<noteq> ''END''"
    and rx: "rx_stream s = map Rx_byte (frame_text ts1 cloud recs ts2) @ r"
  defines "t1 \<equiv> word_of_int ts1 * 1000000 :: u64" and "t2 \<equiv> word_of_int ts2 * 1000000 :: u64"
  defines "imu \<equiv> fst (unpack_loop t1 (recv - t2) False (latest_imu_sample_ts s) (map (map byte_of) recs))"
  shows "\<exists>u. process_serial_data_cdc s = Ret () u \<and> rx_stream u = r \<and>
    actions u = actions s @ Cloud_cb (recv - (t2 - t1))
      (map (\<lambda>p. peak_at (map byte_of cloud) (15 * point_slot (dev_mode s) p))
        [0..<nat (mode_points (dev_mode s))]) #
      (if imu = [] then [] else [Imu_cb imu])"
proof -
  define end_line where "end_line = ''tm='' @ dec_str ts2 @ crlf"
  define imu_text where "imu_text = ''BEGIN IMU'' @ crlf @ concat recs @ ''END''"
  define r3 where "r3 = map Rx_byte (crlf @ end_line) @ r"
  define r2 where "r2 = map Rx_byte imu_text @ r3"
  define r1 where "r1 = map Rx_byte (''BEGIN MP'' @ crlf @ cloud) @ r2"
  have rx1: "rx_stream s = map Rx_byte (''tm='' @ dec_str ts1 @ crlf) @ r1"
    using rx by (simp add: frame_text_def r1_def r2_def r3_def imu_text_def end_line_def)
  let ?s1 = "s\<lparr>rx_stream := r1\<rparr>" and ?buf = "map byte_of cloud"
  let ?s2 = "?s1\<lparr>rx_stream := r2, receive_buf := ?buf\<rparr>"
  let ?s3 = "?s2\<lparr>rx_stream := r3, imu_data := map (map byte_of) recs\<rparr>"
  let ?s4 = "?s3\<lparr>rx_stream := r\<rparr>"
  let ?s5 = "?s4\<lparr>now_q := q, clock_offset := recv - t2\<rparr>"
  have tm1: "read_timestamp s = Ret (word_of_int ts1) ?s1"
    by (rule read_timestamp_line [OF s(1) ts(1,2) rx1])
  have rd2: "read_serial_point_cloud ?s1 = Ret () ?s2"
    using s cloud by (intro read_cloud_block) (simp_all add: listening_def cdc_ready_def r1_def)
  have rd3: "read_imu ?s2 = Ret () ?s3"
    using s recs by (intro read_imu_block) (simp_all add: listening_def r2_def imu_text_def)
  have "read_timestamp ?s3 = read_timestamp (?s3\<lparr>rx_stream := map Rx_byte end_line @ r\<rparr>)"
    using s by (intro skip_eol) (simp_all add: listening_def r3_def)
  also have "\<dots> = Ret (word_of_int ts2) (?s3\<lparr>rx_stream := map Rx_byte end_line @ r, rx_stream := r\<rparr>)"
    using s ts by (intro read_timestamp_line) (simp_all add: listening_def end_line_def)
  finally have tm4: "read_timestamp ?s3 = Ret (word_of_int ts2) ?s4" by simp
  have sync: "sync_clock (word_of_int ts2 * 1000000) ?s4 = ?s5"
    using q by (simp add: sync_clock_def now_def t2_def)
  have "cdc_ready ?s5" using s(2) cloud by (simp add: cdc_ready_def)
  from unpack_mode_points [OF this]
  have up: "unpack_points (if nbr_points_y (mode_of (dev_mode s)) = 24 then get_offset_full_res else get_offset_half_res)
      [0..<nat (nbr_points_x (mode_of (dev_mode s)) * nbr_points_y (mode_of (dev_mode s)))] ?s5 =
    Ret () (?s5\<lparr>point_cloud := map (\<lambda>p. peak_at ?buf (15 * point_slot (dev_mode s) p))
      [0..<nat (mode_points (dev_mode s))]\<rparr>)"
    by simp
  have poll: "poll u = (running u, u)" if "stop_in u = None" for u :: dev
    using that by (simp add: poll_def)
  have offs: "t1 + (recv - t2) = recv - (t2 - t1)" by simp
  let ?pc = "map (\<lambda>p. peak_at ?buf (15 * point_slot (dev_mode s) p)) [0..<nat (mode_points (dev_mode s))]"
  let ?s6 = "?s5\<lparr>point_cloud := ?pc\<rparr>"
  have stop: "stop_in s = None" "running s" using s(1) by (simp_all add: listening_def)
  have poll1: "poll ?s1 = (True, ?s1)" using stop by (simp add: poll)
  have "process_serial_data_cdc s = Ret () (publish_imu (publish_cloud t1 (unpack_imu_data t1 ?s6)))"
    unfolding process_serial_data_cdc_def tm1 seq_Ret cdc_frame_def Let_def t1_def [symmetric]
      poll1 prod.case not_True_eq_False if_False rd2 rd3 tm4 sync up by (rule refl)
  moreover obtain ss lt where ul:
    "unpack_loop t1 (recv - t2) False (latest_imu_sample_ts s) (map (map byte_of) recs) = (ss, lt)"
    by (cases "unpack_loop t1 (recv - t2) False (latest_imu_sample_ts s) (map (map byte_of) recs)")
  then have "unpack_imu_data t1 ?s6 = ?s6\<lparr>imu_samples := ss, latest_imu_sample_ts := lt\<rparr>" "imu = ss"
    by (simp_all add: unpack_imu_data_def imu_def)
  ultimately show ?thesis
    using stop by (simp add: publish_cloud_def publish_imu_def poll act_def offs)
qed

section \<open>Properties\<close>

text \<open>C3: a frame that arrives whole is published whole: every point of the cloud is the one in its slot
  of the block sent, its time is the local receive time less the time the sensor says has passed since the
  frame, the IMU samples follow, and exactly the frame is consumed.\<close>

theorem cdc_frame_published:
  assumes "listening s" "cdc_ready s" and "now_q s = recv # q"
    and "0 \<le> ts1" "ts1 < 2 ^ 64" "0 \<le> ts2" "ts2 < 2 ^ 64"
    and "length cloud = nat (mode_points (dev_mode s)) * 15"
    and "\<forall>d\<in>set recs. length d = 16 \<and> take 3 d \<noteq> ''END''"
    and "rx_stream s = map Rx_byte (frame_text ts1 cloud recs ts2) @ r"
    and "t1 = (word_of_int ts1 * 1000000 :: u64)" and "t2 = (word_of_int ts2 * 1000000 :: u64)"
    and "imu = fst (unpack_loop t1 (recv - t2) False (latest_imu_sample_ts s) (map (map byte_of) recs))"
  shows "\<exists>u. process_serial_data_cdc s = Ret () u \<and> rx_stream u = r \<and>
    actions u = actions s @ Cloud_cb (recv - (t2 - t1))
      (map (\<lambda>p. peak_at (map byte_of cloud) (15 * point_slot (dev_mode s) p))
        [0..<nat (mode_points (dev_mode s))]) #
      (if imu = [] then [] else [Imu_cb imu])"
  unfolding assms(13) assms(11,12) by (rule process_cdc_frame [OF assms(1-10)])

definition sample_cdc :: dev where
  "sample_cdc = (new_dev [])\<lparr>running := True, has_serial := True, port_open := True, dev_mode := 3,
     point_cloud := replicate 288 [], receive_buf := replicate 4320 0, now_q := [9000000],
     rx_stream := map Rx_byte (frame_text 1 (replicate 4320 (CHR 0x00)) [] 4)\<rparr>"

lemma cdc_frame_published_witness:
  "\<exists>u pts. process_serial_data_cdc sample_cdc = Ret () u \<and> rx_stream u = [] \<and>
     actions u = [Cloud_cb 6000000 pts] \<and> length pts = 288"
proof -
  have pts: "mode_points 3 = 288" by (simp add: mode_points_def mode_table)
  have "listening sample_cdc" "cdc_ready sample_cdc"
    by (simp_all add: listening_def cdc_ready_def valid_mode_def sample_cdc_def new_dev_def pts)
  from cdc_frame_published [OF this, of 9000000 "[]" 1 4 "replicate 4320 (CHR 0x00)" "[]" "[]" 1000000 4000000 "[]"]
  show ?thesis by (auto simp: sample_cdc_def new_dev_def pts)
qed

text \<open>C12: in both resolutions the offset function sends the points to the 15-byte slots of the block one
  to one: no point reads past the block, and every byte of it belongs to exactly one point.\<close>

theorem scan_order_exact:
  "list_all (\<lambda>p. get_offset_full_res p + 15 \<le> 576 * 15) [0..<576] \<and>
   list_all (\<lambda>p. get_offset_half_res p + 15 \<le> 288 * 15) [0..<288] \<and>
   list_all (\<lambda>b. \<exists>!p. p < 576 \<and> get_offset_full_res p \<le> b \<and> b < get_offset_full_res p + 15) [0..<576 * 15] \<and>
   list_all (\<lambda>b. \<exists>!p. p < 288 \<and> get_offset_half_res p \<le> b \<and> b < get_offset_half_res p + 15) [0..<288 * 15]"
  using full_res.in_bounds half_res.in_bounds full_res.covers half_res.covers by (simp add: list_all_iff)

text \<open>The buffers \<open>start_impl\<close> sizes are always big enough: unpacking the points of a frame of the
  configured mode never throws \<open>std::out_of_range\<close> and overwrites every point of the cloud.\<close>

theorem unpack_never_out_of_range:
  assumes "valid_mode (dev_mode s)" and "later (start_impl_cdc s) t"
  shows "unpack_points (if nbr_points_y (mode_of (dev_mode t)) = 24 then get_offset_full_res else get_offset_half_res)
      [0..<nat (nbr_points_x (mode_of (dev_mode t)) * nbr_points_y (mode_of (dev_mode t)))] t =
    Ret () (t\<lparr>point_cloud := map (\<lambda>p. peak_at (receive_buf t) (15 * point_slot (dev_mode t) p))
      [0..<nat (mode_points (dev_mode t))]\<rparr>)"
  using unpack_mode_points later_ready [OF assms(2) start_impl_ready [OF assms(1)]] by blast

lemma unpack_never_out_of_range_witness:
  "is_ret (unpack_points get_offset_full_res [0..<576] (start_impl_cdc (new_dev [])))"
  using unpack_never_out_of_range [of "new_dev []" "start_impl_cdc (new_dev [])"]
  by (simp add: new_dev_def valid_mode_def start_impl_cdc_def Let_def mode_table)

text \<open>C13: the 60 bits of a peak decode to the coordinates that were packed into them, for every signed
  20-bit triple and whatever surrounds them; the all-zero peak becomes NaN.\<close>

theorem peak_roundtrip:
  assumes "fits20 x" "fits20 y" "fits20 z" and "7 \<le> length suf"
  shows "extract_first_peak (pre @ pack_peak x y z w @ suf) (length pre) = Inr (peak_of x y z)"
  using assms by (rule extract_packed)

lemma peak_roundtrip_witness:
  "extract_first_peak (pack_peak (- 524288) 0 524287 0 @ replicate 7 0xFF) 0 =
    Inr [quarter_mm 0, quarter_mm (- 524288), quarter_mm 524287]"
  using peak_roundtrip [of "- 524288" 0 524287 "replicate 7 0xFF" "[]" 0] by (simp add: fits20_def peak_of_def)

text \<open>a coordinate in metres is the raw quarter millimetres over 4000 up to the relative error of one
  float rounding, and keeps the sign.\<close>

theorem coordinate_error:
  assumes "v \<noteq> 0" "\<bar>v\<bar> \<le> 2 ^ 19"
  shows "\<exists>m e. quarter_mm v = F_Fin (v < 0) m e \<and> 0 < m \<and>
    \<bar>f_val (quarter_mm v) - v / 4000\<bar> \<le> \<bar>v\<bar> / 4000 * 2 powi (- 24)"
proof -
  obtain m e where me: "quarter_mm v = F_Fin (v < 0) m e" "0 < m"
    "\<bar>real_of_int m * 2 powi e - \<bar>real_of_int v\<bar> / 4000\<bar> \<le> \<bar>real_of_int v\<bar> / 4000 * 2 powi (- 24)"
    using quarter_mm_val [OF assms] by blast
  have "\<bar>f_val (quarter_mm v) - v / 4000\<bar> = \<bar>real_of_int m * 2 powi e - \<bar>real_of_int v\<bar> / 4000\<bar>"
    by (cases "v < 0") (simp_all add: me(1) abs_minus_commute)
  then show ?thesis using me by (intro exI [of _ m] exI [of _ e]) simp
qed

lemma coordinate_error_witness:
  "\<exists>m e. quarter_mm (- 4001) = F_Fin True m e \<and>
    \<bar>f_val (quarter_mm (- 4001)) + 4001 / 4000\<bar> \<le> 4001 / 4000 * 2 powi (- 24)"
  using coordinate_error [of "- 4001"] by auto



end
