(* ===== verification/Hist.thy ===== *)
theory Hist
  imports Cdc
begin

text \<open>
  The histogram-mode reader (\<open>device/dt1_device_hist.cpp\<close>, \<open>device/include/hist_frame.h\<close>):
  the layout of a frame, the ring of a point, \<open>unpack_hist_frame\<close> with its choice between
  the two exposures of the 20 m mode, and the serial side, \<open>process_serial_data\<close>.
\<close>

section \<open>Frame layout\<close>

text \<open>
  The packed structures, as offsets into the bytes of a frame: \<open>ebd_data\<close> is 672 bytes,
  \<open>mp_data\<close> 672 bytes with its first peak at 600, and a bank is \<open>ebd_data\<close>, 672 reserved
  bytes and 48 points.
\<close>

definition sizeof_ebd :: nat where
  "sizeof_ebd = 138 + 1 + 5 + 1 + 79 + 1 + 7 + 8 + 410 + 4 + 4 + 4 + 10"

definition off_sensor_ts :: nat where "off_sensor_ts = 138 + 1 + 5 + 1 + 79 + 1 + 7"
definition off_cpu_ts :: nat where "off_cpu_ts = off_sensor_ts + 8 + 410 + 4"
definition sizeof_peak :: nat where "sizeof_peak = 4 + 4 + 4 + 4 + 4 + 4"
definition off_first :: nat where "off_first = 4 + 4 * 144 + 4 * 4 + 4"
definition sizeof_mp :: nat where "sizeof_mp = off_first + 3 * sizeof_peak"
definition sizeof_bank :: nat where "sizeof_bank = sizeof_ebd + 672 + 48 * sizeof_mp"

definition peak_at_off :: "nat \<Rightarrow> nat \<Rightarrow> nat" where
  "peak_at_off bank mp = bank * sizeof_bank + sizeof_ebd + 672 + mp * sizeof_mp + off_first"

section \<open>Fields\<close>

definition le24 :: "u8 list \<Rightarrow> nat \<Rightarrow> u32" where
  "le24 fr i = push_bit 16 (ucast (fr ! (i + 2))) OR push_bit 8 (ucast (fr ! (i + 1))) OR ucast (fr ! i)"

text \<open>The sensor time of a bank: every other byte, most significant first.\<close>

definition sensor_ts :: "u8 list \<Rightarrow> nat \<Rightarrow> u32" where
  "sensor_ts fr bank =
     (let i = bank * sizeof_bank + off_sensor_ts
      in push_bit 24 (ucast (fr ! i)) OR push_bit 16 (ucast (fr ! (i + 2))) OR
         push_bit 8 (ucast (fr ! (i + 4))) OR ucast (fr ! (i + 6)))"

definition cpu_ts :: "u8 list \<Rightarrow> u32" where
  "cpu_ts fr = le32 fr off_cpu_ts"

record peak =
  pk_x :: u32
  pk_y :: u32
  pk_z :: u32
  pk_height :: u32
  pk_err :: u32

definition first_peak :: "u8 list \<Rightarrow> nat \<Rightarrow> nat \<Rightarrow> peak" where
  "first_peak fr bank mp =
     (let p = peak_at_off bank mp
      in \<lparr>pk_x = le24 fr (p + 4), pk_y = le24 fr (p + 8), pk_z = le24 fr (p + 12),
         pk_height = le24 fr (p + 16), pk_err = le32 fr (p + 20)\<rparr>)"

section \<open>Rings\<close>

definition bank_to_ring_full :: "nat list" where
  "bank_to_ring_full = [0, 12, 4, 16, 8, 20, 1, 13, 5, 17, 9, 21]"

definition bank_to_ring_half :: "nat list" where
  "bank_to_ring_half = [0, 6, 2, 8, 4, 10]"

definition bank_to_ring :: "nat \<Rightarrow> nat \<Rightarrow> int \<Rightarrow> nat" where
  "bank_to_ring bank mp m =
     (if m = cdc_mode_30m30f then bank_to_ring_half ! bank + mp div 24
      else bank_to_ring_full ! bank + 2 * (mp div 24))"

section \<open>Points\<close>

definition thr_exposure :: u32 where "thr_exposure = 2000"

text \<open>
  The selection between the low and the high exposure in the 20 m mode: bank \<open>b + 12\<close> holds the
  high one.
\<close>

definition take_high :: "u8 list \<Rightarrow> int \<Rightarrow> nat \<Rightarrow> nat \<Rightarrow> bool" where
  "take_high fr m bank mp \<longleftrightarrow>
     m = cdc_mode_20m \<and>
     (let z = pk_z (first_peak fr bank mp); z_high = pk_z (first_peak fr (bank + 12) mp)
      in thr_exposure < z \<and> \<not> (z \<noteq> 65536 \<and> z_high \<le> thr_exposure))"

definition coord22 :: "u32 \<Rightarrow> ieee" where
  "coord22 x =
     (if x AND 0x200000 = 0 then f_div binary32 (f_of_int binary32 (uint x)) (f_of_int binary32 4000)
      else f_div binary32 (f_neg (f_of_int binary32 (uint (0x400000 - x)))) (f_of_int binary32 4000))"

definition depth :: "u32 \<Rightarrow> ieee" where
  "depth z = f_div binary32 (f_of_int binary32 (uint z)) (f_of_int binary32 4000)"

definition ts_since :: "u32 \<Rightarrow> u32 \<Rightarrow> ieee" where
  "ts_since ts ts0 = f_mul binary32 (f_of_int binary32 (uint (ts - ts0))) (f_of_int binary32 500)"

definition min_depth :: ieee where
  "min_depth = round_frac binary32 False 2 10"

record unpacked =
  up_points :: "ieee list list"
  up_dest :: nat
  up_ts :: ieee

definition unpack_point :: "u8 list \<Rightarrow> int \<Rightarrow> nat \<Rightarrow> nat \<Rightarrow> unpacked \<Rightarrow> unpacked" where
  "unpack_point fr m bank mp u =
     (let pk = first_peak fr bank mp; ring = f_of_int binary32 (int (bank_to_ring bank mp m))
      in if pk_err pk \<noteq> 0 then u
         else
           let high = take_high fr m bank mp;
               sel = (if high then first_peak fr (bank + 12) mp else pk);
               u = (if high then u\<lparr>up_ts := ts_since (sensor_ts fr (bank + 12)) (sensor_ts fr 0)\<rparr> else u);
               z_f = depth (pk_z sel)
           in if f_less min_depth z_f then
                u\<lparr>up_points := (up_points u)[up_dest u :=
                    [f_neg (coord22 (pk_y sel)), coord22 (pk_x sel), z_f,
                     f_of_int binary32 (uint (pk_height sel)), up_ts u, ring]],
                  up_dest := Suc (up_dest u)\<rparr>
              else u)"

definition unpack_bank :: "u8 list \<Rightarrow> int \<Rightarrow> nat \<Rightarrow> unpacked \<Rightarrow> unpacked" where
  "unpack_bank fr m bank u =
     fold (unpack_point fr m bank) [0..<48]
       (u\<lparr>up_ts := ts_since (sensor_ts fr bank) (sensor_ts fr 0)\<rparr>)"

definition used_banks :: "int \<Rightarrow> nat" where
  "used_banks m = nat (min (nbr_banks (mode_of m)) 12)"

definition unpack_frame_points :: "u8 list \<Rightarrow> int \<Rightarrow> ieee list list \<Rightarrow> unpacked" where
  "unpack_frame_points fr m old =
     fold (unpack_bank fr m) [0..<used_banks m]
       \<lparr>up_points = resize (nat (mode_points m)) [F_NaN, F_NaN, F_NaN, F_NaN, F_NaN, F_NaN] old,
        up_dest = 0, up_ts = F_NaN\<rparr>"

text \<open>
  \<open>unpack_hist_frame\<close> on the device: the points are published once the serial side has a clock
  offset. \<open>point_cloud\<close> stands for \<open>_points_xyzitr\<close>.
\<close>

definition unpack_hist_frame :: "u8 list \<Rightarrow> dev \<Rightarrow> dev" where
  "unpack_hist_frame fr s =
     (let u = unpack_frame_points fr (dev_mode s) (point_cloud s);
          s = s\<lparr>point_cloud := up_points u\<rparr>
      in case poll s of (r, s) \<Rightarrow>
           if r \<and> 0 < clock_offset s then
             let s = s\<lparr>point_cloud := take (up_dest u) (point_cloud s)\<rparr>
             in act (Cloud_cb (ucast (cpu_ts fr) * 1000000 + clock_offset s) (point_cloud s)) s
           else s)"

section \<open>The serial side\<close>

definition exposure_ns :: "int \<Rightarrow> u64" where
  "exposure_ns m =
     (case f_to_uint 64 (tot_exposure (mode_of m)) of Some v \<Rightarrow> word_of_int v | None \<Rightarrow> 0) * 1000000"

definition finish_hist :: "u64 \<Rightarrow> dev \<Rightarrow> dev" where
  "finish_hist end_ts s =
     (let s = sync_clock end_ts s
      in publish_imu (unpack_imu_data (end_ts - exposure_ns (dev_mode s)) s))"

definition process_serial_data_hist :: "dev \<Rightarrow> (unit, dev) outcome" where
  "process_serial_data_hist s =
     (case poll s of (r, s) \<Rightarrow>
        if \<not> r then Ret () s
        else
          seq (read_imu s) (\<lambda>_ s.
          seq (read_timestamp s) (\<lambda>tm s. Ret () (finish_hist (tm * 1000000) s))))"

lemma later_finish_hist [simp]: "later s (finish_hist e s)"
proof -
  let ?s = "sync_clock e s"
  let ?t = "unpack_imu_data (e - exposure_ns (dev_mode ?s)) ?s"
  have "later ?s ?t" by (rule later_unpack_imu)
  then have "later s ?t" by (rule later_trans [OF later_sync_clock])
  then have "later s (publish_imu ?t)" using later_publish_imu by (rule later_trans)
  then show ?thesis by (simp add: finish_hist_def Let_def)
qed

lemma consuming_hist_body:
  "consuming_op (\<lambda>s. seq (read_imu s) (\<lambda>_ s. seq (read_timestamp s) (\<lambda>tm s. Ret () (finish_hist (tm * 1000000) s))))"
  by (intro consuming_seq consuming_read_imu dev_ops tm_rd.dev_op_axioms later_finish_hist)

interpretation hist: frame_reader process_serial_data_hist
proof (intro frame_reader.intro frame_reader_axioms.intro)
  show "dev_op process_serial_data_hist"
    unfolding process_serial_data_hist_def
    by (intro dev_ops consuming_op.axioms(1) [OF consuming_hist_body] later_refl)
  fix s t :: dev
  assume p: "process_serial_data_hist s = Ret () t" and r: "running t"
  obtain b u where b: "poll s = (b, u)" by (cases "poll s")
  show "length (rx_stream t) < length (rx_stream s)"
  proof (cases b)
    case True
    then have "length (rx_stream t) < length (rx_stream u)"
      using p b by (intro consuming_op.consumes [OF consuming_hist_body]) (simp add: process_serial_data_hist_def)
    then show ?thesis using laterD(1) [OF poll_later [OF b]] by simp
  next
    case False
    then show ?thesis using p b r poll_running [OF b] by (simp add: process_serial_data_hist_def)
  qed
qed

section \<open>Layout\<close>

lemmas layout_defs = sizeof_ebd_def off_sensor_ts_def off_cpu_ts_def sizeof_peak_def off_first_def
  sizeof_mp_def sizeof_bank_def

lemma sizes: "sizeof_ebd = 672" "sizeof_mp = 672" "sizeof_bank = 33600" "sizeof_peak = 24"
  "off_first = 600" "off_sensor_ts = 232" "off_cpu_ts = 654"
  by (simp_all add: layout_defs)

definition frame_bytes :: "int \<Rightarrow> nat" where
  "frame_bytes m = nat (hist_frame_width (mode_of m) * hist_frame_height (mode_of m) * 2)"

lemma frame_bytes_banks:
  "valid_mode m \<Longrightarrow> frame_bytes m = nat (nbr_banks (mode_of m)) * sizeof_bank"
  by (erule valid_mode_cases) (simp_all add: frame_bytes_def mode_table sizes)

lemma used_banks_le: "valid_mode m \<Longrightarrow> used_banks m \<le> nat (nbr_banks (mode_of m))"
  by (erule valid_mode_cases) (simp_all add: used_banks_def mode_table)

lemma used_banks_20m: "used_banks cdc_mode_20m + 12 = nat (nbr_banks (mode_of cdc_mode_20m))"
  by (simp add: used_banks_def cdc_mode_20m_def mode_table)

lemma used_banks_points: "valid_mode m \<Longrightarrow> nat (mode_points m) = used_banks m * 48"
  by (erule valid_mode_cases) (simp_all add: used_banks_def mode_points_def mode_table)

section \<open>Reads stay inside the frame\<close>

lemma peak_at_off_bound:
  "bank < n \<Longrightarrow> mp < 48 \<Longrightarrow> peak_at_off bank mp + sizeof_peak \<le> n * sizeof_bank"
  using mult_le_mono1 [of "Suc bank" n 33600] by (simp add: peak_at_off_def sizes)

lemma first_peak_take:
  assumes "bank < n" "mp < 48"
  shows "first_peak (take (n * sizeof_bank) fr) bank mp = first_peak fr bank mp"
  using peak_at_off_bound [OF assms] by (simp add: first_peak_def Let_def le24_def le32_def sizes)

lemma sensor_ts_take:
  assumes "bank < n"
  shows "sensor_ts (take (n * sizeof_bank) fr) bank = sensor_ts fr bank"
  using mult_le_mono1 [of "Suc bank" n 33600] assms by (simp add: sensor_ts_def Let_def sizes)

lemma unpack_point_take:
  assumes m: "valid_mode m" and b: "bank < used_banks m" and k: "mp < 48"
  shows "unpack_point (take (frame_bytes m) fr) m bank mp u = unpack_point fr m bank mp u"
proof -
  let ?n = "nat (nbr_banks (mode_of m))"
  have n: "frame_bytes m = ?n * sizeof_bank" by (rule frame_bytes_banks [OF m])
  have "bank < ?n" "0 < ?n" using used_banks_le [OF m] b by simp_all
  then have low: "first_peak (take (frame_bytes m) fr) bank mp = first_peak fr bank mp"
    "sensor_ts (take (frame_bytes m) fr) 0 = sensor_ts fr 0"
    unfolding n using k by (simp_all only: first_peak_take sensor_ts_take)
  show ?thesis
  proof (cases "m = cdc_mode_20m")
    case True
    then have "bank + 12 < ?n" using used_banks_20m b by simp
    then have "first_peak (take (frame_bytes m) fr) (bank + 12) mp = first_peak fr (bank + 12) mp"
      "sensor_ts (take (frame_bytes m) fr) (bank + 12) = sensor_ts fr (bank + 12)"
      unfolding n using k by (simp_all only: first_peak_take sensor_ts_take)
    moreover from this have "take_high (take (frame_bytes m) fr) m bank mp = take_high fr m bank mp"
      by (simp only: take_high_def low)
    ultimately show ?thesis by (simp only: unpack_point_def low)
  next
    case False
    then have "\<not> take_high g m bank mp" for g by (simp add: take_high_def)
    then show ?thesis by (simp only: unpack_point_def low if_False Let_def)
  qed
qed

lemma unpack_bank_take:
  assumes m: "valid_mode m" and b: "bank < used_banks m"
  shows "unpack_bank (take (frame_bytes m) fr) m bank u = unpack_bank fr m bank u"
proof -
  let ?n = "nat (nbr_banks (mode_of m))"
  have n: "frame_bytes m = ?n * sizeof_bank" by (rule frame_bytes_banks [OF m])
  have "bank < ?n" "0 < ?n" using used_banks_le [OF m] b by simp_all
  then have ts: "sensor_ts (take (frame_bytes m) fr) bank = sensor_ts fr bank"
    "sensor_ts (take (frame_bytes m) fr) 0 = sensor_ts fr 0"
    unfolding n by (simp_all only: sensor_ts_take)
  have "fold (unpack_point (take (frame_bytes m) fr) m bank) [0..<48] v = fold (unpack_point fr m bank) [0..<48] v" for v
    by (rule fold_cong) (simp_all add: fun_eq_iff unpack_point_take [OF m b])
  then show ?thesis by (simp add: unpack_bank_def ts)
qed

lemma unpack_frame_take:
  assumes "valid_mode m"
  shows "unpack_frame_points (take (frame_bytes m) fr) m old = unpack_frame_points fr m old"
  unfolding unpack_frame_points_def
  by (rule fold_cong) (simp_all add: fun_eq_iff unpack_bank_take [OF assms])

section \<open>The points as a list\<close>

text \<open>
  The reference. The time of a point is that of the low bank until the first point of the bank
  taken from the high one, and that of the high bank from there on.
\<close>

definition goes_high :: "u8 list \<Rightarrow> int \<Rightarrow> nat \<Rightarrow> nat \<Rightarrow> bool" where
  "goes_high fr m bank mp \<longleftrightarrow> pk_err (first_peak fr bank mp) = 0 \<and> take_high fr m bank mp"

definition point_ts :: "u8 list \<Rightarrow> int \<Rightarrow> nat \<Rightarrow> nat \<Rightarrow> ieee" where
  "point_ts fr m bank n =
     ts_since (sensor_ts fr (if list_ex (goes_high fr m bank) [0..<n] then bank + 12 else bank)) (sensor_ts fr 0)"

definition hist_point :: "u8 list \<Rightarrow> int \<Rightarrow> nat \<Rightarrow> nat \<Rightarrow> ieee list option" where
  "hist_point fr m bank mp =
     (let sel = first_peak fr (if take_high fr m bank mp then bank + 12 else bank) mp
      in if pk_err (first_peak fr bank mp) = 0 \<and> f_less min_depth (depth (pk_z sel)) then
           Some [f_neg (coord22 (pk_y sel)), coord22 (pk_x sel), depth (pk_z sel),
             f_of_int binary32 (uint (pk_height sel)), point_ts fr m bank (Suc mp),
             f_of_int binary32 (int (bank_to_ring bank mp m))]
         else None)"

definition hist_points :: "u8 list \<Rightarrow> int \<Rightarrow> ieee list list" where
  "hist_points fr m =
     concat (map (\<lambda>b. List.map_filter (hist_point fr m b) [0..<48]) [0..<used_banks m])"

text \<open>\<open>done_as pts u\<close>: the points unpacked so far are \<open>pts\<close>.\<close>

definition done_as :: "nat \<Rightarrow> ieee list list \<Rightarrow> unpacked \<Rightarrow> bool" where
  "done_as n pts u \<longleftrightarrow> length (up_points u) = n \<and> up_dest u = length pts \<and> take (length pts) (up_points u) = pts"

lemma map_filter_snoc: "List.map_filter f (xs @ [x]) = List.map_filter f xs @ (case f x of None \<Rightarrow> [] | Some y \<Rightarrow> [y])"
  by (simp add: List.map_filter_def split: option.split)

lemma map_filter_length: "length (List.map_filter f xs) \<le> length xs"
  by (simp add: List.map_filter_def)

lemma point_ts_Suc:
  "point_ts fr m bank (Suc k) =
    (if goes_high fr m bank k then ts_since (sensor_ts fr (bank + 12)) (sensor_ts fr 0) else point_ts fr m bank k)"
  by (simp add: point_ts_def)

lemma unpack_point_step:
  assumes u: "done_as n ps u" "up_ts u = point_ts fr m bank k" and room: "length ps < n"
  shows "done_as n (ps @ (case hist_point fr m bank k of None \<Rightarrow> [] | Some y \<Rightarrow> [y])) (unpack_point fr m bank k u) \<and>
    up_ts (unpack_point fr m bank k u) = point_ts fr m bank (Suc k)"
proof -
  have add: "take (Suc (length ps)) ((up_points u)[length ps := p]) = ps @ [p]" for p
    using u(1) room by (simp add: done_as_def take_Suc_conv_app_nth)
  show ?thesis
    using u room add
    by (simp add: unpack_point_def hist_point_def point_ts_Suc goes_high_def Let_def done_as_def)
qed

lemma unpack_bank_prefix:
  assumes u: "done_as n pts u" and ts: "up_ts u = point_ts fr m bank 0" and room: "length pts + k \<le> n"
  defines "v \<equiv> fold (unpack_point fr m bank) [0..<k] u"
  shows "done_as n (pts @ List.map_filter (hist_point fr m bank) [0..<k]) v \<and> up_ts v = point_ts fr m bank k"
  using room unfolding v_def
proof (induction k)
  case 0
  then show ?case using u ts by (simp add: List.map_filter_def)
next
  case (Suc k)
  let ?ps = "pts @ List.map_filter (hist_point fr m bank) [0..<k]"
  have "length ?ps < n" using Suc.prems map_filter_length [of "hist_point fr m bank" "[0..<k]"] by simp
  then show ?case using Suc unpack_point_step [of n ?ps _ fr m bank k] by (simp add: map_filter_snoc)
qed

lemma unpack_frame_points_eq:
  assumes m: "valid_mode m"
  shows "take (up_dest (unpack_frame_points fr m old)) (up_points (unpack_frame_points fr m old)) = hist_points fr m"
    and "length (up_points (unpack_frame_points fr m old)) = nat (mode_points m)"
proof -
  let ?n = "nat (mode_points m)"
  define u0 where "u0 = \<lparr>up_points = resize ?n [F_NaN, F_NaN, F_NaN, F_NaN, F_NaN, F_NaN] old,
        up_dest = 0, up_ts = F_NaN\<rparr>"
  let ?ref = "\<lambda>j. concat (map (\<lambda>b. List.map_filter (hist_point fr m b) [0..<48]) [0..<j])"
  have len: "length (?ref j) \<le> j * 48" for j
  proof (induction j)
    case (Suc j)
    then show ?case using map_filter_length [of "hist_point fr m j" "[0..<48]"] by simp
  qed simp
  have "done_as ?n (?ref j) (fold (unpack_bank fr m) [0..<j] u0)" if "j \<le> used_banks m" for j
    using that
  proof (induction j)
    case 0
    then show ?case by (simp add: u0_def done_as_def resize_def)
  next
    case (Suc j)
    let ?u = "fold (unpack_bank fr m) [0..<j] u0"
    let ?v = "?u\<lparr>up_ts := ts_since (sensor_ts fr j) (sensor_ts fr 0)\<rparr>"
    have "done_as ?n (?ref j) ?v" using Suc by (simp add: done_as_def)
    moreover have "up_ts ?v = point_ts fr m j 0" by (simp add: point_ts_def)
    moreover have "length (?ref j) + 48 \<le> ?n"
      using len [of j] Suc.prems used_banks_points [OF m] mult_le_mono1 [of "Suc j" "used_banks m" 48] by simp
    ultimately have "done_as ?n (?ref j @ List.map_filter (hist_point fr m j) [0..<48]) (unpack_bank fr m j ?u)"
      unfolding unpack_bank_def using unpack_bank_prefix by blast
    then show ?case by simp
  qed
  then have "done_as ?n (hist_points fr m) (unpack_frame_points fr m old)"
    by (simp add: hist_points_def unpack_frame_points_def u0_def)
  then show "take (up_dest (unpack_frame_points fr m old)) (up_points (unpack_frame_points fr m old)) = hist_points fr m"
    "length (up_points (unpack_frame_points fr m old)) = ?n"
    by (simp_all add: done_as_def)
qed

section \<open>Rings\<close>

lemma ring_tables:
  "\<forall>b\<in>set [0..<12]. bank_to_ring_full ! b = line_order ! (2 * b) \<and> bank_to_ring_full ! b + 2 = line_order ! (2 * b + 1)"
  "\<forall>b\<in>set [0..<6]. bank_to_ring_half ! b = half_lines ! (2 * b) \<and> bank_to_ring_half ! b + 1 = half_lines ! (2 * b + 1)"
  by code_simp+

lemma used_banks_cases:
  assumes "valid_mode m"
  shows "used_banks m = (if m = cdc_mode_30m30f then 6 else 12)"
    and "nbr_points_y (mode_of m) = (if m = cdc_mode_30m30f then 12 else 24)"
  using assms by (rule valid_mode_cases; simp add: used_banks_def mode_table cdc_mode_30m30f_def)+

lemma bank_to_ring_line:
  assumes m: "valid_mode m" and b: "bank < used_banks m" and k: "mp < 48"
  shows "bank_to_ring bank mp m =
    (if m = cdc_mode_30m30f then half_lines else line_order) ! ((48 * bank + mp) div 24)"
proof -
  have d: "(48 * bank + mp) div 24 = 2 * bank + mp div 24" by simp
  have "mp div 24 < 2" using k by (simp add: div_less_iff_less_mult)
  then have c: "mp div 24 = 0 \<or> mp div 24 = 1" by linarith
  show ?thesis
  proof (cases "m = cdc_mode_30m30f")
    case True
    then have "bank \<in> set [0..<6]" using b used_banks_cases [OF m] by simp
    from bspec [OF ring_tables(2) this] show ?thesis using c True unfolding d bank_to_ring_def by auto
  next
    case False
    then have "bank \<in> set [0..<12]" using b used_banks_cases [OF m] by simp
    from bspec [OF ring_tables(1) this] show ?thesis using c False unfolding d bank_to_ring_def by auto
  qed
qed

lemma bank_to_ring_slot:
  assumes m: "valid_mode m" and b: "bank < used_banks m" and k: "mp < 48"
  shows "point_slot m (48 * bank + mp) = 24 * bank_to_ring bank mp m + mp mod 24"
proof -
  have "(48 * bank + mp) mod 24 = mp mod 24"
  proof -
    have "48 * bank + mp = mp + 24 * (2 * bank)" by simp
    then show ?thesis by (simp only: mod_mult_self2)
  qed
  then show ?thesis
    unfolding bank_to_ring_line [OF assms] point_slot_def used_banks_cases(2) [OF m] by simp
qed

section \<open>Depth and coordinates\<close>

lemma f_div_4000:
  assumes v: "0 < v" "v < 2 ^ 24"
  shows "\<exists>m e. f_div binary32 (f_of_int binary32 v) (f_of_int binary32 4000) = F_Fin False m e \<and> 0 < m \<and>
    f_div binary32 (f_neg (f_of_int binary32 v)) (f_of_int binary32 4000) = F_Fin True m e \<and>
    \<bar>real_of_int m * 2 powi e - v / 4000\<bar> \<le> v / 4000 * 2 powi (- 24)"
proof -
  obtain m e where me: "f_of_int binary32 v = F_Fin False m e" "0 < m" "real_of_int m * 2 powi e = real_of_int v"
    using f_of_int_pos32 [of v] v by auto
  obtain k g where kg: "f_of_int binary32 4000 = F_Fin False k g" "0 < k" "real_of_int k * 2 powi g = 4000"
    using f_of_int_pos32 [of 4000] by auto
  define q where "q = real_of_int v / 4000"
  have "1 \<le> real_of_int v" using v by linarith
  moreover have "real_of_int v \<le> real_of_int (2 ^ 24)" using v by (simp only: of_int_le_iff)
  ultimately have qb: "1 / 4000 \<le> q" "q \<le> 2 ^ 24 / 4000" by (simp_all add: q_def)
  have "(2::real) powi (f_emin binary32 + int (f_prec binary32) - 1) \<le> 2 powi (- 12)"
    by (rule power_int_increasing) simp_all
  also have "\<dots> \<le> 1 / 4000" by (simp add: power_int_def power_one_over)
  finally have lo: "2 powi (f_emin binary32 + int (f_prec binary32) - 1) \<le> q" using qb by simp
  have "q < 2 powi 24" using qb by (simp add: power_int_def)
  also have "\<dots> \<le> 2 powi (f_emax binary32 + int (f_prec binary32) - 1)"
    by (rule power_int_increasing) simp_all
  finally have hi: "q < 2 powi (f_emax binary32 + int (f_prec binary32) - 1)" .
  have qq: "q = (real_of_int m * 2 powi e) / (real_of_int k * 2 powi g)" using me kg by (simp add: q_def)
  obtain n d where nd: "scale m (e - g) = (n, d)" by (cases "scale m (e - g)")
  obtain m' e' where d: "f_div binary32 (F_Fin False m e) (F_Fin False k g) = F_Fin False m' e'" "2 ^ 23 \<le> m'"
      "\<bar>real_of_int m' * 2 powi e' - q\<bar> \<le> q * 2 powi (- 24)"
    using f_div_rel [OF me(2) kg(2) _ _ qq lo hi, of False False] by auto
  obtain m2 e2 where d2: "f_div binary32 (F_Fin True m e) (F_Fin False k g) = F_Fin True m2 e2"
    using f_div_rel [OF me(2) kg(2) _ _ qq lo hi, of True False] by auto
  have "m2 = m' \<and> e2 = e'"
    using d(1) d2 kg(2) nd by (auto simp: round_frac_def Let_def split: if_splits prod.splits)
  then have "f_div binary32 (f_neg (f_of_int binary32 v)) (f_of_int binary32 4000) = F_Fin True m' e'"
    using me kg d2 by simp
  then show ?thesis using d me kg by (intro exI [of _ m'] exI [of _ e']) (simp add: q_def)
qed

lemma min_depth_val: "min_depth = F_Fin False 13421773 (- 26)"
  by code_simp

lemma depth_gate:
  assumes "uint z < 2 ^ 24"
  shows "f_less min_depth (depth z) \<longleftrightarrow> 800 < uint z"
proof -
  define v where "v = uint z"
  have v: "0 \<le> v" "v < 2 ^ 24" using assms by (simp_all add: v_def)
  have dep: "depth z = f_div binary32 (f_of_int binary32 v) (f_of_int binary32 4000)" by (simp add: depth_def v_def)
  have mv: "f_val (F_Fin False 13421773 (- 26)) = 13421773 / 67108864" by (simp add: power_int_def power_one_over)
  show ?thesis
  proof (cases "v = 0 \<or> v = 800")
    case True
    moreover have "\<not> f_less min_depth (f_div binary32 (f_of_int binary32 0) (f_of_int binary32 4000))"
      "\<not> f_less min_depth (f_div binary32 (f_of_int binary32 800) (f_of_int binary32 4000))"
      by code_simp+
    ultimately show ?thesis by (auto simp: dep v_def [symmetric])
  next
    case False
    obtain m e where me: "depth z = F_Fin False m e"
      "\<bar>real_of_int m * 2 powi e - v / 4000\<bar> \<le> v / 4000 * 2 powi (- 24)"
      using f_div_4000 [of v] v False dep by auto
    have eps: "(2::real) powi (- 24) = 1 / 16777216" by (simp add: power_int_def power_one_over)
    have less: "f_less min_depth (depth z) \<longleftrightarrow> 13421773 / 67108864 < real_of_int m * 2 powi e"
      unfolding me(1) min_depth_val f_less_val mv by simp
    show ?thesis
    proof (cases "800 < v")
      case True
      then have "801 \<le> real_of_int v" by linarith
      then have "13421773 / 67108864 < real_of_int m * 2 powi e" using me(2) unfolding eps by (simp only: abs_le_iff) linarith
      then show ?thesis using True less by (simp add: v_def)
    next
      case F: False
      then have "real_of_int v \<le> 799" using False by linarith
      then have "\<not> 13421773 / 67108864 < real_of_int m * 2 powi e" using me(2) v(1) unfolding eps by (simp only: abs_le_iff) linarith
      then show ?thesis using F less by (simp add: v_def)
    qed
  qed
qed

text \<open>The value of a 22-bit field, sign extended, in quarter millimetres.\<close>

definition signed22 :: "u32 \<Rightarrow> int" where
  "signed22 x = (if uint x < 2 ^ 21 then uint x else uint x - 2 ^ 22)"

lemma and_bit21:
  fixes x :: u32
  assumes "uint x < 2 ^ 22"
  shows "x AND 0x200000 = 0 \<longleftrightarrow> uint x < 2 ^ 21"
proof -
  have "x AND 0x200000 = 0 \<longleftrightarrow> \<not> bit x 21"
    using and_exp_eq_0_iff_not_bit [of x 21] by simp
  also have "bit x 21 \<longleftrightarrow> bit (uint x) 21" by (simp add: bit_uint_iff)
  also have "bit (uint x) 21 \<longleftrightarrow> odd (uint x div 2 ^ 21)" by (rule bit_iff_odd)
  also have "odd (uint x div 2 ^ 21) \<longleftrightarrow> 2 ^ 21 \<le> uint x"
  proof (cases "2 ^ 21 \<le> uint x")
    case True
    then have "uint x div 2 ^ 21 = (uint x - 2 ^ 21) div 2 ^ 21 + 1" by (intro div_pos_geq) simp_all
    moreover have "(uint x - 2 ^ 21) div 2 ^ 21 = 0" using True assms by (intro div_pos_pos_trivial) simp_all
    ultimately show ?thesis using True by simp
  qed (simp add: div_pos_pos_trivial)
  finally show ?thesis by (simp add: not_le)
qed

lemma coord22_val:
  assumes x: "uint x < 2 ^ 22"
  shows "\<exists>m e. coord22 x = F_Fin (signed22 x < 0) m e \<and> (m = 0 \<longleftrightarrow> x = 0) \<and>
    \<bar>f_val (coord22 x) - signed22 x / 4000\<bar> \<le> \<bar>signed22 x\<bar> / 4000 * 2 powi (- 24)"
proof (cases "uint x < 2 ^ 21")
  case True
  then have c: "coord22 x = f_div binary32 (f_of_int binary32 (uint x)) (f_of_int binary32 4000)" "signed22 x = uint x"
    using and_bit21 [OF x] by (simp_all add: coord22_def signed22_def)
  show ?thesis
  proof (cases "x = 0")
    case True
    have "f_div binary32 (f_of_int binary32 0) (f_of_int binary32 4000) = F_Fin False 0 (- 149)" by code_simp
    then show ?thesis using True c by simp
  next
    case False
    then have "0 < uint x" by (simp add: uint_0_iff less_le)
    then show ?thesis using f_div_4000 [of "uint x"] c False True by (auto simp: less_le)
  qed
next
  case False
  define v where "v = 2 ^ 22 - uint x"
  have v: "0 < v" "v < 2 ^ 24" using x False by (simp_all add: v_def)
  have "uint x < 4194304" using x by simp
  then have m: "(4194304 - uint x) mod 4294967296 = 4194304 - uint x"
    using uint_ge_0 [of x] by (intro mod_pos_pos_trivial; linarith)
  have "uint (0x400000 - x) = (4194304 - uint x) mod 4294967296" by (simp add: uint_word_ariths)
  also note m
  also have "4194304 - uint x = v" by (simp add: v_def)
  finally have u: "uint (0x400000 - x) = v" .
  have c: "coord22 x = f_div binary32 (f_neg (f_of_int binary32 v)) (f_of_int binary32 4000)" "signed22 x = - v"
    using and_bit21 [OF x] False u by (simp_all add: coord22_def signed22_def v_def)
  have "x \<noteq> 0" using False by auto
  then show ?thesis using f_div_4000 [OF v] c v by (auto simp: abs_minus_commute)
qed

section \<open>Exposure\<close>

lemma exposure_ns_val:
  "valid_mode m \<Longrightarrow> exposure_ns m = (if m = cdc_mode_30m15f \<or> m = cdc_mode_40m then 65000000 else 32000000)"
proof -
  have f: "f_to_uint 64 (f_of_int binary32 32) = Some 32" "f_to_uint 64 (f_of_int binary32 65) = Some 65"
    by code_simp+
  show "valid_mode m \<Longrightarrow> ?thesis"
    by (erule valid_mode_cases)
      (simp_all add: exposure_ns_def mode_table f cdc_mode_30m15f_def cdc_mode_40m_def)
qed

section \<open>Points as integers\<close>

text \<open>Truncating a non-negative value that fits is taking its floor.\<close>

lemma f_to_uint_floor:
  assumes "0 \<le> m" and "real_of_int m * 2 powi e < 2 ^ w"
  shows "f_to_uint w (F_Fin False m e) = Some \<lfloor>real_of_int m * 2 powi e\<rfloor>"
proof -
  obtain n d where nd: "scale m e = (n, d)" by (cases "scale m e")
  have q: "\<lfloor>quot n d\<rfloor> = n div d" by (simp add: quot_def floor_divide_of_int_eq)
  then have fl: "n div d = \<lfloor>real_of_int m * 2 powi e\<rfloor>" using scale_quot(2) [OF nd] by simp
  have "real_of_int (n div d) < real_of_int (2 ^ w)"
    using assms(2) of_int_floor_le [of "real_of_int m * 2 powi e"] unfolding fl
    by (simp only: of_int_power of_int_numeral)
  then have "n div d < 2 ^ w" by (simp only: of_int_less_iff)
  then show ?thesis using nd fl by simp
qed

lemma f_to_uint_of_int:
  assumes "0 \<le> i" "i < 2 ^ 24" "i < 2 ^ w"
  shows "f_to_uint w (f_of_int binary32 i) = Some i"
proof (cases "i = 0")
  case True
  then show ?thesis by (simp add: f_of_int_def round_frac_def scale_def)
next
  case False
  then obtain m e where me: "f_of_int binary32 i = F_Fin False m e" "0 < m" "real_of_int m * 2 powi e = real_of_int i"
    using f_of_int_pos32 [of i] assms by auto
  have "real_of_int i < real_of_int (2 ^ w)" using assms(3) by (simp only: of_int_less_iff)
  then show ?thesis using f_to_uint_floor [of m e w] me by simp
qed

text \<open>
  A time difference of the sensor times 500 fits into \<open>uint32_t\<close> up to this many counts; the rounding of
  the product does not change that.
\<close>

definition max_ts_diff :: nat where
  "max_ts_diff = 8589934"

lemma ts_since_fits:
  assumes "unat (ts - ts0) \<le> max_ts_diff"
  shows "f_to_uint 32 (ts_since ts ts0) \<noteq> None"
proof -
  define d where "d = uint (ts - ts0)"
  have "d = int (unat (ts - ts0))" by (simp add: d_def)
  then have d: "0 \<le> d" "d \<le> 8589934" using assms unfolding max_ts_diff_def by linarith+
  obtain k g where kg: "f_of_int binary32 500 = F_Fin False k g" "0 < k" "real_of_int k * 2 powi g = 500"
    using f_of_int_pos32 [of 500] by auto
  show ?thesis
  proof (cases "d = 0")
    case True
    then show ?thesis
      unfolding ts_since_def d_def [symmetric] True kg(1) by (simp add: f_of_int_def round_frac_def scale_def)
  next
    case False
    then obtain m e where me: "f_of_int binary32 d = F_Fin False m e" "0 < m" "real_of_int m * 2 powi e = real_of_int d"
      using f_of_int_pos32 [of d] d by auto
    define q where "q = real_of_int d * 500"
    have qb: "500 \<le> q" "q \<le> 8589934 * 500" using d False by (auto simp: q_def)
    have lo: "2 powi (f_emin binary32 + int (f_prec binary32) - 1) \<le> q"
    proof -
      have "(2::real) powi (f_emin binary32 + int (f_prec binary32) - 1) \<le> 2 powi 0"
        by (rule power_int_increasing) simp_all
      then show ?thesis using qb by simp
    qed
    have hi: "q < 2 powi (f_emax binary32 + int (f_prec binary32) - 1)"
    proof -
      have "(2::real) powi 32 \<le> 2 powi (f_emax binary32 + int (f_prec binary32) - 1)"
        by (rule power_int_increasing) simp_all
      moreover have "q < 2 powi 32" using qb by (simp add: power_int_def)
      ultimately show ?thesis by simp
    qed
    have qq: "q = (real_of_int m * 2 powi e) * (real_of_int k * 2 powi g)" using me kg by (simp add: q_def)
    obtain m' e' where r: "f_mul binary32 (F_Fin False m e) (F_Fin False k g) = F_Fin False m' e'" "2 ^ 23 \<le> m'"
        "\<bar>real_of_int m' * 2 powi e' - q\<bar> \<le> q * 2 powi (- 24)"
      using f_mul_rel [OF me(2) kg(2) _ _ qq lo hi, of False False] by auto
    have "q * 2 powi (- 24) \<le> 256" using qb by (simp add: power_int_def field_simps)
    moreover have "real_of_int m' * 2 powi e' - q \<le> q * 2 powi (- 24)" using r(3) by (rule abs_le_D1)
    moreover have "(2::real) ^ 32 = 4294967296" by simp
    ultimately have "real_of_int m' * 2 powi e' < 2 ^ 32" using qb by linarith
    then have "f_to_uint 32 (F_Fin False m' e') \<noteq> None" using f_to_uint_floor [of m' e' 32] r(2) by simp
    then show ?thesis unfolding ts_since_def d_def [symmetric] me(1) kg(1) r(1) by this
  qed
qed

lemma coord22_canon: "f_canon binary32 (coord22 x)"
  by (simp add: coord22_def f_div_canon32)

lemma depth_canon: "f_canon binary32 (depth z)"
  by (simp add: depth_def f_div_canon32)

lemma uint_pushed_byte: "uint (push_bit n (ucast (b :: u8)) :: u32) < 2 ^ (8 + n)"
proof -
  have "uint (ucast b :: u32) = uint b" by (simp add: uint_up_ucast is_up)
  moreover have "uint (push_bit n (ucast b) :: u32) = take_bit LENGTH(32) (push_bit n (uint (ucast b :: u32)))"
    by (rule unsigned_push_bit_eq)
  ultimately have "uint (push_bit n (ucast b) :: u32) = uint b * 2 ^ n mod 2 ^ 32"
    by (simp only: push_bit_eq_mult take_bit_eq_mod) simp
  also have "\<dots> \<le> uint b * 2 ^ n" by (rule zmod_le_nonneg_dividend) simp
  also have "\<dots> < 2 ^ 8 * 2 ^ n" using uint_lt2p [of b] by (intro mult_strict_right_mono) simp_all
  finally show ?thesis by (simp only: power_add)
qed

lemma le24_less: "uint (le24 fr i) < 2 ^ 24"
proof -
  have "uint (ucast (fr ! i) :: u32) < 2 ^ 24" using uint_pushed_byte [of 0 "fr ! i"] by simp
  then show ?thesis
    unfolding le24_def uint_or
    using uint_pushed_byte [of 8 "fr ! (i + 1)"] uint_pushed_byte [of 16 "fr ! (i + 2)"] by (intro OR_upper) simp_all
qed

lemma bank_to_ring_less:
  assumes "valid_mode m" "bank < used_banks m" "mp < 48"
  shows "bank_to_ring bank mp m < 24"
proof -
  have lines: "\<forall>l\<in>set line_order. l < 24" "\<forall>l\<in>set half_lines. l < 24" "length line_order = 24" "length half_lines = 12"
    by code_simp+
  have "(48 * bank + mp) div 24 < 2 * used_banks m" using assms(2,3) by (simp add: div_less_iff_less_mult)
  then show ?thesis
    unfolding bank_to_ring_line [OF assms] using lines used_banks_cases(1) [OF assms(1)] by (auto dest: bspec [OF _ nth_mem])
qed

text \<open>The times of the banks of a frame, taken from the first one.\<close>

definition times_fit :: "u8 list \<Rightarrow> bool" where
  "times_fit fr = list_all (\<lambda>b. unat (sensor_ts fr b - sensor_ts fr 0) \<le> max_ts_diff) [0..<24]"

lemma point_ts_fits:
  assumes "times_fit fr" "bank < 12"
  shows "f_to_uint 32 (point_ts fr m bank n) \<noteq> None"
proof -
  let ?b = "if list_ex (goes_high fr m bank) [0..<n] then bank + 12 else bank"
  have "?b \<in> set [0..<24]" using assms(2) by simp
  with assms(1) have "unat (sensor_ts fr ?b - sensor_ts fr 0) \<le> max_ts_diff"
    unfolding times_fit_def list_all_iff by (rule bspec)
  then show ?thesis unfolding point_ts_def by (rule ts_since_fits)
qed

text \<open>Every number of a point survives its way into a message.\<close>

lemma hist_point_fits:
  assumes p: "hist_point fr m bank mp = Some p" and m: "valid_mode m" "bank < used_banks m" "mp < 48" and t: "times_fit fr"
  shows "f_canon binary32 (p ! 0) \<and> f_canon binary32 (p ! 1) \<and> f_canon binary32 (p ! 2) \<and>
    f_to_uint 32 (p ! 3) \<noteq> None \<and> f_to_uint 32 (p ! 4) \<noteq> None \<and> f_to_uint 16 (p ! 5) = Some (int (bank_to_ring bank mp m))"
proof -
  define sel where "sel = first_peak fr (if take_high fr m bank mp then bank + 12 else bank) mp"
  have pt: "p = [f_neg (coord22 (pk_y sel)), coord22 (pk_x sel), depth (pk_z sel),
      f_of_int binary32 (uint (pk_height sel)), point_ts fr m bank (Suc mp), f_of_int binary32 (int (bank_to_ring bank mp m))]"
    using p by (auto simp: hist_point_def Let_def split: if_splits simp flip: sel_def)
  have "uint (pk_height sel) < 2 ^ 24" using le24_less by (simp add: sel_def first_peak_def Let_def)
  then have h: "f_to_uint 32 (f_of_int binary32 (uint (pk_height sel))) = Some (uint (pk_height sel))"
    by (intro f_to_uint_of_int) simp_all
  have "bank < 12" using m(2) used_banks_cases(1) [OF m(1)] by (simp split: if_splits)
  then have ts: "f_to_uint 32 (point_ts fr m bank (Suc mp)) \<noteq> None" by (rule point_ts_fits [OF t])
  have "f_to_uint 16 (f_of_int binary32 (int (bank_to_ring bank mp m))) = Some (int (bank_to_ring bank mp m))"
    using bank_to_ring_less [OF m] by (intro f_to_uint_of_int) simp_all
  then show ?thesis using h ts by (simp add: pt coord22_canon depth_canon)
qed

lemma hist_points_from:
  assumes "p \<in> set (hist_points fr m)"
  obtains bank mp where "bank < used_banks m" "mp < 48" "hist_point fr m bank mp = Some p"
  using assms by (auto simp: hist_points_def List.map_filter_def)

text \<open>What \<open>unpack_hist_frame\<close> publishes while the device runs and its clock is known.\<close>

lemma unpack_hist_frame_publishes:
  assumes "valid_mode (dev_mode s)" "poll s = (True, s1)" "0 < clock_offset s"
  shows "actions (unpack_hist_frame fr s) =
    actions s @ [Cloud_cb (ucast (cpu_ts fr) * 1000000 + clock_offset s) (hist_points fr (dev_mode s))]"
proof -
  let ?u = "unpack_frame_points fr (dev_mode s) (point_cloud s)"
  have "poll (s\<lparr>point_cloud := up_points ?u\<rparr>) = (True, s1\<lparr>point_cloud := up_points ?u\<rparr>)"
    using assms(2) by (auto simp: poll_def split: option.splits nat.splits)
  moreover have "clock_offset s1 = clock_offset s" "actions s1 = actions s"
    using assms(2) by (auto simp: poll_def split: option.splits nat.splits)
  ultimately show ?thesis
    using assms(3) unpack_frame_points_eq(1) [OF assms(1), of fr "point_cloud s"]
    by (simp add: unpack_hist_frame_def Let_def act_def)
qed

section \<open>Properties\<close>

text \<open>C4: for every frame and mode, the write loop over banks and points leaves exactly the list of the
  valid points, bank by bank, and never writes past the vector; the time of a point is that of the low-exposure
  bank until the first point of the bank taken from the high exposure, and stays the high one after it.\<close>

theorem hist_points_exact:
  assumes "valid_mode m"
  shows "take (up_dest (unpack_frame_points fr m old)) (up_points (unpack_frame_points fr m old)) = hist_points fr m \<and>
    length (up_points (unpack_frame_points fr m old)) = nat (mode_points m) \<and>
    length (hist_points fr m) \<le> nat (mode_points m)"
  using unpack_frame_points_eq [OF assms, of fr old]
  by (metis length_take min.cobounded1)

lemma hist_points_exact_witness:
  "length (hist_points [] 3) \<le> 288"
  using hist_points_exact [of 3 "[]" "[]"] by (simp add: valid_mode_def mode_points_def mode_table)

text \<open>C14: unpacking reads only the bytes of the frame: the result does not depend on anything beyond the
  width times height times two bytes that \<open>run_v4l2\<close> requires of a buffer, in any mode.\<close>

theorem hist_reads_in_frame:
  assumes "valid_mode m"
  shows "unpack_frame_points (take (frame_bytes m) fr) m old = unpack_frame_points fr m old \<and>
    frame_bytes m = nat (nbr_banks (mode_of m)) * sizeof_bank"
  using unpack_frame_take [OF assms] frame_bytes_banks [OF assms] by simp

lemma hist_reads_in_frame_witness:
  "unpack_frame_points (take 806400 (replicate 900000 7)) 0 [] = unpack_frame_points (replicate 900000 7) 0 []"
proof -
  have "frame_bytes 0 = 806400" "valid_mode 0" by (simp_all add: frame_bytes_def mode_table valid_mode_def)
  then show ?thesis using hist_reads_in_frame [of 0 "replicate 900000 7" "[]"] by metis
qed



text \<open>a 22-bit field becomes its signed value over 4000, with its sign, up to one float rounding.\<close>

theorem hist_coordinate_error:
  assumes "uint x < 2 ^ 22"
  shows "\<exists>m e. coord22 x = F_Fin (signed22 x < 0) m e \<and> (m = 0 \<longleftrightarrow> x = 0) \<and>
    \<bar>f_val (coord22 x) - signed22 x / 4000\<bar> \<le> \<bar>signed22 x\<bar> / 4000 * 2 powi (- 24)"
  using assms by (rule coord22_val)

lemma hist_coordinate_error_witness:
  "\<bar>f_val (coord22 0x3FFFFF) + 1 / 4000\<bar> \<le> 1 / 4000 * 2 powi (- 24)"
  using hist_coordinate_error [of "0x3FFFFF"] by (auto simp: signed22_def)

text \<open>C16: the ring of a point of a bank is the line the CDC reader puts the same point on, so both readers
  agree on the geometry of every mode.\<close>

theorem rings_agree_with_cdc:
  assumes "valid_mode m" "bank < used_banks m" "mp < 48"
  shows "point_slot m (48 * bank + mp) = 24 * bank_to_ring bank mp m + mp mod 24"
  using assms by (rule bank_to_ring_slot)

lemma rings_agree_with_cdc_witness: "bank_to_ring 1 30 0 = 14"
  using rings_agree_with_cdc [of 0 1 30]
  by (simp add: valid_mode_def used_banks_def mode_table point_slot_def line_order_def)

end
