(* ===== verification/Video.thy ===== *)
theory Video
  imports Hist
begin

text \<open>
  The video thread of a histogram-mode device (\<open>device/dt1_device_hist.cpp\<close>:
  \<open>xioctl\<close>, \<open>v4l2_stream_on\<close>, \<open>v4l2_stream_off\<close>, \<open>run_v4l2\<close>). The kernel is the
  environment: the replies to the \<open>ioctl\<close> calls, the results of \<open>mmap\<close> and of
  \<open>select\<close>, and the contents of the buffers. What the code asks for is recorded.
\<close>

section \<open>State\<close>

text \<open>A reply: success with up to three fields, or one of the errors the code tells apart.\<close>

datatype reply = Rep_ok u32 u32 u32 | Rep_eintr | Rep_eagain | Rep_error

datatype call =
    Querycap
  | S_fmt int int
  | Reqbufs nat
  | Querybuf nat
  | Qbuf nat
  | Dqbuf nat
  | Stream_on
  | Stream_off
  | Munmap nat
  | Close_fd int

text \<open>\<open>mapped_buffer\<close>: \<open>start\<close> is null, \<open>MAP_FAILED\<close> or an address.\<close>

datatype start = Null_start | Map_failed | Start nat

record video =
  replies :: "reply list"
  mmaps :: "nat option list"
  calls :: "call list"
  v_fd :: int
  buffers :: "(start \<times> u32) list"
  mapped :: "nat list"

definition call_to :: "call \<Rightarrow> video \<Rightarrow> video" where
  "call_to c v = v\<lparr>calls := calls v @ [c]\<rparr>"

text \<open>\<open>xioctl\<close> repeats the call while it is interrupted; the last reply counts.\<close>

fun xreply :: "reply list \<Rightarrow> (reply, reply list) outcome" where
  "xreply [] = Block []"
| "xreply (Rep_eintr # q) = xreply q"
| "xreply (r # q) = Ret r q"

definition xioctl :: "call \<Rightarrow> video \<Rightarrow> (reply, video) outcome" where
  "xioctl c v =
     (case xreply (replies v) of
        Ret r q \<Rightarrow> Ret r (call_to c (v\<lparr>replies := q\<rparr>))
      | Throw e q \<Rightarrow> Throw e (v\<lparr>replies := q\<rparr>)
      | Block q \<Rightarrow> Block (v\<lparr>replies := q\<rparr>))"

text \<open>\<open>if (xioctl(...) < 0) return false\<close>, then go on with the fields.\<close>

definition ioctl_or_false ::
  "call \<Rightarrow> (u32 \<Rightarrow> u32 \<Rightarrow> video \<Rightarrow> (bool, video) outcome) \<Rightarrow> video \<Rightarrow> (bool, video) outcome" where
  "ioctl_or_false c k v =
     seq (xioctl c v) (\<lambda>r v. case r of Rep_ok a b _ \<Rightarrow> k a b v | _ \<Rightarrow> Ret False v)"

section \<open>Stream on\<close>

definition cap_video_capture :: u32 where "cap_video_capture = 0x1"
definition cap_streaming :: u32 where "cap_streaming = 0x04000000"

definition do_mmap :: "nat \<Rightarrow> u32 \<Rightarrow> video \<Rightarrow> bool \<times> video" where
  "do_mmap i len v =
     (case mmaps v of
        Some a # q \<Rightarrow>
          (True, v\<lparr>mmaps := q, buffers := (buffers v)[i := (Start a, len)], mapped := mapped v @ [a]\<rparr>)
      | None # q \<Rightarrow> (False, v\<lparr>mmaps := q, buffers := (buffers v)[i := (Map_failed, len)]\<rparr>)
      | [] \<Rightarrow> (False, v\<lparr>buffers := (buffers v)[i := (Map_failed, len)]\<rparr>))"

fun map_buffers :: "nat list \<Rightarrow> video \<Rightarrow> (bool, video) outcome" where
  "map_buffers [] v = Ret True v"
| "map_buffers (i # is) v =
     ioctl_or_false (Querybuf i) (\<lambda>len off v.
       case do_mmap i len v of (ok, v) \<Rightarrow> if ok then map_buffers is v else Ret False v) v"

fun queue_buffers :: "nat list \<Rightarrow> video \<Rightarrow> (bool, video) outcome" where
  "queue_buffers [] v = Ret True v"
| "queue_buffers (i # is) v = ioctl_or_false (Qbuf i) (\<lambda>_ _. queue_buffers is) v"

definition seq_true :: "(bool, 's) outcome \<Rightarrow> ('s \<Rightarrow> (bool, 's) outcome) \<Rightarrow> (bool, 's) outcome" where
  "seq_true m k = seq m (\<lambda>b s. if b then k s else Ret False s)"

definition v4l2_stream_on :: "int \<Rightarrow> video \<Rightarrow> (bool, video) outcome" where
  "v4l2_stream_on m =
     ioctl_or_false Querycap (\<lambda>caps _ v.
       if caps AND cap_video_capture = 0 then Ret False v
       else if caps AND cap_streaming = 0 then Ret False v
       else
         ioctl_or_false (S_fmt (hist_frame_width (mode_of m)) (hist_frame_height (mode_of m))) (\<lambda>_ _.
         ioctl_or_false (Reqbufs 3) (\<lambda>cnt _ v.
           seq_true (map_buffers [0..<unat cnt] (v\<lparr>buffers := replicate (unat cnt) (Null_start, 0)\<rparr>)) (\<lambda>v.
           seq_true (queue_buffers [0..<unat cnt] v)
             (ioctl_or_false Stream_on (\<lambda>_ _. Ret True))))) v)"

section \<open>Stream off\<close>

fun unmap_all :: "(start \<times> u32) list \<Rightarrow> video \<Rightarrow> video" where
  "unmap_all [] v = v"
| "unmap_all ((Start a, len) # bs) v = unmap_all bs (call_to (Munmap a) (v\<lparr>mapped := remove1 a (mapped v)\<rparr>))"
| "unmap_all ((s, len) # bs) v = unmap_all bs v"

definition v4l2_stream_off :: "video \<Rightarrow> (unit, video) outcome" where
  "v4l2_stream_off v =
     seq (xioctl Stream_off v) (\<lambda>_ v.
       let v = (unmap_all (buffers v) v)\<lparr>buffers := []\<rparr>
       in Ret () (call_to (Close_fd (v_fd v)) v))"

section \<open>The thread\<close>

text \<open>
  What one turn of the capture loop meets: the result of \<open>select\<close> and the bytes of the buffer
  taken out.
\<close>

record vturn =
  tn_select :: int
  tn_frame :: "u8 list"

type_synonym hdev = "dev \<times> video"

definition on_video :: "(video \<Rightarrow> ('a, video) outcome) \<Rightarrow> hdev \<Rightarrow> ('a, hdev) outcome" where
  "on_video f s =
     (case f (snd s) of
        Ret x v \<Rightarrow> Ret x (fst s, v)
      | Throw e v \<Rightarrow> Throw e (fst s, v)
      | Block v \<Rightarrow> Block (fst s, v))"

definition poll2 :: "hdev \<Rightarrow> bool \<times> hdev" where
  "poll2 s = (case poll (fst s) of (r, d) \<Rightarrow> (r, (d, snd s)))"

text \<open>\<open>VIDIOC_DQBUF\<close>: the fields are the index, the flags and \<open>bytesused\<close>.\<close>

definition dqbuf :: "video \<Rightarrow> (reply, video) outcome" where
  "dqbuf v =
     (case xreply (replies v) of
        Ret r q \<Rightarrow>
          Ret r (case r of Rep_ok i _ _ \<Rightarrow> call_to (Dqbuf (unat i)) (v\<lparr>replies := q\<rparr>) | _ \<Rightarrow> v\<lparr>replies := q\<rparr>)
      | Throw e q \<Rightarrow> Throw e (v\<lparr>replies := q\<rparr>)
      | Block q \<Rightarrow> Block (v\<lparr>replies := q\<rparr>))"

definition buf_flag_error :: u32 where "buf_flag_error = 0x40"

definition expected_bytes :: "int \<Rightarrow> u32" where
  "expected_bytes m = word_of_int (hist_frame_width (mode_of m) * hist_frame_height (mode_of m) * 2)"

fun v4l2_loop :: "vturn list \<Rightarrow> hdev \<Rightarrow> (unit, hdev) outcome" where
  "v4l2_loop [] s = (case poll2 s of (r, s) \<Rightarrow> if r then Block s else Ret () s)"
| "v4l2_loop (t # ts) s =
     (case poll2 s of (r, s) \<Rightarrow>
        if \<not> r then Ret () s
        else if tn_select t < 0 then Ret () s
        else if tn_select t = 0 then Ret () s
        else
          seq (on_video dqbuf s) (\<lambda>rep s.
            case rep of
              Rep_ok i flags used \<Rightarrow>
                if flags AND buf_flag_error \<noteq> 0 then
                  seq (on_video (xioctl (Qbuf (unat i))) s) (\<lambda>_. v4l2_loop ts)
                else
                  let s = (if used = expected_bytes (dev_mode (fst s))
                           then (unpack_hist_frame (tn_frame t) (fst s), snd s) else s)
                  in seq (on_video (xioctl (Qbuf (unat i))) s) (\<lambda>rep2 s.
                       case rep2 of Rep_ok _ _ _ \<Rightarrow> v4l2_loop ts s | _ \<Rightarrow> Ret () s)
            | Rep_eagain \<Rightarrow> v4l2_loop ts s
            | _ \<Rightarrow> Ret () s))"

text \<open>\<open>fds\<close> are the results of \<open>open_video_device_by_serial\<close>, one per attempt.\<close>

fun open_loop :: "int list \<Rightarrow> hdev \<Rightarrow> (unit, hdev) outcome" where
  "open_loop [] s = (case poll2 s of (r, s) \<Rightarrow> if r then Block s else Ret () s)"
| "open_loop (fd # fds) s =
     (case poll2 s of (r, s) \<Rightarrow>
        if \<not> r then Ret () s
        else
          let s = (fst s, (snd s)\<lparr>v_fd := fd\<rparr>)
          in if fd < 0 then open_loop fds s else Ret () s)"

definition stop_running :: "hdev \<Rightarrow> hdev" where
  "stop_running s = ((fst s)\<lparr>running := False\<rparr>, snd s)"

definition run_v4l2 :: "int list \<Rightarrow> vturn list \<Rightarrow> hdev \<Rightarrow> (unit, hdev) outcome" where
  "run_v4l2 fds ts s =
     seq (open_loop fds s) (\<lambda>_ s.
     case poll2 s of (r, s) \<Rightarrow>
       if \<not> r then Ret () s
       else
         seq (on_video (v4l2_stream_on (dev_mode (fst s))) s) (\<lambda>streaming s.
         let s = (if streaming then s else stop_running s)
         in seq (v4l2_loop ts s) (\<lambda>_ s. Ret () (stop_running s))))"

text \<open>\<open>stop_impl\<close>, the video thread joined: \<open>v4l2_stream_off\<close> when the device was opened.\<close>

definition stop_impl_hist :: "video \<Rightarrow> (unit, video) outcome" where
  "stop_impl_hist v =
     (if 0 \<le> v_fd v then seq (v4l2_stream_off v) (\<lambda>_ v. Ret () (v\<lparr>v_fd := - 1\<rparr>)) else Ret () v)"

section \<open>Mappings\<close>

text \<open>The addresses a list of buffers holds mapped.\<close>

definition maps_of :: "(start \<times> u32) list \<Rightarrow> nat list" where
  "maps_of bs = concat (map (\<lambda>(s, len). case s of Start a \<Rightarrow> [a] | _ \<Rightarrow> []) bs)"

lemma maps_of_append [simp]: "maps_of (xs @ ys) = maps_of xs @ maps_of ys"
  by (simp add: maps_of_def)

lemma maps_of_replicate [simp]: "maps_of (replicate n (Null_start, l)) = []"
  by (induction n) (simp_all add: maps_of_def)

definition all_started :: "(start \<times> u32) list \<Rightarrow> bool" where
  "all_started bs \<longleftrightarrow> list_all (\<lambda>(s, len). \<exists>a. s = Start a) bs"

definition all_mapped :: "video \<Rightarrow> bool" where
  "all_mapped v \<longleftrightarrow> mapped v = maps_of (buffers v)"

lemma call_to_simps [simp]:
  "buffers (call_to c v) = buffers v" "mapped (call_to c v) = mapped v" "v_fd (call_to c v) = v_fd v"
  "calls (call_to c v) = calls v @ [c]"
  by (simp_all add: call_to_def)

lemma xioctl_Ret:
  "xioctl c v = Ret r w \<Longrightarrow>
   buffers w = buffers v \<and> mapped w = mapped v \<and> v_fd w = v_fd v \<and> calls w = calls v @ [c]"
  by (auto simp: xioctl_def split: outcome.splits)

lemma ioctl_or_false_Ret:
  assumes "ioctl_or_false c k v = Ret b w"
  obtains (failed) "\<not> b" "buffers w = buffers v" "mapped w = mapped v" "v_fd w = v_fd v"
  | (ok) x y u where "k x y u = Ret b w" "buffers u = buffers v" "mapped u = mapped v" "v_fd u = v_fd v"
      "calls u = calls v @ [c]"
proof -
  obtain r u where u: "xioctl c v = Ret r u" "(case r of Rep_ok a b _ \<Rightarrow> k a b u | _ \<Rightarrow> Ret False u) = Ret b w"
    using assms by (auto simp: ioctl_or_false_def seq_eq_Ret_iff)
  show thesis
    using u(2) xioctl_Ret [OF u(1)] failed ok by (cases r) auto
qed

lemma seq_true_Ret_iff:
  "seq_true m k = Ret b w \<longleftrightarrow> (\<exists>x s. m = Ret x s \<and> (if x then k s else Ret False s) = Ret b w)"
  by (simp add: seq_true_def seq_eq_Ret_iff)

lemma list_update_next:
  "length bs = i \<Longrightarrow> (bs @ replicate (Suc n) x)[i := y] = (bs @ [y]) @ replicate n x"
  by (simp add: list_update_append)

lemma map_buffers_Ret:
  assumes "map_buffers [i..<n] v = Ret b w" and "i \<le> n"
    and "buffers v = bs @ replicate (n - i) (Null_start, 0)" "length bs = i" "mapped v = maps_of bs"
  shows "all_mapped w \<and> v_fd w = v_fd v \<and>
    (b \<longrightarrow> length (buffers w) = n \<and> (all_started bs \<longrightarrow> all_started (buffers w)) \<and>
      calls w = calls v @ map Querybuf [i..<n])"
  using assms(2,1,3-5)
proof (induction i arbitrary: v bs rule: inc_induct)
  case base
  then show ?case by (simp add: all_mapped_def)
next
  case (step i)
  have up: "[i..<n] = i # [Suc i..<n]" using step.hyps by (simp add: upt_conv_Cons)
  have buf: "buffers v = bs @ replicate (Suc (n - Suc i)) (Null_start, 0)"
    using step.prems(2) step.hyps by (simp add: Suc_diff_Suc)
  from step.prems(1)[unfolded up map_buffers.simps] show ?case
  proof (cases rule: ioctl_or_false_Ret)
    case failed
    then show ?thesis using step.prems by (simp add: all_mapped_def)
  next
    case (ok len off u)
    obtain r w1 where d: "do_mmap i len u = (r, w1)" by (cases "do_mmap i len u")
    have ub: "buffers u = bs @ replicate (Suc (n - Suc i)) (Null_start, 0)" using ok buf by simp
    show ?thesis
    proof (cases "\<exists>a q. mmaps u = Some a # q")
      case True
      then obtain a q where q: "mmaps u = Some a # q" by blast
      let ?bs = "bs @ [(Start a, len)]"
      have w1: "r" "buffers w1 = ?bs @ replicate (n - Suc i) (Null_start, 0)" "mapped w1 = maps_of ?bs"
        "v_fd w1 = v_fd v" "calls w1 = calls v @ [Querybuf i]"
        using d q ok(3-5) ub list_update_next [OF step.prems(3)] step.prems(4)
        by (auto simp: do_mmap_def maps_of_def)
      have "map_buffers [Suc i..<n] w1 = Ret b w" using ok(1) d w1(1) by simp
      from step.IH [OF this w1(2) _ w1(3)] show ?thesis
        using step.prems(3) w1(4,5) up by (simp add: all_started_def)
    next
      case False
      then have "\<not> r" "buffers w1 = (bs @ [(Map_failed, len)]) @ replicate (n - Suc i) (Null_start, 0)"
        "mapped w1 = mapped u" "v_fd w1 = v_fd u"
        using d ub list_update_next [OF step.prems(3)]
        by (auto simp: do_mmap_def split: list.splits option.splits)
      moreover from this have "\<not> b \<and> w = w1" using ok(1) d by simp
      ultimately show ?thesis using ok step.prems(4) by (simp add: all_mapped_def maps_of_def)
    qed
  qed
qed

lemma queue_buffers_Ret:
  "queue_buffers is v = Ret b w \<Longrightarrow> buffers w = buffers v \<and> mapped w = mapped v \<and> v_fd w = v_fd v \<and>
     (b \<longrightarrow> calls w = calls v @ map Qbuf is)"
proof (induction "is" arbitrary: v)
  case (Cons i "is")
  from Cons.prems [unfolded queue_buffers.simps] show ?case
    by (cases rule: ioctl_or_false_Ret) (use Cons.IH in auto)
qed simp

text \<open>The buffers: mapped, queued and streaming started.\<close>

lemma stream_buffers_Ret:
  assumes "seq_true (map_buffers [0..<n] (u\<lparr>buffers := replicate n (Null_start, 0)\<rparr>)) (\<lambda>v.
      seq_true (queue_buffers [0..<n] v) (ioctl_or_false Stream_on (\<lambda>_ _. Ret True))) = Ret b w"
    and "mapped u = []"
  shows "all_mapped w \<and> v_fd w = v_fd u \<and>
    (b \<longrightarrow> all_started (buffers w) \<and> length (buffers w) = n \<and>
      calls w = calls u @ map Querybuf [0..<n] @ map Qbuf [0..<n] @ [Stream_on])"
proof -
  let ?v = "u\<lparr>buffers := replicate n (Null_start, 0)\<rparr>"
  obtain b1 u1 where m1: "map_buffers [0..<n] ?v = Ret b1 u1"
    and rest: "(if b1 then seq_true (queue_buffers [0..<n] u1) (ioctl_or_false Stream_on (\<lambda>_ _. Ret True))
      else Ret False u1) = Ret b w"
    using assms(1) by (auto simp: seq_true_Ret_iff)
  have 1: "all_mapped u1 \<and> v_fd u1 = v_fd u \<and>
      (b1 \<longrightarrow> length (buffers u1) = n \<and> all_started (buffers u1) \<and> calls u1 = calls u @ map Querybuf [0..<n])"
    using map_buffers_Ret [OF m1, of "[]"] assms(2) by (simp add: maps_of_def all_started_def)
  show ?thesis
  proof (cases b1)
    case True
    then obtain b2 u2 where q2: "queue_buffers [0..<n] u1 = Ret b2 u2"
      and s2: "(if b2 then ioctl_or_false Stream_on (\<lambda>_ _. Ret True) u2 else Ret False u2) = Ret b w"
      using rest by (auto simp: seq_true_Ret_iff)
    note 2 = queue_buffers_Ret [OF q2]
    show ?thesis
    proof (cases b2)
      case b2: True
      with s2 have "ioctl_or_false Stream_on (\<lambda>_ _. Ret True) u2 = Ret b w" by simp
      then show ?thesis
        by (cases rule: ioctl_or_false_Ret) (use True b2 1 2 in \<open>auto simp: all_mapped_def all_started_def\<close>)
    qed (use s2 1 2 in \<open>simp add: all_mapped_def\<close>)
  qed (use rest 1 in simp)
qed

lemma stream_on_Ret:
  assumes "v4l2_stream_on m v = Ret b w" and "all_mapped v" "mapped v = []"
  shows "all_mapped w \<and> v_fd w = v_fd v \<and>
    (b \<longrightarrow> all_started (buffers w) \<and>
      calls w = calls v @
        [Querycap, S_fmt (hist_frame_width (mode_of m)) (hist_frame_height (mode_of m)), Reqbufs 3] @
        map Querybuf [0..<length (buffers w)] @ map Qbuf [0..<length (buffers w)] @ [Stream_on])"
  using assms(1) unfolding v4l2_stream_on_def
proof (cases rule: ioctl_or_false_Ret)
  case failed
  then show ?thesis using assms by (simp add: all_mapped_def)
next
  case (ok caps x1 u)
  show ?thesis
  proof (cases "caps AND cap_video_capture = 0 \<or> caps AND cap_streaming = 0")
    case True
    then have "\<not> b \<and> w = u" using ok(1) by (auto split: if_splits)
    then show ?thesis using ok assms by (simp add: all_mapped_def)
  next
    case False
    from ok(1) False
    have "ioctl_or_false (S_fmt (hist_frame_width (mode_of m)) (hist_frame_height (mode_of m))) (\<lambda>_ _.
         ioctl_or_false (Reqbufs 3) (\<lambda>cnt _ v.
           seq_true (map_buffers [0..<unat cnt] (v\<lparr>buffers := replicate (unat cnt) (Null_start, 0)\<rparr>)) (\<lambda>v.
           seq_true (queue_buffers [0..<unat cnt] v)
             (ioctl_or_false Stream_on (\<lambda>_ _. Ret True))))) u = Ret b w"
      by simp
    then show ?thesis
    proof (cases rule: ioctl_or_false_Ret)
      case failed
      then show ?thesis using ok assms by (simp add: all_mapped_def)
    next
      case o2: (ok x2 y2 u2)
      from o2(1) show ?thesis
      proof (cases rule: ioctl_or_false_Ret)
        case failed
        then show ?thesis using ok o2 assms by (simp add: all_mapped_def)
      next
        case o3: (ok cnt y3 u3)
        have "mapped u3 = []" "calls u3 = calls v @
            [Querycap, S_fmt (hist_frame_width (mode_of m)) (hist_frame_height (mode_of m)), Reqbufs 3]"
          "v_fd u3 = v_fd v" using ok o2 o3 assms by simp_all
        then show ?thesis using stream_buffers_Ret [OF o3(1)] by simp
      qed
    qed
  qed
qed

lemma unmap_all_mapped: "mapped v = maps_of bs \<Longrightarrow> mapped (unmap_all bs v) = []"
proof (induction bs arbitrary: v)
  case Nil
  then show ?case by (simp add: maps_of_def)
next
  case (Cons b bs)
  obtain s l where "b = (s, l)" by (cases b)
  then show ?case using Cons by (cases s) (simp_all add: maps_of_def)
qed

lemma unmap_all_fd: "v_fd (unmap_all bs v) = v_fd v"
  by (induction bs v rule: unmap_all.induct) simp_all

lemma stream_off_Ret:
  assumes "v4l2_stream_off v = Ret () w" and "all_mapped v"
  shows "mapped w = [] \<and> buffers w = [] \<and> last (calls w) = Close_fd (v_fd v)"
proof -
  obtain r u where u: "xioctl Stream_off v = Ret r u"
    and w: "w = call_to (Close_fd (v_fd u)) ((unmap_all (buffers u) u)\<lparr>buffers := []\<rparr>)"
    using assms(1) by (auto simp: v4l2_stream_off_def seq_eq_Ret_iff Let_def unmap_all_fd)
  have "mapped (unmap_all (buffers u) u) = []"
    using xioctl_Ret [OF u] assms(2) by (intro unmap_all_mapped) (simp add: all_mapped_def)
  then show ?thesis using w xioctl_Ret [OF u] by simp
qed

section \<open>Buffers go back\<close>

text \<open>Every buffer taken out is the next one queued again.\<close>

fun buffers_returned :: "call list \<Rightarrow> bool" where
  "buffers_returned [] = True"
| "buffers_returned (Dqbuf i # Qbuf j # cs) = (i = j \<and> buffers_returned cs)"
| "buffers_returned _ = False"

lemma on_video_Ret: "on_video f s = Ret x t \<Longrightarrow> \<exists>v. f (snd s) = Ret x v \<and> t = (fst s, v)"
  by (auto simp: on_video_def split: outcome.splits)

lemma dqbuf_Ret:
  "dqbuf v = Ret r w \<Longrightarrow> calls w = calls v @ (case r of Rep_ok i _ _ \<Rightarrow> [Dqbuf (unat i)] | _ \<Rightarrow> [])"
  by (auto simp: dqbuf_def split: outcome.splits reply.splits)

lemma poll2_snd: "poll2 s = (r, t) \<Longrightarrow> snd t = snd s \<and> r = running (fst t)"
  by (auto simp: poll2_def dest: poll_running split: prod.splits)

lemma v4l2_loop_returns_buffers:
  "v4l2_loop ts s = Ret () t \<Longrightarrow> \<exists>cs. calls (snd t) = calls (snd s) @ cs \<and> buffers_returned cs"
proof (induction ts arbitrary: s)
  case Nil
  obtain r s1 where p: "poll2 s = (r, s1)" by (cases "poll2 s")
  then show ?case using Nil poll2_snd [OF p] by (auto split: if_splits intro: exI [of _ "[]"])
next
  case (Cons tn ts)
  obtain r s1 where p: "poll2 s = (r, s1)" by (cases "poll2 s")
  show ?case
  proof (cases "\<not> r \<or> tn_select tn \<le> 0")
    case True
    then show ?thesis using Cons.prems p poll2_snd [OF p]
      by (auto split: if_splits intro: exI [of _ "[]"])
  next
    case False
    then obtain rep s2 where s2: "on_video dqbuf s1 = Ret rep s2"
      using Cons.prems p by (auto simp: seq_eq_Ret_iff split: if_splits)
    obtain v where v: "dqbuf (snd s1) = Ret rep v" "s2 = (fst s1, v)" using on_video_Ret [OF s2] by blast
    note c2 = dqbuf_Ret [OF v(1)] poll2_snd [OF p]
    show ?thesis
    proof (cases rep)
      case (Rep_ok i flags used)
      define s3 where "s3 = (if flags AND buf_flag_error \<noteq> 0 then s2
        else if used = expected_bytes (dev_mode (fst s2))
        then (unpack_hist_frame (tn_frame tn) (fst s2), snd s2) else s2)"
      have "snd s3 = snd s2" by (simp add: s3_def)
      obtain rep2 s4 where s4: "on_video (xioctl (Qbuf (unat i))) s3 = Ret rep2 s4"
        and turn: "(if flags AND buf_flag_error \<noteq> 0 then v4l2_loop ts s4
          else case rep2 of Rep_ok _ _ _ \<Rightarrow> v4l2_loop ts s4 | _ \<Rightarrow> Ret () s4) = Ret () t"
        using Cons.prems p False s2 Rep_ok
        by (auto simp: seq_eq_Ret_iff s3_def Let_def split: if_splits)
      have next_turn: "v4l2_loop ts s4 = Ret () t \<or> t = s4"
        using turn by (cases rep2) (auto split: if_splits)
      have c4: "calls (snd s4) = calls (snd s) @ [Dqbuf (unat i), Qbuf (unat i)]"
        using on_video_Ret [OF s4] xioctl_Ret c2 v Rep_ok \<open>snd s3 = snd s2\<close> by fastforce
      show ?thesis
        using next_turn
      proof
        assume "v4l2_loop ts s4 = Ret () t"
        then obtain cs where "calls (snd t) = calls (snd s4) @ cs" "buffers_returned cs"
          using Cons.IH by blast
        then show ?thesis using c4 by (intro exI [of _ "Dqbuf (unat i) # Qbuf (unat i) # cs"]) simp
      next
        assume "t = s4"
        then show ?thesis using c4 by (intro exI [of _ "[Dqbuf (unat i), Qbuf (unat i)]"]) simp
      qed
    next
      case Rep_eagain
      then have "v4l2_loop ts s2 = Ret () t" using Cons.prems p False s2 by simp
      then show ?thesis using Cons.IH c2 v Rep_eagain by fastforce
    qed (use Cons.prems p False s2 c2 v in \<open>auto intro: exI [of _ "[]"]\<close>)
  qed
qed

lemma open_loop_Ret:
  "open_loop fds s = Ret () t \<Longrightarrow> snd t = (snd s)\<lparr>v_fd := v_fd (snd t)\<rparr>"
proof (induction fds arbitrary: s)
  case Nil
  obtain r s1 where p: "poll2 s = (r, s1)" by (cases "poll2 s")
  then show ?case using Nil poll2_snd [OF p] by (auto split: if_splits)
next
  case (Cons fd fds)
  obtain r s1 where p: "poll2 s = (r, s1)" by (cases "poll2 s")
  show ?case
  proof (cases "r \<and> fd < 0")
    case True
    then have "open_loop fds (fst s1, (snd s1)\<lparr>v_fd := fd\<rparr>) = Ret () t" using Cons.prems p by simp
    then show ?thesis using Cons.IH poll2_snd [OF p] by fastforce
  next
    case False
    then show ?thesis using Cons.prems p poll2_snd [OF p] by (auto split: if_splits)
  qed
qed

section \<open>The thread gives back what it took\<close>

text \<open>Setting up takes no buffer out.\<close>

definition grows :: "video \<Rightarrow> video \<Rightarrow> bool" where
  "grows v w \<longleftrightarrow> (\<exists>cs. calls w = calls v @ cs \<and> (\<forall>i. Dqbuf i \<notin> set cs))"

lemma grows_refl: "calls w = calls v \<Longrightarrow> grows v w"
  by (simp add: grows_def)

lemma grows_trans: "grows u v \<Longrightarrow> grows v w \<Longrightarrow> grows u w"
  by (fastforce simp: grows_def)

lemma ioctl_or_false_grows:
  assumes "ioctl_or_false c k v = Ret b w" and "\<And>i. c \<noteq> Dqbuf i" and "\<And>x y u. k x y u = Ret b w \<Longrightarrow> grows u w"
  shows "grows v w"
proof -
  obtain r u where u: "xioctl c v = Ret r u" "(case r of Rep_ok a b _ \<Rightarrow> k a b u | _ \<Rightarrow> Ret False u) = Ret b w"
    using assms(1) by (auto simp: ioctl_or_false_def seq_eq_Ret_iff)
  have "grows v u" using xioctl_Ret [OF u(1)] assms(2) by (auto simp: grows_def)
  moreover have "grows u w" using u(2) assms(3) grows_refl [OF refl] by (cases r) auto
  ultimately show ?thesis by (rule grows_trans)
qed

lemma seq_true_grows:
  assumes "seq_true m k = Ret b w" and "\<And>x s. m = Ret x s \<Longrightarrow> grows v s" and "\<And>s. k s = Ret b w \<Longrightarrow> grows s w"
  shows "grows v w"
proof -
  obtain x s where s: "m = Ret x s" "(if x then k s else Ret False s) = Ret b w"
    using assms(1) by (auto simp: seq_true_Ret_iff)
  have "grows s w" using s(2) assms(3) grows_refl [OF refl] by (cases x) auto
  then show ?thesis using assms(2) [OF s(1)] grows_trans by blast
qed

lemma map_buffers_grows: "map_buffers is v = Ret b w \<Longrightarrow> grows v w"
proof (induction "is" arbitrary: v)
  case (Cons i "is")
  show ?case
  proof (rule ioctl_or_false_grows [OF Cons.prems [unfolded map_buffers.simps]])
    fix x y u
    assume k: "(case do_mmap i x u of (ok, v) \<Rightarrow> if ok then map_buffers is v else Ret False v) = Ret b w"
    obtain r w1 where d: "do_mmap i x u = (r, w1)" by (cases "do_mmap i x u")
    have "calls w1 = calls u" using d by (auto simp: do_mmap_def split: list.splits option.splits)
    then have "grows u w1" by (rule grows_refl)
    moreover have "grows w1 w" using k d Cons.IH grows_refl [OF refl] by (cases r) auto
    ultimately show "grows u w" by (rule grows_trans)
  qed simp
qed (simp add: grows_refl)

lemma queue_buffers_grows: "queue_buffers is v = Ret b w \<Longrightarrow> grows v w"
proof (induction "is" arbitrary: v)
  case (Cons i "is")
  show ?case by (rule ioctl_or_false_grows [OF Cons.prems [unfolded queue_buffers.simps]]) (simp, rule Cons.IH)
qed (simp add: grows_refl)

lemma stream_on_grows:
  assumes "v4l2_stream_on m v = Ret b w"
  shows "grows v w"
proof (rule ioctl_or_false_grows [OF assms [unfolded v4l2_stream_on_def]])
  let ?rest = "\<lambda>cnt v. seq_true (map_buffers [0..<unat cnt] (v\<lparr>buffers := replicate (unat cnt) (Null_start, 0)\<rparr>)) (\<lambda>v.
    seq_true (queue_buffers [0..<unat cnt] v) (ioctl_or_false Stream_on (\<lambda>_ _. Ret True)))"
  have rest: "grows u w" if "?rest cnt u = Ret b w" for cnt u
  proof (rule seq_true_grows [OF that])
    fix x s
    assume "map_buffers [0..<unat cnt] (u\<lparr>buffers := replicate (unat cnt) (Null_start, 0)\<rparr>) = Ret x s"
    from map_buffers_grows [OF this] show "grows u s" by (simp add: grows_def)
  next
    fix s
    assume q: "seq_true (queue_buffers [0..<unat cnt] s) (ioctl_or_false Stream_on (\<lambda>_ _. Ret True)) = Ret b w"
    show "grows s w"
    proof (rule seq_true_grows [OF q queue_buffers_grows])
      fix s'
      assume i: "ioctl_or_false Stream_on (\<lambda>_ _. Ret True) s' = Ret b w"
      show "grows s' w" by (rule ioctl_or_false_grows [OF i]) (simp_all add: grows_refl)
    qed
  qed
  fix caps y u
  assume c: "(if caps AND cap_video_capture = 0 then Ret False u
       else if caps AND cap_streaming = 0 then Ret False u
       else ioctl_or_false (S_fmt (hist_frame_width (mode_of m)) (hist_frame_height (mode_of m)))
         (\<lambda>_ _. ioctl_or_false (Reqbufs 3) (\<lambda>cnt _. ?rest cnt)) u) = Ret b w"
  show "grows u w"
  proof (cases "caps AND cap_video_capture = 0 \<or> caps AND cap_streaming = 0")
    case True
    then show ?thesis using c grows_refl [OF refl] by (auto split: if_splits)
  next
    case False
    then have f: "ioctl_or_false (S_fmt (hist_frame_width (mode_of m)) (hist_frame_height (mode_of m)))
         (\<lambda>_ _. ioctl_or_false (Reqbufs 3) (\<lambda>cnt _. ?rest cnt)) u = Ret b w" using c by simp
    show ?thesis
    proof (rule ioctl_or_false_grows [OF f])
      fix x y u2
      assume g: "ioctl_or_false (Reqbufs 3) (\<lambda>cnt _. ?rest cnt) u2 = Ret b w"
      show "grows u2 w" by (rule ioctl_or_false_grows [OF g]) (simp, rule rest)
    qed simp
  qed
qed simp

lemma v4l2_loop_mapped: "v4l2_loop ts s = Ret () t \<Longrightarrow>
  mapped (snd t) = mapped (snd s) \<and> buffers (snd t) = buffers (snd s) \<and> v_fd (snd t) = v_fd (snd s)"
proof (induction ts arbitrary: s)
  case Nil
  obtain r s1 where p: "poll2 s = (r, s1)" by (cases "poll2 s")
  then show ?case using Nil poll2_snd [OF p] by (auto split: if_splits)
next
  case (Cons tn ts)
  define kept where "kept a b \<longleftrightarrow>
    mapped (snd b) = mapped (snd a) \<and> buffers (snd b) = buffers (snd a) \<and> v_fd (snd b) = v_fd (snd a)" for a b :: hdev
  have tr: "kept a b \<Longrightarrow> kept b c \<Longrightarrow> kept a c" for a b c by (simp add: kept_def)
  have IH: "v4l2_loop ts a = Ret () t \<Longrightarrow> kept a t" for a using Cons.IH by (simp add: kept_def)
  have qb: "on_video (xioctl c) a = Ret x b \<Longrightarrow> kept a b" for c a x b
    by (drule on_video_Ret, elim exE conjE, drule xioctl_Ret) (simp add: kept_def)
  obtain r s1 where p: "poll2 s = (r, s1)" by (cases "poll2 s")
  have 1: "kept s s1" using poll2_snd [OF p] by (simp add: kept_def)
  have "kept s t"
  proof (cases "\<not> r \<or> tn_select tn \<le> 0")
    case True
    then show ?thesis using Cons.prems p 1 by (auto split: if_splits)
  next
    case False
    then obtain rep s2 where s2: "on_video dqbuf s1 = Ret rep s2"
      using Cons.prems p by (auto simp: seq_eq_Ret_iff split: if_splits)
    obtain v where v: "dqbuf (snd s1) = Ret rep v" "s2 = (fst s1, v)" using on_video_Ret [OF s2] by blast
    have "kept s1 s2" using v by (auto simp: kept_def dqbuf_def call_to_def split: outcome.splits reply.splits)
    then have 2: "kept s s2" using 1 tr by blast
    show ?thesis
    proof (cases rep)
      case (Rep_ok i flags used)
      define s3 where "s3 = (if flags AND buf_flag_error \<noteq> 0 then s2
        else if used = expected_bytes (dev_mode (fst s2))
        then (unpack_hist_frame (tn_frame tn) (fst s2), snd s2) else s2)"
      have "kept s2 s3" by (simp add: s3_def kept_def)
      then have 3: "kept s s3" using 2 tr by blast
      obtain rep2 s4 where s4: "on_video (xioctl (Qbuf (unat i))) s3 = Ret rep2 s4"
        and turn: "(if flags AND buf_flag_error \<noteq> 0 then v4l2_loop ts s4
          else case rep2 of Rep_ok _ _ _ \<Rightarrow> v4l2_loop ts s4 | _ \<Rightarrow> Ret () s4) = Ret () t"
        using Cons.prems p False s2 Rep_ok
        by (auto simp: seq_eq_Ret_iff s3_def Let_def split: if_splits)
      have "kept s s4" using 3 qb [OF s4] tr by blast
      moreover have "v4l2_loop ts s4 = Ret () t \<or> t = s4"
        using turn by (cases rep2) (auto split: if_splits)
      ultimately show ?thesis using IH tr by blast
    next
      case Rep_eagain
      then have "v4l2_loop ts s2 = Ret () t" using Cons.prems p False s2 by simp
      then show ?thesis using IH 2 tr by blast
    qed (use Cons.prems p False s2 2 in auto)
  qed
  then show ?case by (simp add: kept_def)
qed

lemma poll2_running: "poll2 s = (True, t) \<Longrightarrow> running (fst s)"
  by (auto simp: poll2_def split: prod.splits) (metis laterD(2) poll_later poll_running)

lemma open_loop_fd: "open_loop fds s = Ret () t \<Longrightarrow> running (fst t) \<Longrightarrow> 0 \<le> v_fd (snd t)"
proof (induction fds arbitrary: s)
  case Nil
  obtain r s1 where p: "poll2 s = (r, s1)" by (cases "poll2 s")
  then show ?case using Nil poll2_snd [OF p] by (auto split: if_splits)
next
  case (Cons fd fds)
  obtain r s1 where p: "poll2 s = (r, s1)" by (cases "poll2 s")
  then show ?case using Cons poll2_snd [OF p] by (auto simp: Let_def split: if_splits)
qed

lemma run_v4l2_Ret:
  assumes run: "run_v4l2 fds ts s = Ret () t"
    and new: "mapped (snd s) = []" "buffers (snd s) = []" "v_fd (snd s) < 0"
  shows "all_mapped (snd t) \<and> (v_fd (snd t) < 0 \<longrightarrow> mapped (snd t) = [] \<and> buffers (snd t) = []) \<and> \<not> running (fst t) \<and>
    (\<exists>on cs. calls (snd t) = calls (snd s) @ on @ cs \<and> (\<forall>i. Dqbuf i \<notin> set on) \<and> buffers_returned cs)"
proof -
  obtain s1 where o: "open_loop fds s = Ret () s1"
    and rest: "(case poll2 s1 of (r, s) \<Rightarrow> if \<not> r then Ret () s
       else seq (on_video (v4l2_stream_on (dev_mode (fst s))) s) (\<lambda>streaming s.
         let s = (if streaming then s else stop_running s)
         in seq (v4l2_loop ts s) (\<lambda>_ s. Ret () (stop_running s)))) = Ret () t"
    using run by (auto simp: run_v4l2_def seq_eq_Ret_iff)
  obtain r s2 where p: "poll2 s1 = (r, s2)" by (cases "poll2 s1")
  note p2 = poll2_snd [OF p]
  have s2: "snd s2 = (snd s)\<lparr>v_fd := v_fd (snd s2)\<rparr>" using open_loop_Ret [OF o] p2 by simp
  have m2: "mapped (snd s2) = []" "buffers (snd s2) = []" "calls (snd s2) = calls (snd s)"
    using new arg_cong [OF s2, of mapped] arg_cong [OF s2, of buffers] arg_cong [OF s2, of calls] by simp_all
  show "all_mapped (snd t) \<and> (v_fd (snd t) < 0 \<longrightarrow> mapped (snd t) = [] \<and> buffers (snd t) = []) \<and> \<not> running (fst t) \<and>
    (\<exists>on cs. calls (snd t) = calls (snd s) @ on @ cs \<and> (\<forall>i. Dqbuf i \<notin> set on) \<and> buffers_returned cs)"
  proof (cases r)
    case False
    then have "t = s2" "\<not> running (fst t)" using rest p p2 by auto
    then show ?thesis using m2 by (auto simp: all_mapped_def maps_of_def intro!: exI [of _ "[]"])
  next
    case True
    then obtain b s3 where s3: "on_video (v4l2_stream_on (dev_mode (fst s2))) s2 = Ret b s3"
      and l: "seq (v4l2_loop ts (if b then s3 else stop_running s3)) (\<lambda>_ s. Ret () (stop_running s)) = Ret () t"
      using rest p by (auto simp: seq_eq_Ret_iff Let_def)
    obtain v where v: "v4l2_stream_on (dev_mode (fst s2)) (snd s2) = Ret b v" "s3 = (fst s2, v)"
      using on_video_Ret [OF s3] by blast
    have "0 \<le> v_fd (snd s2)" using open_loop_fd [OF o] poll2_running p True p2 by auto
    then have "0 \<le> v_fd v" using stream_on_Ret [OF v(1)] m2 by (simp add: all_mapped_def maps_of_def)
    obtain s4 where s4: "v4l2_loop ts (if b then s3 else stop_running s3) = Ret () s4" "t = stop_running s4"
      using l by (auto simp: seq_eq_Ret_iff)
    have start: "snd (if b then s3 else stop_running s3) = v" using v(2) by (simp add: stop_running_def)
    have "all_mapped v" using stream_on_Ret [OF v(1)] m2 by (simp add: all_mapped_def maps_of_def)
    then have "all_mapped (snd s4)" using v4l2_loop_mapped [OF s4(1)] start by (simp add: all_mapped_def)
    moreover obtain cs where "calls (snd s4) = calls v @ cs" "buffers_returned cs"
      using v4l2_loop_returns_buffers [OF s4(1)] start by auto
    moreover obtain on where "calls v = calls (snd s2) @ on" "\<forall>i. Dqbuf i \<notin> set on"
      using stream_on_grows [OF v(1)] by (auto simp: grows_def)
    moreover have "0 \<le> v_fd (snd t)"
      using \<open>0 \<le> v_fd v\<close> v4l2_loop_mapped [OF s4(1)] start s4(2) by (simp add: stop_running_def)
    ultimately show ?thesis using s4(2) m2(3) by (auto simp: stop_running_def all_mapped_def)
  qed
qed

lemma stop_impl_Ret:
  assumes "stop_impl_hist v = Ret () w" and "all_mapped v" "v_fd v < 0 \<longrightarrow> mapped v = [] \<and> buffers v = []"
  shows "mapped w = [] \<and> buffers w = [] \<and> v_fd w < 0 \<and> (0 \<le> v_fd v \<longrightarrow> last (calls w) = Close_fd (v_fd v))"
proof (cases "0 \<le> v_fd v")
  case True
  then obtain u where "v4l2_stream_off v = Ret () u" "w = u\<lparr>v_fd := - 1\<rparr>"
    using assms(1) by (auto simp: stop_impl_hist_def seq_eq_Ret_iff)
  then show ?thesis using stream_off_Ret assms(2) by fastforce
next
  case False
  then show ?thesis using assms(1,3) by (simp add: stop_impl_hist_def)
qed


text \<open>One buffer, one frame marked as faulty, then the device is stopped.\<close>

definition sample_hdev :: hdev where
  "sample_hdev =
     ((new_dev [])\<lparr>running := True, stop_in := Some 3\<rparr>,
      \<lparr>replies = [Rep_ok 0x04000001 0 0, Rep_ok 0 0 0, Rep_ok 1 0 0, Rep_eintr, Rep_ok 4096 0 0, Rep_ok 0 0 0, Rep_ok 0 0 0,
         Rep_ok 0 0x40 0, Rep_ok 0 0 0, Rep_ok 0 0 0],
       mmaps = [Some 77], calls = [], v_fd = - 1, buffers = [], mapped = []\<rparr>)"


end
