(* ===== verification/Media.thy ===== *)
theory Media
  imports Hist "HOL-Library.List_Lexorder" "HOL-Library.Char_ord"
begin

text \<open>
  Finding the video node of a sensor (\<open>device/dt1_device_hist.cpp\<close>:
  \<open>devnode_from_major_minor\<close>, \<open>list_media_devices\<close>, \<open>find_media_by_serial\<close>,
  \<open>open_video_device_by_serial\<close>). The directory \<open>/dev\<close>, the media controller and the video
  nodes are the environment; what is opened and closed on the way is recorded.
\<close>

section \<open>The environment\<close>

record dev_entry =
  de_path :: string
  de_status_ok :: bool
  de_is_char :: bool
  de_stat :: "(bool \<times> u32 \<times> u32) option"

record media_interface =
  mi_id :: u32
  mi_type :: u32
  mi_major :: u32
  mi_minor :: u32

record topology =
  tp_entities :: "(u32 \<times> string) list"
  tp_interfaces :: "media_interface list"
  tp_links :: "(u32 \<times> u32) list"

text \<open>
  A media device: whether it opens, its model and serial number (\<open>None\<close> when
  \<open>MEDIA_IOC_DEVICE_INFO\<close> fails), and the two calls of \<open>MEDIA_IOC_G_TOPOLOGY\<close>.
\<close>

record media_dev =
  md_opens :: bool
  md_info :: "(string \<times> string) option"
  md_counts_ok :: bool
  md_topology :: "topology option"

text \<open>
  \<open>ms_probe\<close>: \<open>None\<close> when a video node does not open, else its \<open>VIDIOC_QUERYCAP\<close> reply
  (\<open>device_caps\<close>, \<open>capabilities\<close>).
\<close>

record media_sys =
  ms_entries :: "dev_entry list"
  ms_media :: "string \<Rightarrow> media_dev"
  ms_probe :: "string \<Rightarrow> (u32 \<times> u32) option option"

datatype fd_event = Ev_open string | Ev_close string

section \<open>Device nodes\<close>

definition is_node :: "u32 \<Rightarrow> u32 \<Rightarrow> dev_entry \<Rightarrow> bool" where
  "is_node major_num minor_num e \<longleftrightarrow>
     de_status_ok e \<and> de_is_char e \<and>
     (case de_stat e of None \<Rightarrow> False
      | Some (chr, ma, mi) \<Rightarrow> chr \<and> ma = major_num \<and> mi = minor_num)"

fun devnode_from_major_minor :: "u32 \<Rightarrow> u32 \<Rightarrow> dev_entry list \<Rightarrow> string option" where
  "devnode_from_major_minor major_num minor_num [] = None"
| "devnode_from_major_minor major_num minor_num (e # es) =
     (if is_node major_num minor_num e then Some (de_path e)
      else devnode_from_major_minor major_num minor_num es)"

definition list_media_devices :: "dev_entry list \<Rightarrow> string list" where
  "list_media_devices es = sort (filter (\<lambda>p. starts_with (basename p) ''media'') (map de_path es))"

section \<open>Matching\<close>

record video_node =
  vn_devnode :: string
  vn_entity_name :: string
  vn_capture :: bool
  vn_metadata :: bool

record media_match =
  mm_media_dev :: string
  mm_model :: string
  mm_serial :: string
  mm_videos :: "video_node list"

fun linked_entity :: "u32 \<Rightarrow> (u32 \<times> u32) list \<Rightarrow> u32" where
  "linked_entity i [] = 0"
| "linked_entity i ((source, sink) # ls) =
     (if source = i then sink else if sink = i then source else linked_entity i ls)"

fun entity_name :: "u32 \<Rightarrow> (u32 \<times> string) list \<Rightarrow> string" where
  "entity_name i [] = []"
| "entity_name i ((j, name) # es) = (if j = i then name else entity_name i es)"

definition media_intf_v4l_base :: u32 where "media_intf_v4l_base = 0x200"
definition cap_video_mplane :: u32 where "cap_video_mplane = 0x1000"
definition cap_video :: u32 where "cap_video = 0x1"
definition cap_meta :: u32 where "cap_meta = 0x00800000"

definition video_node_of :: "media_sys \<Rightarrow> topology \<Rightarrow> media_interface \<Rightarrow> string \<Rightarrow> video_node" where
  "video_node_of ms t i devnode =
     (let dcaps = (case ms_probe ms devnode of
            Some (Some (device_caps, caps)) \<Rightarrow> if device_caps \<noteq> 0 then device_caps else caps
          | _ \<Rightarrow> 0)
      in \<lparr>vn_devnode = devnode,
          vn_entity_name = entity_name (linked_entity (mi_id i) (tp_links t)) (tp_entities t),
          vn_capture = (dcaps AND cap_video \<noteq> 0 \<or> dcaps AND cap_video_mplane \<noteq> 0),
          vn_metadata = (dcaps AND cap_meta \<noteq> 0)\<rparr>)"

definition probe_events :: "media_sys \<Rightarrow> string \<Rightarrow> fd_event list" where
  "probe_events ms devnode = (case ms_probe ms devnode of None \<Rightarrow> [] | Some _ \<Rightarrow> [Ev_open devnode, Ev_close devnode])"

fun video_nodes :: "media_sys \<Rightarrow> topology \<Rightarrow> media_interface list \<Rightarrow> video_node list \<times> fd_event list" where
  "video_nodes ms t [] = ([], [])"
| "video_nodes ms t (i # is) =
     (case video_nodes ms t is of (vs, evs) \<Rightarrow>
        if mi_type i AND media_intf_v4l_base \<noteq> media_intf_v4l_base then (vs, evs)
        else case devnode_from_major_minor (mi_major i) (mi_minor i) (ms_entries ms) of
          None \<Rightarrow> (vs, evs)
        | Some devnode \<Rightarrow>
            if \<not> starts_with (basename devnode) ''video'' then (vs, evs)
            else (video_node_of ms t i devnode # vs, probe_events ms devnode @ evs))"

fun find_media_in :: "media_sys \<Rightarrow> string \<Rightarrow> string list \<Rightarrow> media_match option \<times> fd_event list" where
  "find_media_in ms wanted [] = (None, [])"
| "find_media_in ms wanted (p # ps) =
     (let d = ms_media ms p;
          skip = (case find_media_in ms wanted ps of (r, evs) \<Rightarrow> (r, Ev_open p # Ev_close p # evs))
      in if \<not> md_opens d then find_media_in ms wanted ps
         else case md_info d of
           None \<Rightarrow> skip
         | Some (model, serial) \<Rightarrow>
             if wanted = [] \<and> model \<noteq> ''AS-DT1'' then skip
             else if wanted \<noteq> [] \<and> wanted \<noteq> serial then skip
             else if \<not> md_counts_ok d then (None, [Ev_open p, Ev_close p])
             else case md_topology d of
               None \<Rightarrow> (None, [Ev_open p, Ev_close p])
             | Some t \<Rightarrow>
                 (case video_nodes ms t (tp_interfaces t) of (vs, evs) \<Rightarrow>
                    (Some \<lparr>mm_media_dev = p, mm_model = model, mm_serial = serial, mm_videos = vs\<rparr>,
                     Ev_open p # evs @ [Ev_close p])))"

definition find_media_by_serial :: "media_sys \<Rightarrow> string \<Rightarrow> media_match option \<times> fd_event list" where
  "find_media_by_serial ms wanted = find_media_in ms wanted (list_media_devices (ms_entries ms))"

section \<open>Opening\<close>

text \<open>
  The results of the calls of \<open>::open\<close>, in order: a descriptor, or a negative number. Without a
  result the call fails.
\<close>

fun open_first :: "(video_node \<Rightarrow> bool) \<Rightarrow> video_node list \<Rightarrow> int list \<Rightarrow> (int \<times> string) option \<times> int list" where
  "open_first ok [] q = (None, q)"
| "open_first ok (v # vs) q =
     (if \<not> ok v then open_first ok vs q
      else case q of
        [] \<Rightarrow> open_first ok vs []
      | fd # q' \<Rightarrow> if 0 \<le> fd then (Some (fd, vn_devnode v), q') else open_first ok vs q')"

definition open_node :: "video_node list \<Rightarrow> int list \<Rightarrow> (int \<times> string) option" where
  "open_node vs q =
     (case open_first (\<lambda>v. vn_capture v \<and> \<not> vn_metadata v) vs q of
        (Some r, _) \<Rightarrow> Some r
      | (None, q') \<Rightarrow> fst (open_first vn_capture vs q'))"

definition open_video_device_by_serial :: "media_sys \<Rightarrow> string \<Rightarrow> int list \<Rightarrow> int" where
  "open_video_device_by_serial ms wanted q =
     (case fst (find_media_by_serial ms wanted) of
        None \<Rightarrow> - 1
      | Some m \<Rightarrow> (case open_node (mm_videos m) q of Some (fd, _) \<Rightarrow> fd | None \<Rightarrow> - 1))"

section \<open>Lemmas\<close>

definition opens_of :: "string \<Rightarrow> fd_event list \<Rightarrow> nat" where
  "opens_of p evs = count_list evs (Ev_open p)"

definition closes_of :: "string \<Rightarrow> fd_event list \<Rightarrow> nat" where
  "closes_of p evs = count_list evs (Ev_close p)"

definition all_closed :: "fd_event list \<Rightarrow> bool" where
  "all_closed evs \<longleftrightarrow> (\<forall>p. opens_of p evs = closes_of p evs)"

lemma all_closed_simps [simp]:
  "all_closed []" "all_closed evs \<Longrightarrow> all_closed (Ev_open p # Ev_close p # evs)"
  "all_closed evs \<Longrightarrow> all_closed (Ev_open p # evs @ [Ev_close p])"
  "all_closed evs \<Longrightarrow> all_closed es \<Longrightarrow> all_closed (evs @ es)"
  by (simp_all add: all_closed_def opens_of_def closes_of_def)

lemma video_nodes_closed: "all_closed (snd (video_nodes ms t is))"
  by (induction "is") (auto simp: probe_events_def split: prod.splits option.splits)

lemma find_media_closed: "all_closed (snd (find_media_in ms wanted ps))"
proof (induction ps)
  case (Cons p ps)
  obtain r evs where r: "find_media_in ms wanted ps = (r, evs)" by (cases "find_media_in ms wanted ps")
  have "all_closed evs" using Cons r by simp
  moreover have "all_closed vevs" if "video_nodes ms t is = (vs, vevs)" for t "is" vs vevs
    using video_nodes_closed [of ms t "is"] that by simp
  ultimately show ?case
    using r by (simp add: Let_def split: prod.split option.split)
qed simp

lemma devnode_Some:
  "devnode_from_major_minor ma mi es = Some p \<Longrightarrow> \<exists>e\<in>set es. is_node ma mi e \<and> de_path e = p"
  by (induction es) (auto split: if_splits)

lemma video_nodes_video:
  "v \<in> set (fst (video_nodes ms t is)) \<Longrightarrow> starts_with (basename (vn_devnode v)) ''video''"
  by (induction "is") (auto simp: video_node_of_def Let_def split: prod.splits option.splits if_splits)

lemma find_media_match:
  "fst (find_media_in ms wanted ps) = Some m \<Longrightarrow>
   mm_media_dev m \<in> set ps \<and> (if wanted = [] then mm_model m = ''AS-DT1'' else mm_serial m = wanted) \<and>
   md_info (ms_media ms (mm_media_dev m)) = Some (mm_model m, mm_serial m) \<and>
   (\<forall>v\<in>set (mm_videos m). starts_with (basename (vn_devnode v)) ''video'')"
proof (induction ps)
  case (Cons p ps)
  show ?case
  proof (cases "fst (find_media_in ms wanted ps) = Some m")
    case True
    then show ?thesis using Cons.IH by simp
  next
    case False
    then show ?thesis
      using Cons.prems video_nodes_video [of _ ms]
      by (auto simp: Let_def split: prod.splits option.splits if_splits) (metis fst_conv)+
  qed
qed simp

lemma open_first_Some:
  "open_first ok vs q = (Some (fd, p), q') \<Longrightarrow> 0 \<le> fd \<and> fd \<in> set q \<and> (\<exists>v\<in>set vs. ok v \<and> vn_devnode v = p)"
  by (induction ok vs q rule: open_first.induct) (auto split: if_splits list.splits)

lemma open_first_None:
  "open_first ok vs q = (None, q') \<Longrightarrow>
   (\<exists>n. q' = drop n q \<and> (\<forall>fd\<in>set (take n q). fd < 0) \<and> (n < length (filter ok vs) \<longrightarrow> q' = []))"
proof (induction ok vs q rule: open_first.induct)
  case (2 ok v vs q)
  show ?case
  proof (cases "ok v")
    case True
    show ?thesis
    proof (cases q)
      case Nil
      then show ?thesis using "2" True by auto
    next
      case (Cons fd qs)
      then have "fd < 0" "open_first ok vs qs = (None, q')"
        using "2.prems" True by (auto split: if_splits)
      then obtain n where "q' = drop n qs" "\<forall>fd\<in>set (take n qs). fd < 0" "n < length (filter ok vs) \<longrightarrow> q' = []"
        using "2.IH"(3) [of fd qs] True Cons by (metis not_less)
      then show ?thesis using Cons \<open>fd < 0\<close> True by (intro exI [of _ "Suc n"]) simp
    qed
  next
    case False
    then show ?thesis using "2" by simp
  qed
qed (auto intro: exI [of _ 0])

lemma open_node_Some:
  assumes "open_node vs q = Some (fd, p)"
  shows "0 \<le> fd \<and> (\<exists>v\<in>set vs. vn_capture v \<and> vn_devnode v = p)"
proof (cases "open_first (\<lambda>v. vn_capture v \<and> \<not> vn_metadata v) vs q")
  case (Pair r q')
  show ?thesis
  proof (cases r)
    case None
    then have "open_first vn_capture vs q' = (Some (fd, p), snd (open_first vn_capture vs q'))"
      using assms Pair by (simp add: open_node_def prod_eq_iff)
    then show ?thesis using open_first_Some by blast
  next
    case (Some a)
    then have "a = (fd, p)" using assms Pair by (simp add: open_node_def)
    then show ?thesis using open_first_Some [of _ vs q fd p q'] Pair Some by blast
  qed
qed

lemma list_media_devices_media:
  "p \<in> set (list_media_devices es) \<Longrightarrow> starts_with (basename p) ''media''"
  by (simp add: list_media_devices_def)

section \<open>The device found\<close>


text \<open>Two sensors on one host; the second one has a metadata node beside its capture node.\<close>

definition example_media :: media_sys where
  "example_media = \<lparr>
     ms_entries = [\<lparr>de_path = ''/dev/video1'', de_status_ok = True, de_is_char = True, de_stat = Some (True, 81, 1)\<rparr>,
       \<lparr>de_path = ''/dev/video0'', de_status_ok = True, de_is_char = True, de_stat = Some (True, 81, 0)\<rparr>,
       \<lparr>de_path = ''/dev/media1'', de_status_ok = True, de_is_char = True, de_stat = Some (True, 240, 1)\<rparr>,
       \<lparr>de_path = ''/dev/media0'', de_status_ok = True, de_is_char = True, de_stat = Some (True, 240, 0)\<rparr>],
     ms_media = (\<lambda>p. if p = ''/dev/media0''
       then \<lparr>md_opens = True, md_info = Some (''AS-DT1'', ''7''), md_counts_ok = True, md_topology = None\<rparr>
       else \<lparr>md_opens = True, md_info = Some (''AS-DT1'', ''9''), md_counts_ok = True,
         md_topology = Some \<lparr>tp_entities = [(1, ''DT1 video'')],
           tp_interfaces = [\<lparr>mi_id = 10, mi_type = 0x200, mi_major = 81, mi_minor = 0\<rparr>,
             \<lparr>mi_id = 11, mi_type = 0x200, mi_major = 81, mi_minor = 1\<rparr>],
           tp_links = [(10, 1)]\<rparr>\<rparr>),
     ms_probe = (\<lambda>p. if p = ''/dev/video0'' then Some (Some (0x00800000, 1)) else Some (Some (1, 0x00800001)))\<rparr>"

lemma example_media_opens: "open_video_device_by_serial example_media ''9'' [5] = 5"
  by code_simp


end
