(* ===== verification/Lifecycle.thy ===== *)
theory Lifecycle
  imports Cdc Video
begin

text \<open>
  The life of a device (\<open>device/dt1_device.cpp\<close>: \<open>start\<close>, \<open>stop\<close>, \<open>reboot\<close>, the
  destructor; \<open>device/dt1_device_hist.cpp\<close>: \<open>start_impl\<close>, \<open>stop_impl\<close>, the destructor): the
  owner of the device, its serial thread and its video thread as one step relation. A step of the
  owner is one statement of its routine; joining a thread waits until it is finished. A step of a
  thread is a statement the owner can tell: opening the port or the video device, and the end.
\<close>

section \<open>State\<close>

text \<open>A \<open>std::thread\<close>: without a thread, or joinable with its thread working or finished.\<close>

datatype thread = Not_joinable | Working | Finished

fun joinable :: "thread \<Rightarrow> bool" where
  "joinable Not_joinable = False"
| "joinable _ = True"

text \<open>What called \<open>stop\<close>: a user, \<open>reboot\<close> or the destructor.\<close>

datatype caller = User | Reboot | Destructor

datatype pc =
    Idle
  | Start_join
  | Start_spawn
  | Start_impl
  | Stop_video caller
  | Stop_serial caller
  | Stopped caller
  | Reboot_command
  | Destroy_members
  | Destroy_base
  | Destroyed
  | Terminated

record life =
  lf_kind :: device_kind
  lf_pc :: pc
  lf_running :: bool
  lf_serial :: thread
  lf_video :: thread
  lf_has_serial :: bool
  lf_port :: bool
  lf_opened :: bool
  lf_fd :: bool
  lf_lost :: nat
  lf_reboot_errors :: nat

definition new_life :: "device_kind \<Rightarrow> life" where
  "new_life k =
     \<lparr>lf_kind = k, lf_pc = Idle, lf_running = False, lf_serial = Not_joinable, lf_video = Not_joinable,
      lf_has_serial = False, lf_port = False, lf_opened = False, lf_fd = False, lf_lost = 0, lf_reboot_errors = 0\<rparr>"

section \<open>The owner\<close>

text \<open>\<open>start\<close> returns at once while the device runs.\<close>

definition enter_start :: "life \<Rightarrow> life" where
  "enter_start s = (if lf_running s then s\<lparr>lf_pc := Idle\<rparr> else s\<lparr>lf_pc := Start_join\<rparr>)"

text \<open>Assigning a thread to a \<open>std::thread\<close> that is joinable terminates the process.\<close>

definition spawn_serial :: "life \<Rightarrow> life" where
  "spawn_serial s =
     (if joinable (lf_serial s) then s\<lparr>lf_running := True, lf_pc := Terminated\<rparr>
      else s\<lparr>lf_running := True, lf_serial := Working,
             lf_pc := (case lf_kind s of Kind_cdc \<Rightarrow> Idle | Kind_hist \<Rightarrow> Start_impl)\<rparr>)"

definition spawn_video :: "life \<Rightarrow> life" where
  "spawn_video s = s\<lparr>lf_video := Working, lf_opened := False, lf_pc := Idle\<rparr>"

text \<open>\<open>stop\<close> returns at once while the device does not run.\<close>

definition enter_stop :: "caller \<Rightarrow> life \<Rightarrow> life" where
  "enter_stop c s =
     (if \<not> lf_running s then s\<lparr>lf_pc := Stopped c\<rparr>
      else s\<lparr>lf_running := False,
             lf_pc := (case lf_kind s of Kind_cdc \<Rightarrow> Stop_serial c | Kind_hist \<Rightarrow> Stop_video c)\<rparr>)"

text \<open>\<open>stop_impl\<close> of a histogram device, its thread joined.\<close>

definition stop_video :: "caller \<Rightarrow> life \<Rightarrow> life" where
  "stop_video c s = s\<lparr>lf_video := Not_joinable, lf_fd := False, lf_pc := Stop_serial c\<rparr>"

text \<open>The port is opened for the reboot command; opening an open port throws.\<close>

definition open_for_reboot :: "life \<Rightarrow> life" where
  "open_for_reboot s =
     (if lf_port s then s\<lparr>lf_reboot_errors := Suc (lf_reboot_errors s), lf_pc := Idle\<rparr>
      else s\<lparr>lf_port := True, lf_pc := Reboot_command\<rparr>)"

text \<open>Destroying a joinable \<open>std::thread\<close> terminates the process.\<close>

definition destroy_members :: "life \<Rightarrow> life" where
  "destroy_members s =
     (if joinable (lf_video s) then s\<lparr>lf_pc := Terminated\<rparr> else s\<lparr>lf_pc := Destroy_base\<rparr>)"

inductive owner_step :: "life \<Rightarrow> life \<Rightarrow> bool" where
  call_start: "lf_pc s = Idle \<Longrightarrow> owner_step s (enter_start s)"
| start_join: "lf_pc s = Start_join \<Longrightarrow> lf_serial s \<noteq> Working \<Longrightarrow>
    owner_step s (s\<lparr>lf_serial := Not_joinable, lf_pc := Start_spawn\<rparr>)"
| start_spawn: "lf_pc s = Start_spawn \<Longrightarrow> owner_step s (spawn_serial s)"
| start_impl: "lf_pc s = Start_impl \<Longrightarrow> lf_video s \<noteq> Working \<Longrightarrow> owner_step s (spawn_video s)"
| call_stop: "lf_pc s = Idle \<Longrightarrow> owner_step s (enter_stop User s)"
| call_reboot: "lf_pc s = Idle \<Longrightarrow> lf_has_serial s \<Longrightarrow> owner_step s (enter_stop Reboot s)"
| call_destructor: "lf_pc s = Idle \<Longrightarrow> owner_step s (enter_stop Destructor s)"
| stop_impl: "lf_pc s = Stop_video c \<Longrightarrow> lf_video s \<noteq> Working \<Longrightarrow> owner_step s (stop_video c s)"
| stop_join: "lf_pc s = Stop_serial c \<Longrightarrow> lf_serial s \<noteq> Working \<Longrightarrow>
    owner_step s (s\<lparr>lf_serial := Not_joinable, lf_pc := Stopped c\<rparr>)"
| stop_return: "lf_pc s = Stopped User \<Longrightarrow> owner_step s (s\<lparr>lf_pc := Idle\<rparr>)"
| reboot_open: "lf_pc s = Stopped Reboot \<Longrightarrow> owner_step s (open_for_reboot s)"
| reboot_close: "lf_pc s = Reboot_command \<Longrightarrow> owner_step s (enter_start (s\<lparr>lf_port := False\<rparr>))"
| reboot_fails: "lf_pc s = Reboot_command \<Longrightarrow>
    owner_step s (s\<lparr>lf_reboot_errors := Suc (lf_reboot_errors s), lf_pc := Idle\<rparr>)"
| destroy_hist: "lf_pc s = Stopped Destructor \<Longrightarrow> owner_step s (destroy_members s)"
| destroy_base: "lf_pc s = Destroy_base \<Longrightarrow> lf_serial s \<noteq> Working \<Longrightarrow>
    owner_step s (s\<lparr>lf_serial := Not_joinable, lf_pc := Destroyed\<rparr>)"

section \<open>The threads\<close>

text \<open>
  The serial thread opens the port and, at its end, closes it and clears \<open>_running\<close>. The video
  thread stores what \<open>open\<close> returns in \<open>_fd\<close>, over whatever is there, once with success; it ends
  before that only when the device does not run.
\<close>

definition lose_fd :: "life \<Rightarrow> life" where
  "lose_fd s = (if lf_fd s then s\<lparr>lf_lost := Suc (lf_lost s)\<rparr> else s)"

inductive thread_step :: "life \<Rightarrow> life \<Rightarrow> bool" where
  serial_opens: "lf_serial s = Working \<Longrightarrow> thread_step s (s\<lparr>lf_has_serial := True, lf_port := True\<rparr>)"
| serial_ends: "lf_serial s = Working \<Longrightarrow>
    thread_step s (s\<lparr>lf_serial := Finished, lf_port := False, lf_running := False\<rparr>)"
| video_open_fails: "lf_video s = Working \<Longrightarrow> \<not> lf_opened s \<Longrightarrow>
    thread_step s ((lose_fd s)\<lparr>lf_fd := False\<rparr>)"
| video_opens: "lf_video s = Working \<Longrightarrow> \<not> lf_opened s \<Longrightarrow>
    thread_step s ((lose_fd s)\<lparr>lf_fd := True, lf_opened := True\<rparr>)"
| video_ends: "lf_video s = Working \<Longrightarrow> lf_opened s \<or> \<not> lf_running s \<Longrightarrow>
    thread_step s (s\<lparr>lf_video := Finished, lf_running := False\<rparr>)"

text \<open>Nothing happens after the end of the object or of the process.\<close>

inductive step :: "life \<Rightarrow> life \<Rightarrow> bool" where
  owner: "owner_step s t \<Longrightarrow> step s t"
| thread: "lf_pc s \<noteq> Terminated \<Longrightarrow> lf_pc s \<noteq> Destroyed \<Longrightarrow> thread_step s t \<Longrightarrow> step s t"

definition reachable :: "device_kind \<Rightarrow> life \<Rightarrow> bool" where
  "reachable k s \<longleftrightarrow> step\<^sup>*\<^sup>* (new_life k) s"

inductive_simps step_iff: "step s t"
inductive_cases owner_stepE: "owner_step s t"
inductive_cases thread_stepE: "thread_step s t"

section \<open>On the state of the device\<close>

text \<open>
  \<open>start\<close> and \<open>stop\<close> as they change the state of the device; \<open>threads\<close> is what the threads still
  do until they are joined. \<open>reboot\<close> takes the two as arguments.
\<close>

definition start_dev :: "device_kind \<Rightarrow> dev \<Rightarrow> (unit, dev) outcome" where
  "start_dev kind s =
     (if running s then Ret () s
      else
        let s = s\<lparr>running := True, latest_imu_sample_ts := 0\<rparr>
        in Ret () (case kind of Kind_cdc \<Rightarrow> start_impl_cdc s | Kind_hist \<Rightarrow> s))"

definition stop_dev :: "(dev \<Rightarrow> (unit, dev) outcome) \<Rightarrow> dev \<Rightarrow> (unit, dev) outcome" where
  "stop_dev threads s = (if \<not> running s then Ret () s else threads (s\<lparr>running := False\<rparr>))"

definition reboot ::
  "(dev \<Rightarrow> (unit, dev) outcome) \<Rightarrow> (dev \<Rightarrow> (unit, dev) outcome) \<Rightarrow> dev \<Rightarrow> (unit, dev) outcome" where
  "reboot stop_op start_op s =
     (if \<not> has_serial s then Ret () s
      else
        seq (stop_op s) (\<lambda>_ s.
        seq (serial_open s) (\<lambda>_ s.
        seq (serial_flush s) (\<lambda>_ s.
        seq (send_and_receive ''reboot'' s) (\<lambda>_ s.
        seq (serial_close s) (\<lambda>_. start_op))))))"

section \<open>Invariant\<close>

fun not_running_at :: "pc \<Rightarrow> bool" where
  "not_running_at Idle = False"
| "not_running_at Start_impl = False"
| "not_running_at Terminated = False"
| "not_running_at _ = True"

fun video_joined_at :: "pc \<Rightarrow> bool" where
  "video_joined_at (Stop_serial c) = True"
| "video_joined_at Destroy_base = True"
| "video_joined_at _ = False"

fun hist_at :: "pc \<Rightarrow> bool" where
  "hist_at (Stop_video c) = True"
| "hist_at Start_impl = True"
| "hist_at _ = False"

fun terminated :: "pc \<Rightarrow> bool" where
  "terminated Terminated = True"
| "terminated _ = False"

fun is_hist :: "device_kind \<Rightarrow> bool" where
  "is_hist Kind_hist = True"
| "is_hist Kind_cdc = False"

definition life_inv :: "life \<Rightarrow> bool" where
  "life_inv s \<longleftrightarrow>
     (is_hist (lf_kind s) \<or> \<not> joinable (lf_video s) \<and> lf_lost s = 0 \<and> \<not> terminated (lf_pc s)) \<and>
     (lf_fd s \<longrightarrow> joinable (lf_video s)) \<and>
     (joinable (lf_serial s) \<or> lf_pc s = Start_spawn \<or> \<not> lf_running s \<and> \<not> joinable (lf_video s)) \<and>
     (lf_pc s = Start_spawn \<longrightarrow> \<not> joinable (lf_serial s)) \<and>
     (not_running_at (lf_pc s) \<longrightarrow> \<not> lf_running s) \<and>
     (video_joined_at (lf_pc s) \<longrightarrow> \<not> joinable (lf_video s)) \<and>
     (hist_at (lf_pc s) \<longrightarrow> is_hist (lf_kind s) \<and> joinable (lf_serial s))"

lemma joinable_iff: "joinable t \<longleftrightarrow> t \<noteq> Not_joinable"
  by (cases t) simp_all

lemma terminated_iff: "terminated p \<longleftrightarrow> p = Terminated"
  by (cases p) simp_all

lemma is_hist_iff: "is_hist k \<longleftrightarrow> k = Kind_hist"
  by (cases k) simp_all

lemma new_life_inv: "life_inv (new_life k)"
  by (simp add: life_inv_def new_life_def)

lemmas owner_defs = enter_start_def spawn_serial_def spawn_video_def enter_stop_def stop_video_def
  open_for_reboot_def destroy_members_def

lemma owner_step_inv: "owner_step s t \<Longrightarrow> life_inv s \<Longrightarrow> life_inv t"
proof (induction rule: owner_step.induct)
  case (call_start s)
  then show ?case by (auto simp: life_inv_def owner_defs)
next
  case (start_join s)
  then show ?case by (auto simp: life_inv_def owner_defs)
next
  case (start_spawn s)
  then show ?case by (cases "lf_kind s") (auto simp: life_inv_def owner_defs)
next
  case (start_impl s)
  then show ?case by (cases "lf_kind s") (auto simp: life_inv_def owner_defs)
next
  case (call_stop s)
  then show ?case by (cases "lf_kind s") (auto simp: life_inv_def owner_defs)
next
  case (call_reboot s)
  then show ?case by (cases "lf_kind s") (auto simp: life_inv_def owner_defs)
next
  case (call_destructor s)
  then show ?case by (cases "lf_kind s") (auto simp: life_inv_def owner_defs)
qed (auto simp: life_inv_def owner_defs)

lemma thread_step_inv: "thread_step s t \<Longrightarrow> life_inv s \<Longrightarrow> life_inv t"
proof (induction rule: thread_step.induct)
  case (serial_opens s)
  then show ?case by (simp add: life_inv_def)
next
  case (serial_ends s)
  then show ?case by (simp add: life_inv_def)
next
  case (video_open_fails s)
  then show ?case by (cases "lf_fd s") (simp_all add: life_inv_def lose_fd_def)
next
  case (video_opens s)
  then show ?case by (cases "lf_fd s") (simp_all add: life_inv_def lose_fd_def)
next
  case (video_ends s)
  then show ?case by (simp add: life_inv_def)
qed

lemma step_inv: "step s t \<Longrightarrow> life_inv s \<Longrightarrow> life_inv t"
  unfolding step_iff using owner_step_inv thread_step_inv by blast

lemma owner_step_kind: "owner_step s t \<Longrightarrow> lf_kind t = lf_kind s"
  by (induction rule: owner_step.induct) (simp_all add: owner_defs)

lemma thread_step_kind: "thread_step s t \<Longrightarrow> lf_kind t = lf_kind s"
  by (induction rule: thread_step.induct) (simp_all add: lose_fd_def)

lemma step_kind: "step s t \<Longrightarrow> lf_kind t = lf_kind s"
  unfolding step_iff using owner_step_kind thread_step_kind by blast

lemma reachable_inv:
  assumes "reachable k s"
  shows "life_inv s \<and> lf_kind s = k"
  using assms unfolding reachable_def
proof (induction rule: rtranclp_induct)
  case base
  show ?case using new_life_inv by (simp add: new_life_def)
next
  case (step t u)
  then show ?case using step_inv step_kind by metis
qed

lemma reachable_step: "reachable k s \<Longrightarrow> step s t \<Longrightarrow> reachable k t"
  unfolding reachable_def by (rule rtranclp.rtrancl_into_rtrancl)

lemma reachable_owner: "reachable k s \<Longrightarrow> owner_step s t \<Longrightarrow> reachable k t"
  using reachable_step step.owner by blast

lemma reachable_thread:
  "reachable k s \<Longrightarrow> thread_step s t \<Longrightarrow> lf_pc s \<noteq> Terminated \<Longrightarrow> lf_pc s \<noteq> Destroyed \<Longrightarrow> reachable k t"
  using reachable_step step.thread by blast

text \<open>A histogram device that streams, at the point where both its threads are at work.\<close>

definition streaming :: life where
  "streaming = (new_life Kind_hist)\<lparr>lf_running := True, lf_serial := Working, lf_video := Working,
     lf_has_serial := True, lf_port := True, lf_opened := True, lf_fd := True\<rparr>"

lemma streaming_reachable: "reachable Kind_hist streaming"
proof -
  let ?s0 = "new_life Kind_hist"
  let ?s1 = "enter_start ?s0"
  let ?s2 = "?s1\<lparr>lf_serial := Not_joinable, lf_pc := Start_spawn\<rparr>"
  let ?s4 = "spawn_video (spawn_serial ?s2)"
  let ?s5 = "?s4\<lparr>lf_has_serial := True, lf_port := True\<rparr>"
  note d = owner_defs new_life_def lose_fd_def
  have "reachable Kind_hist ?s0" by (simp add: reachable_def)
  then have "reachable Kind_hist ?s1" by (rule reachable_owner, intro call_start) (simp add: d)
  then have "reachable Kind_hist ?s2" by (rule reachable_owner, intro start_join) (simp_all add: d)
  then have "reachable Kind_hist (spawn_serial ?s2)" by (rule reachable_owner, intro start_spawn) (simp add: d)
  then have "reachable Kind_hist ?s4" by (rule reachable_owner, intro start_impl) (simp_all add: d)
  then have "reachable Kind_hist ?s5" by (rule reachable_thread, intro serial_opens) (simp_all add: d)
  then have "reachable Kind_hist ((lose_fd ?s5)\<lparr>lf_fd := True, lf_opened := True\<rparr>)"
    by (rule reachable_thread, intro video_opens) (simp_all add: d)
  then show ?thesis by (simp add: streaming_def d)
qed

section \<open>Properties\<close>




end
