(* ===== verification/Ros_Msgs.thy ===== *)
theory Ros_Msgs
  imports Float_Model
begin

text \<open>
  The ROS messages the nodes exchange (\<open>std_msgs\<close>, \<open>sensor_msgs\<close>, \<open>geometry_msgs\<close>), reduced
  to the fields the sources read or write, their time stamps, and the byte access of
  \<open>std::memcpy\<close> on the \<open>data\<close> of a point cloud. The message definitions belong to ROS; the
  field names and constants are the documented ones.
\<close>

section \<open>Time\<close>

record stamp =
  st_sec :: int
  st_nanosec :: u32

text \<open>What an \<open>rclcpp::Time\<close> holds: nanoseconds.\<close>

datatype rtime = Rtime (ns_of: int)

instantiation rtime :: linorder
begin

definition less_eq_rtime :: "rtime \<Rightarrow> rtime \<Rightarrow> bool" where
  "less_eq_rtime a b \<longleftrightarrow> ns_of a \<le> ns_of b"

definition less_rtime :: "rtime \<Rightarrow> rtime \<Rightarrow> bool" where
  "less_rtime a b \<longleftrightarrow> ns_of a < ns_of b"

instance
  by standard (auto simp: less_eq_rtime_def less_rtime_def intro: rtime.expand)

end

section \<open>Messages\<close>

type_synonym vec3 = "ieee \<times> ieee \<times> ieee"
type_synonym mat3 = "vec3 \<times> vec3 \<times> vec3"
type_synonym quat = "ieee \<times> ieee \<times> ieee \<times> ieee"

record point_field =
  pf_name :: string
  pf_offset :: u32
  pf_datatype :: u8
  pf_count :: u32

definition uint16_field :: u8 where "uint16_field = 4"
definition uint32_field :: u8 where "uint32_field = 6"
definition float32_field :: u8 where "float32_field = 7"

record point_cloud2 =
  pc_stamp :: stamp
  pc_frame_id :: string
  pc_height :: u32
  pc_width :: u32
  pc_fields :: "point_field list"
  pc_is_bigendian :: bool
  pc_point_step :: u32
  pc_row_step :: u32
  pc_data :: "u8 list"
  pc_is_dense :: bool

record imu_msg =
  im_stamp :: stamp
  im_frame_id :: string
  im_orientation :: quat
  im_orientation_covariance :: "ieee list"
  im_angular_velocity :: vec3
  im_angular_velocity_covariance :: "ieee list"
  im_linear_acceleration :: vec3
  im_linear_acceleration_covariance :: "ieee list"

section \<open>Bytes\<close>

text \<open>Reading or writing past the end of a vector is undefined: \<open>None\<close>.\<close>

definition load16 :: "u8 list \<Rightarrow> nat \<Rightarrow> u16 option" where
  "load16 d i = (if i + 2 \<le> length d then Some (le16 d i) else None)"

definition load_float :: "u8 list \<Rightarrow> nat \<Rightarrow> ieee option" where
  "load_float d i = (if i + 4 \<le> length d then Some (f32_of_bits (le32 d i)) else None)"

definition store :: "u8 list \<Rightarrow> nat \<Rightarrow> u8 list \<Rightarrow> u8 list option" where
  "store d i bs =
     (if i + length bs \<le> length d then Some (take i d @ bs @ drop (i + length bs) d) else None)"

abbreviation float_bytes :: "ieee \<Rightarrow> u8 list" where
  "float_bytes x \<equiv> u32_bytes (f32_bits x)"

lemma store_length: "store d i bs = Some e \<Longrightarrow> length e = length d"
  by (auto simp: store_def split: if_splits)

lemma store_Some_iff: "(\<exists>e. store d i bs = Some e) \<longleftrightarrow> i + length bs \<le> length d"
  by (simp add: store_def)

lemma store_nth:
  assumes "store d i bs = Some e" and "j < length d"
  shows "e ! j = (if i \<le> j \<and> j < i + length bs then bs ! (j - i) else d ! j)"
proof -
  have e: "e = take i d @ bs @ drop (i + length bs) d" and i: "i + length bs \<le> length d"
    using assms(1) by (auto simp: store_def split: if_splits)
  have l: "length (take i d) = i" using i by simp
  consider "j < i" | "i \<le> j" "j < i + length bs" | "i + length bs \<le> j" by linarith
  then show ?thesis
  proof cases
    case 1
    then show ?thesis unfolding e nth_append l by simp
  next
    case 2
    then have "j - i < length bs" by linarith
    then show ?thesis using 2 unfolding e nth_append l by simp
  next
    case 3
    then have n: "\<not> j < i" "\<not> j - i < length bs" by linarith+
    have "(drop (i + length bs) d) ! (j - i - length bs) = d ! (i + length bs + (j - i - length bs))"
      using i by (intro nth_drop) simp
    also have "i + length bs + (j - i - length bs) = j" using 3 by linarith
    finally show ?thesis using 3 n unfolding e nth_append l by simp
  qed
qed

lemma le16_cong: "d ! i = e ! i \<Longrightarrow> d ! (i + 1) = e ! (i + 1) \<Longrightarrow> le16 d i = le16 e i"
  unfolding le16_def by (simp only:)

lemma le32_cong:
  "d ! i = e ! i \<Longrightarrow> d ! (i + 1) = e ! (i + 1) \<Longrightarrow> d ! (i + 2) = e ! (i + 2) \<Longrightarrow> d ! (i + 3) = e ! (i + 3) \<Longrightarrow>
   le32 d i = le32 e i"
  unfolding le32_def by (simp only:)

lemma store_split:
  assumes "store d i bs = Some e"
  shows "\<exists>xs ys. e = xs @ bs @ ys \<and> length xs = i"
proof -
  have "e = take i d @ bs @ drop (i + length bs) d" "length (take i d) = i"
    using assms by (auto simp: store_def split: if_splits)
  then show ?thesis by blast
qed

lemma load_store_float:
  assumes "store d i (float_bytes x) = Some e" and "f_canon binary32 x"
  shows "load_float e i = Some x"
proof -
  obtain xs ys where e: "e = xs @ float_bytes x @ ys" "length xs = i"
    using store_split [OF assms(1)] by blast
  have "le32 e i = f32_bits x" unfolding e(1) e(2) [symmetric] by (rule le32_u32_bytes)
  moreover have "i + 4 \<le> length e" using e by simp
  ultimately show ?thesis using assms(2) by (simp add: load_float_def f32_bits_roundtrip)
qed

lemma load_store_u16:
  assumes "store d i (u16_bytes w) = Some e"
  shows "load16 e i = Some w"
proof -
  obtain xs ys where e: "e = xs @ u16_bytes w @ ys" "length xs = i"
    using store_split [OF assms(1)] by blast
  have "le16 e i = w" unfolding e(1) e(2) [symmetric] by (rule le16_u16_bytes)
  moreover have "i + 2 \<le> length e" using e by simp
  ultimately show ?thesis by (simp add: load16_def)
qed

lemma store_outside:
  "store d i bs = Some e \<Longrightarrow> j < length d \<Longrightarrow> j < i \<or> i + length bs \<le> j \<Longrightarrow> e ! j = d ! j"
  using store_nth [of d i bs e j] by auto

lemma load_float_other:
  assumes "store d i bs = Some e" and "j + 4 \<le> i \<or> i + length bs \<le> j"
  shows "load_float e j = load_float d j"
proof (cases "j + 4 \<le> length d")
  case True
  have "le32 e j = le32 d j"
    by (rule le32_cong; rule store_outside [OF assms(1)]; use True assms(2) in linarith)
  then show ?thesis using store_length [OF assms(1)] by (simp add: load_float_def)
next
  case False
  then show ?thesis using store_length [OF assms(1)] by (simp add: load_float_def)
qed

lemma load16_other:
  assumes "store d i bs = Some e" and "j + 2 \<le> i \<or> i + length bs \<le> j"
  shows "load16 e j = load16 d j"
proof (cases "j + 2 \<le> length d")
  case True
  have "le16 e j = le16 d j"
    by (rule le16_cong; rule store_outside [OF assms(1)]; use True assms(2) in linarith)
  then show ?thesis using store_length [OF assms(1)] by (simp add: load16_def)
next
  case False
  then show ?thesis using store_length [OF assms(1)] by (simp add: load16_def)
qed

end
