(* ===== verification/Combiner.thy ===== *)
theory Combiner
  imports Ros_Msgs "HOL-Library.Monad_Syntax"
begin

text \<open>
  The combiner node (\<open>point_cloud_combiner_node.cpp\<close>): it keeps the newest cloud and IMU
  message of every input, and publishes one cloud in the target frame, or one IMU message, when
  all inputs are present and close in time. The time arithmetic of \<open>rclcpp\<close>, \<open>tf2\<close> and the
  matrix product of \<open>Eigen\<close> are parameters.
\<close>

section \<open>Parameters and state\<close>

record libs =
  lib_time :: "stamp \<Rightarrow> rtime"
  lib_seconds :: "int \<Rightarrow> ieee"
  lib_matrix :: "quat \<Rightarrow> mat3"
  lib_mat_vec :: "mat3 \<Rightarrow> vec3 \<Rightarrow> vec3"

record transform_msg =
  tm_translation :: vec3
  tm_rotation :: quat

text \<open>
  \<open>lookupTransform(target, frame, stamp)\<close> for an input: \<open>None\<close> when it throws. It is given per
  call of a handler, since the transform tree changes between the calls.
\<close>

type_synonym tf_lookup = "nat \<Rightarrow> string \<Rightarrow> string \<Rightarrow> stamp \<Rightarrow> transform_msg option"

record target_transform =
  tt_rotation :: mat3
  tt_translation :: vec3

record combiner =
  input_topics :: "string list"
  imu_topics :: "string list"
  target_frame :: string
  latest_clouds :: "point_cloud2 option list"
  latest_imus :: "imu_msg option list"
  target_transforms :: "target_transform option list"
  has_imu_publisher :: bool
  clouds_out :: "point_cloud2 list"
  imus_out :: "imu_msg list"

definition new_combiner :: "string list \<Rightarrow> string list \<Rightarrow> string \<Rightarrow> combiner" where
  "new_combiner inputs imus frame =
     (if inputs = [] then
        \<lparr>input_topics = inputs, imu_topics = imus, target_frame = frame, latest_clouds = [], latest_imus = [],
         target_transforms = [], has_imu_publisher = False, clouds_out = [], imus_out = []\<rparr>
      else
        \<lparr>input_topics = inputs, imu_topics = imus, target_frame = frame,
         latest_clouds = replicate (length inputs) None,
         latest_imus = (if imus = [] then [] else replicate (length imus) None),
         target_transforms = replicate (length inputs) None,
         has_imu_publisher = (imus \<noteq> []), clouds_out = [], imus_out = []\<rparr>)"

section \<open>Fields\<close>

record offsets =
  off_x :: int
  off_y :: int
  off_z :: int
  off_intensity :: int
  off_time :: int
  off_ring :: int

definition field_is :: "string \<Rightarrow> u8 \<Rightarrow> point_field \<Rightarrow> bool" where
  "field_is name datatype f \<longleftrightarrow> pf_name f = name \<and> pf_datatype f = datatype"

fun find_offsets_loop :: "point_field list \<Rightarrow> offsets \<Rightarrow> offsets" where
  "find_offsets_loop [] o1 = o1"
| "find_offsets_loop (f # fs) o1 =
     (let p = sint (pf_offset f);
          o1 = (if field_is ''x'' float32_field f then o1\<lparr>off_x := p\<rparr> else o1);
          o1 = (if field_is ''y'' float32_field f then o1\<lparr>off_y := p\<rparr> else o1);
          o1 = (if field_is ''z'' float32_field f then o1\<lparr>off_z := p\<rparr> else o1);
          o1 = (if field_is ''intensity'' uint32_field f then o1\<lparr>off_intensity := p\<rparr> else o1);
          o1 = (if field_is ''time'' uint32_field f then o1\<lparr>off_time := p\<rparr> else o1);
          o1 = (if field_is ''ring'' uint16_field f then o1\<lparr>off_ring := p\<rparr> else o1)
      in find_offsets_loop fs o1)"

definition find_offsets :: "point_cloud2 \<Rightarrow> offsets option" where
  "find_offsets c =
     (let o1 = find_offsets_loop (pc_fields c)
        \<lparr>off_x = - 1, off_y = - 1, off_z = - 1, off_intensity = - 1, off_time = - 1, off_ring = - 1\<rparr>
      in if off_x o1 < 0 \<or> off_y o1 < 0 \<or> off_z o1 < 0 then None else Some o1)"

section \<open>Transforms\<close>

definition v3_add :: "vec3 \<Rightarrow> vec3 \<Rightarrow> vec3" where
  "v3_add a b =
     (case (a, b) of ((x, y, z), (u, v, w)) \<Rightarrow> (f_add binary64 x u, f_add binary64 y v, f_add binary64 z w))"

definition v3_div :: "vec3 \<Rightarrow> ieee \<Rightarrow> vec3" where
  "v3_div a n = (case a of (x, y, z) \<Rightarrow> (f_div binary64 x n, f_div binary64 y n, f_div binary64 z n))"

definition cached_transform :: "nat \<Rightarrow> combiner \<Rightarrow> target_transform option" where
  "cached_transform i s = (if i < length (target_transforms s) then target_transforms s ! i else None)"

definition get_transform_to_target_frame ::
  "libs \<Rightarrow> tf_lookup \<Rightarrow> nat \<Rightarrow> point_cloud2 \<Rightarrow> combiner \<Rightarrow> target_transform option \<times> combiner" where
  "get_transform_to_target_frame L tf i c s =
     (case cached_transform i s of
        Some t \<Rightarrow> (Some t, s)
      | None \<Rightarrow>
          (case tf i (target_frame s) (pc_frame_id c) (pc_stamp c) of
             None \<Rightarrow> (None, s)
           | Some m \<Rightarrow>
               let t = \<lparr>tt_rotation = lib_matrix L (tm_rotation m), tt_translation = tm_translation m\<rparr>
               in (Some t,
                   if i < length (target_transforms s)
                   then s\<lparr>target_transforms := (target_transforms s)[i := Some t]\<rparr> else s)))"

definition apply_transform :: "libs \<Rightarrow> target_transform \<Rightarrow> vec3 \<Rightarrow> vec3" where
  "apply_transform L t p =
     (case v3_add (lib_mat_vec L (tt_rotation t) p) (tt_translation t) of
        (x, y, z) \<Rightarrow> (f_cast binary32 x, f_cast binary32 y, f_cast binary32 z))"

text \<open>The body of the loop over the points: the bytes and the largest ring so far.\<close>

definition transform_coords :: "libs \<Rightarrow> target_transform \<Rightarrow> offsets \<Rightarrow> nat \<Rightarrow> u8 list \<Rightarrow> u8 list option" where
  "transform_coords L t o1 base d = do {
     x \<leftarrow> load_float d (base + nat (off_x o1));
     y \<leftarrow> load_float d (base + nat (off_y o1));
     z \<leftarrow> load_float d (base + nat (off_z o1));
     (case apply_transform L t (f_cast binary64 x, f_cast binary64 y, f_cast binary64 z) of
        (xt, yt, zt) \<Rightarrow> do {
          d \<leftarrow> store d (base + nat (off_x o1)) (float_bytes xt);
          d \<leftarrow> store d (base + nat (off_y o1)) (float_bytes yt);
          store d (base + nat (off_z o1)) (float_bytes zt)})}"

definition shift_ring :: "offsets \<Rightarrow> int \<Rightarrow> nat \<Rightarrow> u8 list \<times> int \<Rightarrow> (u8 list \<times> int) option" where
  "shift_ring o1 ring_offset base dm =
     (case dm of (d, max_ring) \<Rightarrow>
        if 0 \<le> off_ring o1 then do {
          ring \<leftarrow> load16 d (base + nat (off_ring o1));
          d \<leftarrow> store d (base + nat (off_ring o1)) (u16_bytes (word_of_int (uint ring + ring_offset)));
          Some (d, max max_ring (uint ring))}
        else Some (d, max_ring))"

fun transform_points ::
  "libs \<Rightarrow> target_transform \<Rightarrow> offsets \<Rightarrow> int \<Rightarrow> nat \<Rightarrow> nat list \<Rightarrow> u8 list \<times> int \<Rightarrow> (u8 list \<times> int) option" where
  "transform_points L t o1 ring_offset step [] dm = Some dm"
| "transform_points L t o1 ring_offset step (i # is) dm = do {
     d \<leftarrow> transform_coords L t o1 (i * step) (fst dm);
     dm \<leftarrow> shift_ring o1 ring_offset (i * step) (d, snd dm);
     transform_points L t o1 ring_offset step is dm}"

definition point_count :: "point_cloud2 \<Rightarrow> nat" where
  "point_count c = unat (pc_width c) * unat (pc_height c)"

text \<open>The outer \<open>None\<close> is an access out of bounds, the inner one the result \<open>false\<close>.\<close>

definition transform_to_target_frame ::
  "libs \<Rightarrow> tf_lookup \<Rightarrow> nat \<Rightarrow> point_cloud2 \<Rightarrow> int \<Rightarrow> combiner \<Rightarrow> ((point_cloud2 \<times> int) option \<times> combiner) option" where
  "transform_to_target_frame L tf i c ring_offset s =
     (case get_transform_to_target_frame L tf i c s of
        (None, s) \<Rightarrow> Some (None, s)
      | (Some t, s) \<Rightarrow>
          (case find_offsets c of
             None \<Rightarrow> Some (None, s)
           | Some o1 \<Rightarrow> do {
               (d, max_ring) \<leftarrow>
                 transform_points L t o1 ring_offset (unat (pc_point_step c)) [0..<point_count c] (pc_data c, 0);
               Some (Some (c\<lparr>pc_data := d, pc_frame_id := target_frame s\<rparr>,
                           if 0 \<le> off_ring o1 then ring_offset + (max_ring + 1) else ring_offset), s)}))"

fun transform_all ::
  "libs \<Rightarrow> tf_lookup \<Rightarrow> nat \<Rightarrow> point_cloud2 list \<Rightarrow> int \<Rightarrow> combiner \<Rightarrow> (point_cloud2 list option \<times> combiner) option" where
  "transform_all L tf i [] ring_offset s = Some (Some [], s)"
| "transform_all L tf i (c # cs) ring_offset s = do {
     (r, s) \<leftarrow> transform_to_target_frame L tf i c ring_offset s;
     (case r of
        None \<Rightarrow> Some (None, s)
      | Some (out, ring_offset) \<Rightarrow> do {
          (r, s) \<leftarrow> transform_all L tf (Suc i) cs ring_offset s;
          Some (map_option ((#) out) r, s)})}"

section \<open>The combined cloud\<close>

definition same_layout :: "point_cloud2 \<Rightarrow> point_cloud2 \<Rightarrow> bool" where
  "same_layout base c \<longleftrightarrow> pc_point_step c = pc_point_step base \<and> pc_fields c = pc_fields base"

definition append_cloud :: "libs \<Rightarrow> point_cloud2 \<Rightarrow> point_cloud2 \<Rightarrow> point_cloud2" where
  "append_cloud L c out =
     out\<lparr>pc_data := pc_data out @ pc_data c, pc_is_dense := (pc_is_dense out \<and> pc_is_dense c),
       pc_stamp := (if lib_time L (pc_stamp out) < lib_time L (pc_stamp c) then pc_stamp c else pc_stamp out)\<rparr>"

definition build_combined_cloud :: "libs \<Rightarrow> string \<Rightarrow> point_cloud2 list \<Rightarrow> point_cloud2 option" where
  "build_combined_cloud L frame clouds =
     (case clouds of
        [] \<Rightarrow> None
      | base # _ \<Rightarrow>
          let used = filter (same_layout base) clouds;
              total_points = sum_list (map point_count used)
          in if total_points = 0 then None
             else
               let width = of_nat total_points;
                   out = fold (append_cloud L) used
                     \<lparr>pc_stamp = pc_stamp base, pc_frame_id = frame, pc_height = 1, pc_width = width,
                      pc_fields = pc_fields base, pc_is_bigendian = pc_is_bigendian base,
                      pc_point_step = pc_point_step base, pc_row_step = pc_point_step base * width,
                      pc_data = [], pc_is_dense = True\<rparr>
               in if pc_data out = [] then None else Some out)"

section \<open>Waiting for all inputs\<close>

definition sync_tolerance_ms :: int where "sync_tolerance_ms = 25"
definition imu_sync_tolerance_ms :: int where "imu_sync_tolerance_ms = 10"

definition newest_of :: "rtime list \<Rightarrow> rtime" where
  "newest_of ts = foldl (\<lambda>newest t. if newest < t then t else newest) (hd ts) ts"

definition too_old :: "libs \<Rightarrow> int \<Rightarrow> rtime \<Rightarrow> rtime \<Rightarrow> bool" where
  "too_old L tolerance newest t \<longleftrightarrow>
     f_less (f_of_int binary64 tolerance)
       (f_mul binary64 (lib_seconds L (ns_of newest - ns_of t)) (f_of_int binary64 1000))"

definition clouds_in_sync :: "libs \<Rightarrow> point_cloud2 list \<Rightarrow> bool" where
  "clouds_in_sync L cs \<longleftrightarrow>
     (let ts = map (\<lambda>c. lib_time L (pc_stamp c)) cs
      in list_all (\<lambda>t. \<not> too_old L sync_tolerance_ms (newest_of ts) t) ts)"

definition imus_in_sync :: "libs \<Rightarrow> imu_msg list \<Rightarrow> bool" where
  "imus_in_sync L ms \<longleftrightarrow>
     (let ts = map (\<lambda>m. lib_time L (im_stamp m)) ms
      in list_all (\<lambda>t. \<not> too_old L imu_sync_tolerance_ms (newest_of ts) t) ts)"

definition try_publish_combined :: "libs \<Rightarrow> tf_lookup \<Rightarrow> combiner \<Rightarrow> combiner option" where
  "try_publish_combined L tf s =
     (if None \<in> set (latest_clouds s) then Some s
      else
        let cs = map the (latest_clouds s)
        in if \<not> clouds_in_sync L cs then Some s
           else do {
             (r, s) \<leftarrow> transform_all L tf 0 cs 0 s;
             (case r of
                None \<Rightarrow> Some s
              | Some transformed \<Rightarrow>
                  (case build_combined_cloud L (target_frame s) transformed of
                     None \<Rightarrow> Some s
                   | Some combined \<Rightarrow> Some (s\<lparr>clouds_out := clouds_out s @ [combined]\<rparr>)))})"

definition on_point_cloud_in :: "libs \<Rightarrow> tf_lookup \<Rightarrow> nat \<Rightarrow> point_cloud2 \<Rightarrow> combiner \<Rightarrow> combiner option" where
  "on_point_cloud_in L tf i c s =
     try_publish_combined L tf (s\<lparr>latest_clouds := (latest_clouds s)[i := Some c]\<rparr>)"

section \<open>IMU fusion\<close>

definition transform_imu_vector :: "libs \<Rightarrow> combiner \<Rightarrow> nat \<Rightarrow> vec3 \<Rightarrow> vec3 option" where
  "transform_imu_vector L s i v = map_option (\<lambda>t. lib_mat_vec L (tt_rotation t) v) (cached_transform i s)"

definition f_zero :: ieee where
  "f_zero = F_Fin False 0 (- 1074)"

fun sum_imus :: "libs \<Rightarrow> combiner \<Rightarrow> nat \<Rightarrow> imu_msg list \<Rightarrow> vec3 \<times> vec3 \<Rightarrow> (vec3 \<times> vec3) option" where
  "sum_imus L s i [] acc = Some acc"
| "sum_imus L s i (m # ms) acc = do {
     av \<leftarrow> transform_imu_vector L s i (im_angular_velocity m);
     la \<leftarrow> transform_imu_vector L s i (im_linear_acceleration m);
     sum_imus L s (Suc i) ms (v3_add (fst acc) av, v3_add (snd acc) la)}"

definition fuse_covariance :: "ieee \<Rightarrow> ieee list \<Rightarrow> ieee list" where
  "fuse_covariance n c =
     (if f_less f_zero (c ! 0) \<or> f_eq f_zero (c ! 0) then map (\<lambda>x. f_div binary64 x n) c
      else c[0 := f_of_int binary64 (- 1)])"

definition fuse_imus :: "string \<Rightarrow> imu_msg list \<Rightarrow> vec3 \<times> vec3 \<Rightarrow> imu_msg" where
  "fuse_imus frame ms totals =
     (let n = f_of_int binary64 (int (length ms)); first = hd ms
      in first\<lparr>im_frame_id := frame,
           im_orientation_covariance := (im_orientation_covariance first)[0 := f_of_int binary64 (- 1)],
           im_angular_velocity := v3_div (fst totals) n,
           im_linear_acceleration := v3_div (snd totals) n,
           im_angular_velocity_covariance := fuse_covariance n (im_angular_velocity_covariance first),
           im_linear_acceleration_covariance := fuse_covariance n (im_linear_acceleration_covariance first)\<rparr>)"

definition try_publish_combined_imu :: "libs \<Rightarrow> combiner \<Rightarrow> combiner" where
  "try_publish_combined_imu L s =
     (if \<not> has_imu_publisher s then s
      else if None \<in> set (latest_imus s) then s
      else
        let ms = map the (latest_imus s)
        in if \<not> imus_in_sync L ms then s
           else case sum_imus L s 0 ms ((f_zero, f_zero, f_zero), (f_zero, f_zero, f_zero)) of
             None \<Rightarrow> s
           | Some totals \<Rightarrow> s\<lparr>imus_out := imus_out s @ [fuse_imus (target_frame s) ms totals]\<rparr>)"

definition on_imu_in :: "libs \<Rightarrow> nat \<Rightarrow> imu_msg \<Rightarrow> combiner \<Rightarrow> combiner" where
  "on_imu_in L i m s = try_publish_combined_imu L (s\<lparr>latest_imus := (latest_imus s)[i := Some m]\<rparr>)"

section \<open>The view of a cloud\<close>

text \<open>A cloud as its list of points: the coordinates, and the ring when there is a ring field.\<close>

type_synonym point = "vec3 \<times> u16 option"

definition point_view :: "offsets \<Rightarrow> u8 list \<Rightarrow> nat \<Rightarrow> point" where
  "point_view o1 d base =
     ((f32_of_bits (le32 d (base + nat (off_x o1))), f32_of_bits (le32 d (base + nat (off_y o1))),
       f32_of_bits (le32 d (base + nat (off_z o1)))),
      if 0 \<le> off_ring o1 then Some (le16 d (base + nat (off_ring o1))) else None)"

definition data_view :: "offsets \<Rightarrow> nat \<Rightarrow> nat \<Rightarrow> u8 list \<Rightarrow> point list" where
  "data_view o1 step n d = map (\<lambda>i. point_view o1 d (i * step)) [0..<n]"

definition cloud_view :: "point_cloud2 \<Rightarrow> point list" where
  "cloud_view c =
     (case find_offsets c of
        None \<Rightarrow> []
      | Some o1 \<Rightarrow> data_view o1 (unat (pc_point_step c)) (point_count c) (pc_data c))"

definition transform_view :: "libs \<Rightarrow> target_transform \<Rightarrow> int \<Rightarrow> point \<Rightarrow> point" where
  "transform_view L t ring_offset p =
     (case p of ((x, y, z), r) \<Rightarrow>
        (apply_transform L t (f_cast binary64 x, f_cast binary64 y, f_cast binary64 z),
         map_option (\<lambda>r. word_of_int (uint r + ring_offset)) r))"

definition ring_step :: "point \<Rightarrow> int \<Rightarrow> int" where
  "ring_step p m = (case snd p of None \<Rightarrow> m | Some r \<Rightarrow> max m (uint r))"

definition ring_max :: "point list \<Rightarrow> int" where
  "ring_max v = fold ring_step v 0"

text \<open>The fields do not overlap and lie in the point.\<close>

definition layout_ok :: "offsets \<Rightarrow> nat \<Rightarrow> bool" where
  "layout_ok o1 step \<longleftrightarrow>
     0 \<le> off_x o1 \<and> 0 \<le> off_y o1 \<and> 0 \<le> off_z o1 \<and>
     nat (off_x o1) + 4 \<le> step \<and> nat (off_y o1) + 4 \<le> step \<and> nat (off_z o1) + 4 \<le> step \<and>
     (off_x o1 + 4 \<le> off_y o1 \<or> off_y o1 + 4 \<le> off_x o1) \<and>
     (off_x o1 + 4 \<le> off_z o1 \<or> off_z o1 + 4 \<le> off_x o1) \<and>
     (off_y o1 + 4 \<le> off_z o1 \<or> off_z o1 + 4 \<le> off_y o1) \<and>
     (0 \<le> off_ring o1 \<longrightarrow>
        nat (off_ring o1) + 2 \<le> step \<and>
        (off_ring o1 + 2 \<le> off_x o1 \<or> off_x o1 + 4 \<le> off_ring o1) \<and>
        (off_ring o1 + 2 \<le> off_y o1 \<or> off_y o1 + 4 \<le> off_ring o1) \<and>
        (off_ring o1 + 2 \<le> off_z o1 \<or> off_z o1 + 4 \<le> off_ring o1))"

lemma apply_transform_canon:
  assumes "apply_transform L t p = (x, y, z)"
  shows "f_canon binary32 x" and "f_canon binary32 y" and "f_canon binary32 z"
  using assms by (auto simp: apply_transform_def v3_add_def f_add_canon64 intro!: f_cast_canon32 split: prod.splits)

lemma load_float_in: "i + 4 \<le> length d \<Longrightarrow> load_float d i = Some (f32_of_bits (le32 d i))"
  by (simp add: load_float_def)

lemma load16_in: "i + 2 \<le> length d \<Longrightarrow> load16 d i = Some (le16 d i)"
  by (simp add: load16_def)

lemma store_in: "i + length bs \<le> length d \<Longrightarrow> \<exists>e. store d i bs = Some e"
  by (simp add: store_def)

lemma load_float_eq: "load_float e i = load_float d i \<Longrightarrow> length e = length d \<Longrightarrow> i + 4 \<le> length d \<Longrightarrow>
    f32_of_bits (le32 e i) = f32_of_bits (le32 d i)"
  by (simp add: load_float_def)

text \<open>Three values stored in disjoint places: what a later read sees.\<close>

lemma store3:
  assumes "a + 4 \<le> b \<or> b + 4 \<le> a" "a + 4 \<le> c \<or> c + 4 \<le> a" "b + 4 \<le> c \<or> c + 4 \<le> b"
    and "a + 4 \<le> length d" "b + 4 \<le> length d" "c + 4 \<le> length d"
    and "f_canon binary32 x" "f_canon binary32 y" "f_canon binary32 z"
  obtains d1 d2 d3 where "store d a (float_bytes x) = Some d1" "store d1 b (float_bytes y) = Some d2"
    "store d2 c (float_bytes z) = Some d3" "length d3 = length d"
    "f32_of_bits (le32 d3 a) = x" "f32_of_bits (le32 d3 b) = y" "f32_of_bits (le32 d3 c) = z"
    "\<And>j. j < length d \<Longrightarrow> j < a \<or> a + 4 \<le> j \<Longrightarrow> j < b \<or> b + 4 \<le> j \<Longrightarrow> j < c \<or> c + 4 \<le> j \<Longrightarrow> d3 ! j = d ! j"
proof -
  obtain d1 where 1: "store d a (float_bytes x) = Some d1" using store_in [of a "float_bytes x" d] assms by auto
  note l1 = store_length [OF 1]
  obtain d2 where 2: "store d1 b (float_bytes y) = Some d2" using store_in [of b "float_bytes y" d1] assms l1 by auto
  note l2 = store_length [OF 2, unfolded l1]
  obtain d3 where 3: "store d2 c (float_bytes z) = Some d3" using store_in [of c "float_bytes z" d2] assms l2 by auto
  note l3 = store_length [OF 3, unfolded l2]
  have "load_float d3 a = load_float d2 a" using assms by (intro load_float_other [OF 3]) auto
  also have "\<dots> = load_float d1 a" using assms by (intro load_float_other [OF 2]) auto
  also have "\<dots> = Some x" using 1 assms by (intro load_store_float)
  finally have a: "f32_of_bits (le32 d3 a) = x" using load_float_in [of a d3] l3 assms by simp
  have "load_float d3 b = load_float d2 b" using assms by (intro load_float_other [OF 3]) auto
  also have "\<dots> = Some y" using 2 assms by (intro load_store_float)
  finally have b: "f32_of_bits (le32 d3 b) = y" using load_float_in [of b d3] l3 assms by simp
  have "load_float d3 c = Some z" using 3 assms by (intro load_store_float)
  then have c: "f32_of_bits (le32 d3 c) = z" using load_float_in [of c d3] l3 assms by simp
  have "d3 ! j = d ! j" if "j < length d" "j < a \<or> a + 4 \<le> j" "j < b \<or> b + 4 \<le> j" "j < c \<or> c + 4 \<le> j" for j
    using store_outside [OF 3, of j] store_outside [OF 2, of j] store_outside [OF 1, of j] that l1 l2 by simp
  then show thesis using that 1 2 3 l3 a b c by blast
qed

lemma layout_offsets:
  assumes "layout_ok o1 step"
  shows "base + nat (off_x o1) + 4 \<le> base + nat (off_y o1) \<or> base + nat (off_y o1) + 4 \<le> base + nat (off_x o1)"
    and "base + nat (off_x o1) + 4 \<le> base + nat (off_z o1) \<or> base + nat (off_z o1) + 4 \<le> base + nat (off_x o1)"
    and "base + nat (off_y o1) + 4 \<le> base + nat (off_z o1) \<or> base + nat (off_z o1) + 4 \<le> base + nat (off_y o1)"
    and "base + step \<le> n \<Longrightarrow> base + nat (off_x o1) + 4 \<le> n" "base + step \<le> n \<Longrightarrow> base + nat (off_y o1) + 4 \<le> n"
      "base + step \<le> n \<Longrightarrow> base + nat (off_z o1) + 4 \<le> n"
  using assms unfolding layout_ok_def by linarith+

lemma layout_ring:
  assumes "layout_ok o1 step" and "0 \<le> off_ring o1"
  shows "base + step \<le> n \<Longrightarrow> base + nat (off_ring o1) + 2 \<le> n"
    and "base + nat (off_ring o1) + 2 \<le> base + nat (off_x o1) \<or> base + nat (off_x o1) + 4 \<le> base + nat (off_ring o1)"
    and "base + nat (off_ring o1) + 2 \<le> base + nat (off_y o1) \<or> base + nat (off_y o1) + 4 \<le> base + nat (off_ring o1)"
    and "base + nat (off_ring o1) + 2 \<le> base + nat (off_z o1) \<or> base + nat (off_z o1) + 4 \<le> base + nat (off_ring o1)"
  using assms unfolding layout_ok_def by linarith+

definition same_outside :: "nat \<Rightarrow> nat \<Rightarrow> u8 list \<Rightarrow> u8 list \<Rightarrow> bool" where
  "same_outside lo hi d e \<longleftrightarrow> length e = length d \<and> (\<forall>j<length d. j < lo \<or> hi \<le> j \<longrightarrow> e ! j = d ! j)"

lemma same_outside_trans: "same_outside lo hi c d \<Longrightarrow> same_outside lo hi d e \<Longrightarrow> same_outside lo hi c e"
  by (simp add: same_outside_def)

lemma point_view_cong:
  assumes "layout_ok o1 step" and "\<And>j. base \<le> j \<Longrightarrow> j < base + step \<Longrightarrow> e ! j = d ! j"
  shows "point_view o1 e base = point_view o1 d base"
proof -
  have f: "le32 e (base + nat p) = le32 d (base + nat p)" if "nat p + 4 \<le> step" for p
    by (rule le32_cong; rule assms(2); use that in linarith)
  have r: "le16 e (base + nat p) = le16 d (base + nat p)" if "nat p + 2 \<le> step" for p
    by (rule le16_cong; rule assms(2); use that in linarith)
  show ?thesis using assms(1) f r by (simp add: point_view_def layout_ok_def)
qed

lemma transform_coords_step:
  assumes lay: "layout_ok o1 step" and len: "base + step \<le> length d"
  obtains e where "transform_coords L t o1 base d = Some e" "same_outside base (base + step) d e"
    "point_view o1 e base = (fst (transform_view L t ring_offset (point_view o1 d base)), snd (point_view o1 d base))"
proof -
  define a b c where "a = base + nat (off_x o1)" and "b = base + nat (off_y o1)" and "c = base + nat (off_z o1)"
  note abc = a_def b_def c_def
  note offs = layout_offsets [OF lay, of base, folded abc]
  have ld: "a + 4 \<le> length d" "b + 4 \<le> length d" "c + 4 \<le> length d" using offs(4-6) len by simp_all
  obtain x y z where t: "apply_transform L t (f_cast binary64 (f32_of_bits (le32 d a)),
      f_cast binary64 (f32_of_bits (le32 d b)), f_cast binary64 (f32_of_bits (le32 d c))) = (x, y, z)"
    by (rule prod_cases3)
  obtain d1 d2 d3 where st: "store d a (float_bytes x) = Some d1" "store d1 b (float_bytes y) = Some d2"
    "store d2 c (float_bytes z) = Some d3" "length d3 = length d" and
    v: "f32_of_bits (le32 d3 a) = x" "f32_of_bits (le32 d3 b) = y" "f32_of_bits (le32 d3 c) = z" and
    same: "\<And>j. j < length d \<Longrightarrow> j < a \<or> a + 4 \<le> j \<Longrightarrow> j < b \<or> b + 4 \<le> j \<Longrightarrow> j < c \<or> c + 4 \<le> j \<Longrightarrow> d3 ! j = d ! j"
    using store3 [OF offs(1-3) ld apply_transform_canon [OF t]] by blast
  have "transform_coords L t o1 base d = Some d3"
    using ld st t by (simp add: transform_coords_def load_float_in abc [symmetric])
  moreover have "same_outside base (base + step) d d3"
    using offs(4-6) [of "base + step"] st(4) by (auto simp: same_outside_def abc intro!: same)
  moreover have "point_view o1 d3 base =
      (fst (transform_view L t ring_offset (point_view o1 d base)), snd (point_view o1 d base))"
  proof (cases "0 \<le> off_ring o1")
    case True
    note rg = layout_ring [OF lay True, of base, folded abc]
    have "le16 d3 (base + nat (off_ring o1)) = le16 d (base + nat (off_ring o1))"
      by (rule le16_cong; rule same; use rg(1) [OF len] rg(2-4) in linarith)
    then show ?thesis using v t by (simp add: point_view_def transform_view_def abc [symmetric])
  next
    case False
    then show ?thesis using v t by (simp add: point_view_def transform_view_def abc [symmetric])
  qed
  ultimately show thesis by (rule that)
qed

lemma shift_ring_step:
  assumes lay: "layout_ok o1 step" and len: "base + step \<le> length d"
  obtains e where "shift_ring o1 ring_offset base (d, m) =
      Some (e, ring_step (point_view o1 d base) m)"
    "same_outside base (base + step) d e"
    "point_view o1 e base = (fst (point_view o1 d base),
       map_option (\<lambda>r. word_of_int (uint r + ring_offset)) (snd (point_view o1 d base)))"
proof (cases "0 \<le> off_ring o1")
  case False
  then have "shift_ring o1 ring_offset base (d, m) = Some (d, m)" by (simp add: shift_ring_def)
  then show thesis by (intro that [of d]) (use False in \<open>simp_all add: point_view_def same_outside_def ring_step_def\<close>)
next
  case True
  note rg = layout_ring [OF lay True, of base]
  let ?p = "base + nat (off_ring o1)"
  let ?r = "word_of_int (uint (le16 d ?p) + ring_offset) :: u16"
  have ld: "?p + 2 \<le> length d" using rg(1) len by blast
  obtain e where e: "store d ?p (u16_bytes ?r) = Some e" using store_in [of ?p "u16_bytes ?r" d] ld by auto
  note le = store_length [OF e]
  have same: "e ! j = d ! j" if "j < length d" "j < ?p \<or> ?p + 2 \<le> j" for j
    using store_outside [OF e] that by simp
  have f: "le32 e (base + nat q) = le32 d (base + nat q)"
    if "base + nat q + 4 \<le> length d" "?p + 2 \<le> base + nat q \<or> base + nat q + 4 \<le> ?p" for q
    by (rule le32_cong; rule same; use that in linarith)
  have r: "le16 e ?p = ?r" using load_store_u16 [OF e] load16_in [of ?p e] ld le by simp
  show thesis
  proof (rule that [of e])
    show "shift_ring o1 ring_offset base (d, m) =
        Some (e, ring_step (point_view o1 d base) m)"
      using True ld e by (simp add: shift_ring_def load16_in point_view_def ring_step_def)
    show "same_outside base (base + step) d e"
      using le rg(1) [of "base + step"] by (auto simp: same_outside_def intro!: same)
    show "point_view o1 e base = (fst (point_view o1 d base),
        map_option (\<lambda>r. word_of_int (uint r + ring_offset)) (snd (point_view o1 d base)))"
      using True r rg layout_offsets(4-6) [OF lay len] f by (simp add: point_view_def)
  qed
qed

lemma transform_points_view:
  assumes lay: "layout_ok o1 step" and "k \<le> n" and "n * step \<le> length d"
  shows "\<exists>e. transform_points L t o1 ring_offset step [k..<n] (d, m) =
      Some (e, fold ring_step (map (\<lambda>i. point_view o1 d (i * step)) [k..<n]) m) \<and>
    same_outside (k * step) (n * step) d e \<and>
    (\<forall>i. k \<le> i \<longrightarrow> i < n \<longrightarrow>
       point_view o1 e (i * step) = transform_view L t ring_offset (point_view o1 d (i * step)))"
  using assms(2,3)
proof (induction k arbitrary: d m rule: inc_induct)
  case base
  then show ?case by (simp add: same_outside_def)
next
  case (step k)
  have up: "[k..<n] = k # [Suc k..<n]" using step.hyps by (simp add: upt_conv_Cons)
  have "Suc k * step \<le> n * step" using step.hyps by (intro mult_le_mono1) simp
  then have len: "k * step + step \<le> length d" using step.prems by simp
  obtain d1 where 1: "transform_coords L t o1 (k * step) d = Some d1" "same_outside (k * step) (k * step + step) d d1"
    "point_view o1 d1 (k * step) = (fst (transform_view L t ring_offset (point_view o1 d (k * step))),
       snd (point_view o1 d (k * step)))"
    by (rule transform_coords_step [OF lay len])
  have l1: "length d1 = length d" using 1(2) by (simp add: same_outside_def)
  then have len1: "k * step + step \<le> length d1" using len by simp
  obtain d2 where 2: "shift_ring o1 ring_offset (k * step) (d1, m) =
      Some (d2, ring_step (point_view o1 d1 (k * step)) m)" "same_outside (k * step) (k * step + step) d1 d2"
    "point_view o1 d2 (k * step) = (fst (point_view o1 d1 (k * step)),
       map_option (\<lambda>r. word_of_int (uint r + ring_offset)) (snd (point_view o1 d1 (k * step))))"
    by (rule shift_ring_step [OF lay len1])
  have d2: "same_outside (k * step) (k * step + step) d d2" by (rule same_outside_trans [OF 1(2) 2(2)])
  have l2: "length d2 = length d" using d2 by (simp add: same_outside_def)
  have view2: "point_view o1 d2 (i * step) = point_view o1 d (i * step)" if "Suc k \<le> i" "i < n" for i
  proof (rule point_view_cong [OF lay])
    have "Suc k * step \<le> i * step" "Suc i * step \<le> n * step" using that by (intro mult_le_mono1; simp)+
    then show "\<And>j. i * step \<le> j \<Longrightarrow> j < i * step + step \<Longrightarrow> d2 ! j = d ! j"
      using d2 step.prems by (auto simp: same_outside_def)
  qed
  have ring: "ring_step (point_view o1 d1 (k * step)) m = ring_step (point_view o1 d (k * step)) m"
    using 1(3) by (simp add: ring_step_def)
  have pk: "point_view o1 d2 (k * step) = transform_view L t ring_offset (point_view o1 d (k * step))"
    using 1(3) 2(3) by (simp add: transform_view_def split: prod.split)
  obtain e where e: "transform_points L t o1 ring_offset step [Suc k..<n] (d2, ring_step (point_view o1 d (k * step)) m) =
      Some (e, fold ring_step (map (\<lambda>i. point_view o1 d2 (i * step)) [Suc k..<n]) (ring_step (point_view o1 d (k * step)) m))"
    "same_outside (Suc k * step) (n * step) d2 e"
    "\<forall>i. Suc k \<le> i \<longrightarrow> i < n \<longrightarrow>
       point_view o1 e (i * step) = transform_view L t ring_offset (point_view o1 d2 (i * step))"
    using step.IH [of d2] step.prems l2 by auto
  have views: "map (\<lambda>i. point_view o1 d2 (i * step)) [Suc k..<n] = map (\<lambda>i. point_view o1 d (i * step)) [Suc k..<n]"
    using view2 by simp
  have run: "transform_points L t o1 ring_offset step [k..<n] (d, m) =
      Some (e, fold ring_step (map (\<lambda>i. point_view o1 d (i * step)) [k..<n]) m)"
    using 1(1) 2(1) e(1) [unfolded views] ring by (simp add: up)
  have same: "same_outside (k * step) (n * step) d e"
    using d2 e(2) \<open>Suc k * step \<le> n * step\<close> by (auto simp: same_outside_def)
  have "point_view o1 e (k * step) = point_view o1 d2 (k * step)"
    using e(2) len l2 by (intro point_view_cong [OF lay]) (auto simp: same_outside_def)
  then have "point_view o1 e (i * step) = transform_view L t ring_offset (point_view o1 d (i * step))"
    if "k \<le> i" "i < n" for i
    using e(3) view2 [of i] pk that by (cases "i = k") auto
  then show ?case using run same by blast
qed

section \<open>A cloud in the target frame\<close>

definition cloud_ok :: "point_cloud2 \<Rightarrow> bool" where
  "cloud_ok c \<longleftrightarrow>
     (case find_offsets c of
        None \<Rightarrow> False
      | Some o1 \<Rightarrow>
          layout_ok o1 (unat (pc_point_step c)) \<and>
          length (pc_data c) = point_count c * unat (pc_point_step c))"

definition has_ring :: "point_cloud2 \<Rightarrow> bool" where
  "has_ring c \<longleftrightarrow> (case find_offsets c of None \<Rightarrow> False | Some o1 \<Rightarrow> 0 \<le> off_ring o1)"

definition next_ring :: "int \<Rightarrow> point_cloud2 \<Rightarrow> int" where
  "next_ring ring_offset c = (if has_ring c then ring_offset + (ring_max (cloud_view c) + 1) else ring_offset)"

text \<open>\<open>out\<close> is \<open>c\<close> with other bytes, in another frame.\<close>

definition reframed :: "string \<Rightarrow> point_cloud2 \<Rightarrow> point_cloud2 \<Rightarrow> bool" where
  "reframed frame c out \<longleftrightarrow>
     out = c\<lparr>pc_data := pc_data out, pc_frame_id := frame\<rparr> \<and> length (pc_data out) = length (pc_data c)"

lemma find_offsets_fields: "pc_fields c = pc_fields d \<Longrightarrow> find_offsets c = find_offsets d"
  by (simp add: find_offsets_def)

lemma reframed_simps:
  assumes "reframed frame c out"
  shows "pc_fields out = pc_fields c" "pc_point_step out = pc_point_step c" "point_count out = point_count c"
    "pc_stamp out = pc_stamp c" "pc_frame_id out = frame" "length (pc_data out) = length (pc_data c)"
    "find_offsets out = find_offsets c"
proof -
  obtain d where o1: "out = c\<lparr>pc_data := d, pc_frame_id := frame\<rparr>" and l: "length (pc_data out) = length (pc_data c)"
    using assms unfolding reframed_def by blast
  show "pc_fields out = pc_fields c" "pc_point_step out = pc_point_step c" "point_count out = point_count c"
    "pc_stamp out = pc_stamp c" "pc_frame_id out = frame" "length (pc_data out) = length (pc_data c)"
    "find_offsets out = find_offsets c"
    using o1 l by (simp_all add: point_count_def find_offsets_def)
qed

lemma reframed_ok: "reframed frame c out \<Longrightarrow> cloud_ok out = cloud_ok c"
  by (simp add: cloud_ok_def reframed_simps split: option.split)

lemma to_target_frame_view:
  assumes ok: "cloud_ok c" and t: "get_transform_to_target_frame L tf i c s = (Some t, s1)"
  obtains out where "transform_to_target_frame L tf i c ring_offset s = Some (Some (out, next_ring ring_offset c), s1)"
    "cloud_view out = map (transform_view L t ring_offset) (cloud_view c)" "reframed (target_frame s1) c out"
proof -
  let ?step = "unat (pc_point_step c)" and ?n = "point_count c"
  obtain o1 where o1: "find_offsets c = Some o1" "layout_ok o1 ?step" "length (pc_data c) = ?n * ?step"
    using ok by (auto simp: cloud_ok_def split: option.splits)
  obtain e where e: "transform_points L t o1 ring_offset ?step [0..<?n] (pc_data c, 0) =
      Some (e, ring_max (cloud_view c))" "length e = length (pc_data c)"
    "\<forall>i<?n. point_view o1 e (i * ?step) = transform_view L t ring_offset (point_view o1 (pc_data c) (i * ?step))"
    using transform_points_view [OF o1(2), of 0 ?n "pc_data c" L t ring_offset 0] o1
    by (auto simp: cloud_view_def data_view_def ring_max_def same_outside_def)
  define out where "out = c\<lparr>pc_data := e, pc_frame_id := target_frame s1\<rparr>"
  have r: "reframed (target_frame s1) c out" using e(2) by (simp add: reframed_def out_def)
  show thesis
  proof (rule that [of out])
    show "transform_to_target_frame L tf i c ring_offset s = Some (Some (out, next_ring ring_offset c), s1)"
      using t o1(1) e(1) by (simp add: transform_to_target_frame_def out_def next_ring_def has_ring_def)
    show "cloud_view out = map (transform_view L t ring_offset) (cloud_view c)"
      using e(3) o1(1) reframed_simps [OF r] by (simp add: cloud_view_def data_view_def out_def)
  qed (rule r)
qed

section \<open>All clouds\<close>

fun combined_views :: "libs \<Rightarrow> target_transform list \<Rightarrow> point_cloud2 list \<Rightarrow> int \<Rightarrow> point list list" where
  "combined_views L (t # ts) (c # cs) ring_offset =
     map (transform_view L t ring_offset) (cloud_view c) # combined_views L ts cs (next_ring ring_offset c)"
| "combined_views L _ _ ring_offset = []"

text \<open>The transform an input has: the cached one, else the one looked up.\<close>

definition transform_for :: "libs \<Rightarrow> tf_lookup \<Rightarrow> combiner \<Rightarrow> nat \<Rightarrow> point_cloud2 \<Rightarrow> target_transform option" where
  "transform_for L tf s i c = fst (get_transform_to_target_frame L tf i c s)"

lemma get_transform_state:
  assumes "get_transform_to_target_frame L tf i c s = (r, s1)"
  shows "s1 = s\<lparr>target_transforms := target_transforms s1\<rparr>"
    and "j \<noteq> i \<Longrightarrow> cached_transform j s1 = cached_transform j s"
  using assms by (auto simp: get_transform_to_target_frame_def cached_transform_def Let_def
      split: option.splits if_splits)

lemma transform_for_other:
  assumes "get_transform_to_target_frame L tf i c s = (r, s1)" and "j \<noteq> i"
  shows "transform_for L tf s1 j d = transform_for L tf s j d"
proof -
  have "target_frame s1 = target_frame s"
    by (subst get_transform_state(1) [OF assms(1)]) simp
  then show ?thesis
    using get_transform_state(2) [OF assms]
    by (simp add: transform_for_def get_transform_to_target_frame_def Let_def split: option.split)
qed

lemma transform_all_views:
  assumes "list_all cloud_ok cs" and "length ts = length cs"
    and "\<And>k. k < length cs \<Longrightarrow> transform_for L tf s (i + k) (cs ! k) = Some (ts ! k)"
  shows "\<exists>outs s1. transform_all L tf i cs ring_offset s = Some (Some outs, s1) \<and>
    map cloud_view outs = combined_views L ts cs ring_offset \<and>
    list_all2 (reframed (target_frame s)) cs outs \<and> s1 = s\<lparr>target_transforms := target_transforms s1\<rparr>"
  using assms
proof (induction cs arbitrary: ts i ring_offset s)
  case Nil
  then show ?case by simp
next
  case (Cons c cs)
  obtain t ts' where ts: "ts = t # ts'" using Cons.prems(2) by (cases ts) auto
  obtain s1 where g: "get_transform_to_target_frame L tf i c s = (Some t, s1)"
    using Cons.prems(3) [of 0] by (cases "get_transform_to_target_frame L tf i c s") (auto simp: ts transform_for_def)
  note st = get_transform_state(1) [OF g]
  have tf1: "target_frame s1 = target_frame s" by (subst st) simp
  obtain out where out: "transform_to_target_frame L tf i c ring_offset s = Some (Some (out, next_ring ring_offset c), s1)"
    "cloud_view out = map (transform_view L t ring_offset) (cloud_view c)" "reframed (target_frame s1) c out"
    using to_target_frame_view [OF _ g] Cons.prems(1) by auto
  have "transform_for L tf s1 (Suc i + k) (cs ! k) = Some (ts' ! k)" if "k < length cs" for k
    using Cons.prems(3) [of "Suc k"] transform_for_other [OF g] that by (simp add: ts)
  then obtain outs s2 where outs: "transform_all L tf (Suc i) cs (next_ring ring_offset c) s1 = Some (Some outs, s2)"
    "map cloud_view outs = combined_views L ts' cs (next_ring ring_offset c)"
    "list_all2 (reframed (target_frame s1)) cs outs" "s2 = s1\<lparr>target_transforms := target_transforms s2\<rparr>"
    using Cons.IH [of ts' s1 "Suc i" "next_ring ring_offset c"] Cons.prems(1,2) by (auto simp: ts)
  have "s2 = s\<lparr>target_transforms := target_transforms s2\<rparr>"
    by (subst outs(4), subst st) simp
  then show ?case using out outs tf1 by (intro exI [of _ "out # outs"] exI [of _ s2]) (auto simp: ts)
qed

section \<open>One cloud from many\<close>

lemma fold_append_cloud:
  "\<exists>d. fold (append_cloud L) cs out =
    out\<lparr>pc_data := pc_data out @ concat (map pc_data cs), pc_is_dense := (pc_is_dense out \<and> list_all pc_is_dense cs),
      pc_stamp := d\<rparr> \<and>
    lib_time L d = Max (insert (lib_time L (pc_stamp out)) ((\<lambda>c. lib_time L (pc_stamp c)) ` set cs))"
proof (induction cs arbitrary: out)
  case Nil
  show ?case by (rule exI [of _ "pc_stamp out"]) simp
next
  case (Cons c cs)
  define m where "m = append_cloud L c out"
  obtain d where d: "fold (append_cloud L) cs m =
      m\<lparr>pc_data := pc_data m @ concat (map pc_data cs), pc_is_dense := (pc_is_dense m \<and> list_all pc_is_dense cs),
        pc_stamp := d\<rparr>"
    "lib_time L d = Max (insert (lib_time L (pc_stamp m)) ((\<lambda>c. lib_time L (pc_stamp c)) ` set cs))"
    using Cons.IH by blast
  let ?T = "(\<lambda>c. lib_time L (pc_stamp c)) ` set cs"
  have "lib_time L (pc_stamp m) = max (lib_time L (pc_stamp out)) (lib_time L (pc_stamp c))"
    using less_imp_le by (auto simp: m_def append_cloud_def max_def)
  then have "lib_time L d = Max (insert (lib_time L (pc_stamp out)) (insert (lib_time L (pc_stamp c)) ?T))"
    using d(2) by (cases "?T = {}") (simp_all add: max.assoc)
  moreover have "m\<lparr>pc_data := pc_data m @ concat (map pc_data cs), pc_is_dense := (pc_is_dense m \<and> list_all pc_is_dense cs),
      pc_stamp := d\<rparr> = out\<lparr>pc_data := pc_data out @ concat (map pc_data (c # cs)),
      pc_is_dense := (pc_is_dense out \<and> list_all pc_is_dense (c # cs)), pc_stamp := d\<rparr>"
    by (simp add: m_def append_cloud_def)
  moreover have "fold (append_cloud L) (c # cs) out = fold (append_cloud L) cs m" by (simp add: m_def)
  ultimately show ?case using d(1) by (intro exI [of _ d]) (simp only: list.set image_insert)
qed

lemma le32_append_left: "b + 4 \<le> length d1 \<Longrightarrow> le32 (d1 @ d2) b = le32 d1 b"
  by (rule le32_cong; simp only: nth_append; simp)

lemma le16_append_left: "b + 2 \<le> length d1 \<Longrightarrow> le16 (d1 @ d2) b = le16 d1 b"
  by (rule le16_cong; simp only: nth_append; simp)

lemma le_append_right:
  "le32 (d1 @ d2) (length d1 + b) = le32 d2 b" "le16 (d1 @ d2) (length d1 + b) = le16 d2 b"
  by (simp_all only: le32_def le16_def add.assoc nth_append_right)

lemma point_view_left:
  assumes "layout_ok o1 step" and "base + step \<le> length d1"
  shows "point_view o1 (d1 @ d2) base = point_view o1 d1 base"
  by (rule point_view_cong [OF assms(1)]) (use assms(2) in \<open>simp add: nth_append\<close>)

lemma point_view_right: "point_view o1 (d1 @ d2) (length d1 + base) = point_view o1 d2 base"
  by (simp add: point_view_def add.assoc le_append_right)

lemma data_view_append:
  assumes "layout_ok o1 step" and "length d1 = n1 * step"
  shows "data_view o1 step (n1 + n2) (d1 @ d2) = data_view o1 step n1 d1 @ data_view o1 step n2 d2"
proof -
  have "[0..<n1 + n2] = [0..<n1] @ map (\<lambda>i. i + n1) [0..<n2]"
  proof -
    have "map (\<lambda>i. i + n1) [0..<n2] = [n1..<n1 + n2]" by (subst map_add_upt) (rule arg_cong [OF add.commute])
    then show ?thesis using upt_add_eq_append [of 0 n1 n2] by simp
  qed
  moreover have "point_view o1 (d1 @ d2) (i * step) = point_view o1 d1 (i * step)" if "i < n1" for i
  proof (rule point_view_left [OF assms(1)])
    have "Suc i * step \<le> n1 * step" using that by (intro mult_le_mono1) simp
    then show "i * step + step \<le> length d1" using assms(2) by simp
  qed
  moreover have "point_view o1 (d1 @ d2) ((i + n1) * step) = point_view o1 d2 (i * step)" for i
    using point_view_right [of o1 d1 d2 "i * step"] assms(2) by (simp add: add_mult_distrib add.commute)
  ultimately show ?thesis by (simp add: data_view_def)
qed

lemma data_view_concat:
  assumes "layout_ok o1 step" and "\<forall>c\<in>set cs. length (pc_data c) = point_count c * step"
  shows "data_view o1 step (sum_list (map point_count cs)) (concat (map pc_data cs)) =
    concat (map (\<lambda>c. data_view o1 step (point_count c) (pc_data c)) cs)"
  using assms(2)
proof (induction cs)
  case (Cons c cs)
  then show ?case using data_view_append [OF assms(1), of "pc_data c" "point_count c"] by simp
qed (simp add: data_view_def)

lemma build_combined_view:
  assumes ok: "list_all cloud_ok cs" and same: "list_all (same_layout (hd cs)) cs" and ne: "cs \<noteq> []"
    and pts: "0 < sum_list (map point_count cs)" "sum_list (map point_count cs) < 2 ^ 32"
  obtains out where "build_combined_cloud L frame cs = Some out" "pc_frame_id out = frame"
    "cloud_view out = concat (map cloud_view cs)" "unat (pc_width out) = sum_list (map point_count cs)" "pc_height out = 1"
    "lib_time L (pc_stamp out) = Max ((\<lambda>c. lib_time L (pc_stamp c)) ` set cs)"
proof -
  obtain base cs' where cs: "cs = base # cs'" using ne by (cases cs) auto
  let ?n = "sum_list (map point_count cs)" and ?step = "unat (pc_point_step base)"
  obtain o1 where o1: "find_offsets base = Some o1" "layout_ok o1 ?step"
    using ok by (auto simp: cs cloud_ok_def split: option.splits)
  have lay: "pc_point_step c = pc_point_step base \<and> find_offsets c = Some o1" if "c \<in> set cs" for c
    using same that o1(1) find_offsets_fields [of c base] by (auto simp: cs same_layout_def list_all_iff)
  then have dl: "\<forall>c\<in>set cs. length (pc_data c) = point_count c * ?step"
    using ok by (auto simp: list_all_iff cloud_ok_def split: option.splits)
  have used: "filter (same_layout base) cs = cs" using same by (simp add: cs list_all_iff)
  define out0 where "out0 = \<lparr>pc_stamp = pc_stamp base, pc_frame_id = frame, pc_height = 1, pc_width = of_nat ?n,
    pc_fields = pc_fields base, pc_is_bigendian = pc_is_bigendian base, pc_point_step = pc_point_step base,
    pc_row_step = pc_point_step base * of_nat ?n, pc_data = [], pc_is_dense = True\<rparr>"
  obtain d where d: "fold (append_cloud L) cs out0 = out0\<lparr>pc_data := pc_data out0 @ concat (map pc_data cs),
      pc_is_dense := (pc_is_dense out0 \<and> list_all pc_is_dense cs), pc_stamp := d\<rparr>"
    "lib_time L d = Max (insert (lib_time L (pc_stamp out0)) ((\<lambda>c. lib_time L (pc_stamp c)) ` set cs))"
    using fold_append_cloud by blast
  define out where "out = fold (append_cloud L) cs out0"
  note out = d(1) [folded out_def]
  have w: "unat (pc_width out) = ?n" using pts(2) by (simp add: out out0_def unat_of_nat)
  have "length (concat (map pc_data cs)) = ?n * ?step"
    using dl by (induction cs) (simp_all add: add_mult_distrib)
  moreover have "0 < ?n * ?step" using pts(1) o1(2) by (simp add: layout_ok_def)
  ultimately have "concat (map pc_data cs) \<noteq> []" by (metis length_greater_0_conv)
  then have data: "pc_data out \<noteq> []" by (simp add: out out0_def)
  have nz: "?n \<noteq> 0" using pts(1) by linarith
  have "build_combined_cloud L frame cs = (if ?n = 0 then None else if pc_data out = [] then None else Some out)"
    using used unfolding out_def out0_def build_combined_cloud_def Let_def by (simp only: cs list.case)
  then have built: "build_combined_cloud L frame cs = Some out" by (simp only: nz data if_False)
  have view: "cloud_view c = data_view o1 ?step (point_count c) (pc_data c)" if "c \<in> set cs" for c
    using lay [OF that] by (simp add: cloud_view_def)
  have "find_offsets out = Some o1" using o1(1) by (simp add: out out0_def find_offsets_def)
  then have "cloud_view out = data_view o1 ?step ?n (concat (map pc_data cs))"
    using w by (simp add: cloud_view_def point_count_def out out0_def)
  also have "\<dots> = concat (map cloud_view cs)"
    using data_view_concat [OF o1(2) dl] view by (simp cong: map_cong)
  finally have v: "cloud_view out = concat (map cloud_view cs)" .
  have "lib_time L (pc_stamp out) = Max ((\<lambda>c. lib_time L (pc_stamp c)) ` set cs)"
    using d(2) by (simp add: out out0_def cs)
  then show thesis using that built v w by (simp add: out out0_def)
qed

section \<open>The time tolerance\<close>

text \<open>\<open>rclcpp::Duration::seconds()\<close>: the nanoseconds over a billion, in double.\<close>

definition seconds_documented :: "libs \<Rightarrow> bool" where
  "seconds_documented L \<longleftrightarrow>
     (\<forall>n. lib_seconds L n = f_div binary64 (f_of_int binary64 n) (f_of_int binary64 1000000000))"

lemma range64:
  assumes "2 powi (- 60) \<le> q" and "q \<le> 2 powi 60"
  shows "2 powi (f_emin binary64 + int (f_prec binary64) - 1) \<le> (q::real)"
    and "q < 2 powi (f_emax binary64 + int (f_prec binary64) - 1)"
proof -
  have "(2::real) powi (f_emin binary64 + int (f_prec binary64) - 1) \<le> 2 powi (- 60)"
    by (rule power_int_increasing) simp_all
  then show "2 powi (f_emin binary64 + int (f_prec binary64) - 1) \<le> q" using assms(1) by linarith
  have "(2::real) powi 60 < 2 powi (f_emax binary64 + int (f_prec binary64) - 1)"
    by (rule power_int_strict_increasing) simp_all
  then show "q < 2 powi (f_emax binary64 + int (f_prec binary64) - 1)" using assms(2) by linarith
qed

definition age_ms :: "int \<Rightarrow> ieee" where
  "age_ms d = f_mul binary64 (f_div binary64 (f_of_int binary64 d) (f_of_int binary64 1000000000)) (f_of_int binary64 1000)"

lemma age_ms_error:
  assumes d: "0 < d" "d < 2 ^ 53"
  shows "\<exists>m e. age_ms d = F_Fin False m e \<and>
    \<bar>real_of_int m * 2 powi e - d / 1000000\<bar> \<le> d / 1000000 * (3 / 2 ^ 53)"
proof -
  obtain m e where me: "f_of_int binary64 d = F_Fin False m e" "0 \<le> m" "real_of_int m * 2 powi e = real_of_int d"
    using f_of_int_exact64 [of d] d by auto
  obtain k g where kg: "f_of_int binary64 1000000000 = F_Fin False k g" "0 \<le> k" "real_of_int k * 2 powi g = 1000000000"
    using f_of_int_exact64 [of 1000000000] by auto
  obtain h i where hi: "f_of_int binary64 1000 = F_Fin False h i" "0 \<le> h" "real_of_int h * 2 powi i = 1000"
    using f_of_int_exact64 [of 1000] by auto
  have pos: "0 < m" "0 < k" "0 < h"
    using me kg hi d by (auto simp: less_le)
  define q where "q = real_of_int d / 1000000000"
  have "1 \<le> real_of_int d" using d(1) by linarith
  moreover have "real_of_int d \<le> real_of_int (2 ^ 53)" using d(2) by (simp only: of_int_le_iff)
  ultimately have qb: "1 / 1000000000 \<le> q" "q \<le> 2 ^ 53 / 1000000000" by (simp_all add: q_def)
  have two: "(2::real) powi (- 60) = 1 / 2 ^ 60" "(2::real) powi 60 = 2 ^ 60" "(2::real) powi (- 53) = 1 / 2 ^ 53"
    by (simp_all add: power_int_def power_one_over)
  have q1: "2 powi (- 60) \<le> q" "q \<le> 2 powi 60" unfolding two using qb by simp_all
  have qq: "q = (real_of_int m * 2 powi e) / (real_of_int k * 2 powi g)" using me kg by (simp add: q_def)
  obtain m1 e1 where 1: "f_div binary64 (F_Fin False m e) (F_Fin False k g) = F_Fin False m1 e1" "2 ^ 52 \<le> m1"
      "\<bar>real_of_int m1 * 2 powi e1 - q\<bar> \<le> q * 2 powi (- 53)"
    using f_div_rel [OF pos(1,2) _ _ qq range64 [OF q1], of False False] by auto
  define v where "v = real_of_int m1 * 2 powi e1"
  have v: "q - q / 2 ^ 53 \<le> v" "v \<le> q + q / 2 ^ 53" using 1(3) unfolding two v_def abs_le_iff by (simp_all add: field_simps)
  have vb: "2 powi (- 60) \<le> v * 1000" "v * 1000 \<le> 2 powi 60" unfolding two using v qb by simp_all
  have m1: "0 < m1" using 1(2) by simp
  have vv: "v * 1000 = (real_of_int m1 * 2 powi e1) * (real_of_int h * 2 powi i)" unfolding v_def hi(3) ..
  obtain m2 e2 where 2: "f_mul binary64 (F_Fin False m1 e1) (F_Fin False h i) = F_Fin False m2 e2"
      "\<bar>real_of_int m2 * 2 powi e2 - v * 1000\<bar> \<le> v * 1000 * 2 powi (- 53)"
    using f_mul_rel [OF m1 pos(3) _ _ vv range64 [OF vb], of False False] by auto
  have "real_of_int d / 1000000 = q * 1000" by (simp add: q_def)
  moreover have "\<bar>real_of_int m2 * 2 powi e2 - q * 1000\<bar> \<le> q * 1000 * (3 / 2 ^ 53)"
    using 2(2) v qb(1) unfolding two abs_le_iff by simp
  ultimately have "\<bar>real_of_int m2 * 2 powi e2 - d / 1000000\<bar> \<le> d / 1000000 * (3 / 2 ^ 53)" by (simp only:)
  then show ?thesis using 1(1) 2(1) me(1) kg(1) hi(1) by (intro exI [of _ m2] exI [of _ e2]) (simp only: age_ms_def simp_thms)
qed

lemma age_ms_zero: "\<not> f_less (f_of_int binary64 25) (age_ms 0)" "\<not> f_less (f_of_int binary64 10) (age_ms 0)"
  by code_simp+

lemma age_ms_limit: "\<not> f_less (f_of_int binary64 25) (age_ms 25000000)" "\<not> f_less (f_of_int binary64 10) (age_ms 10000000)"
  by code_simp+

lemma age_ms_exact:
  assumes d: "0 \<le> d" "d < 2 ^ 53" and tol: "tol = 25 \<or> tol = 10"
  shows "f_less (f_of_int binary64 tol) (age_ms d) \<longleftrightarrow> tol * 1000000 < d"
proof (cases "d = 0 \<or> d = tol * 1000000")
  case True
  then show ?thesis using tol age_ms_zero age_ms_limit by auto
next
  case False
  then obtain m e where me: "age_ms d = F_Fin False m e"
      "\<bar>real_of_int m * 2 powi e - d / 1000000\<bar> \<le> d / 1000000 * (3 / 2 ^ 53)"
    using age_ms_error [of d] d by auto
  obtain k g where kg: "f_of_int binary64 tol = F_Fin False k g" "real_of_int k * 2 powi g = real_of_int tol"
    using f_of_int_exact64 [of tol] tol by auto
  have less: "f_less (f_of_int binary64 tol) (age_ms d) \<longleftrightarrow> real_of_int tol < real_of_int m * 2 powi e"
    unfolding me(1) kg(1) f_less_val using kg(2) by simp
  have t: "tol = 25 \<or> tol = 10" "real_of_int tol = 25 \<or> real_of_int tol = 10" using tol by auto
  show ?thesis
  proof (cases "tol * 1000000 < d")
    case True
    then have "real_of_int tol * 1000000 + 1 \<le> real_of_int d" by linarith
    then have "real_of_int tol < real_of_int m * 2 powi e" using me(2) t(2) unfolding abs_le_iff by auto
    then show ?thesis using True less by blast
  next
    case F: False
    then have "real_of_int d \<le> real_of_int tol * 1000000 - 1" "0 \<le> real_of_int d" using False d by linarith+
    then have "\<not> real_of_int tol < real_of_int m * 2 powi e" using me(2) t(2) unfolding abs_le_iff by auto
    then show ?thesis using F less by blast
  qed
qed

lemma newest_of_Max: "ts \<noteq> [] \<Longrightarrow> newest_of ts = Max (set ts)"
proof -
  have step: "foldl (\<lambda>newest t. if newest < t then t else newest) a ts = Max (insert a (set ts))" for a :: rtime and ts
  proof (induction ts arbitrary: a)
    case (Cons t ts)
    have "(if a < t then t else a) = max a t" by (auto simp: max_def)
    then show ?case using Cons.IH by (cases "ts = []") (simp_all add: max.assoc)
  qed simp
  show "ts \<noteq> [] \<Longrightarrow> newest_of ts = Max (set ts)"
    unfolding newest_of_def step by (simp add: insert_absorb)
qed

text \<open>
  Both handlers wait for their inputs in the same way. Over the time stamps of the messages, the
  test in \<open>double\<close> is the test that no two of them are further apart than the tolerance.
\<close>

locale sync_gate =
  fixes in_sync :: "libs \<Rightarrow> 'm list \<Rightarrow> bool" and stamp_of :: "'m \<Rightarrow> stamp" and tolerance :: int
  assumes gate: "in_sync L ms \<longleftrightarrow>
      (\<forall>m\<in>set ms. \<not> too_old L tolerance (newest_of (map (\<lambda>m. lib_time L (stamp_of m)) ms)) (lib_time L (stamp_of m)))"
    and tolerance_ms: "tolerance = 25 \<or> tolerance = 10"
begin

definition ns :: "libs \<Rightarrow> 'm \<Rightarrow> int" where
  "ns L m = ns_of (lib_time L (stamp_of m))"

lemma in_sync_iff:
  assumes "ms \<noteq> []" and doc: "seconds_documented L"
    and span: "\<forall>a\<in>set ms. \<forall>b\<in>set ms. ns_of (lib_time L (stamp_of a)) - ns_of (lib_time L (stamp_of b)) < 2 ^ 53"
  shows "in_sync L ms \<longleftrightarrow> (\<forall>a\<in>set ms. \<forall>b\<in>set ms.
      ns_of (lib_time L (stamp_of a)) - ns_of (lib_time L (stamp_of b)) \<le> tolerance * 1000000)"
proof -
  let ?ts = "map (\<lambda>m. lib_time L (stamp_of m)) ms"
  have "newest_of ?ts \<in> set ?ts" using assms(1) newest_of_Max [of ?ts] Max_in [of "set ?ts"] by simp
  then obtain n where n: "n \<in> set ms" "newest_of ?ts = lib_time L (stamp_of n)" by auto
  have top: "ns L m \<le> ns L n" if "m \<in> set ms" for m
  proof -
    have "lib_time L (stamp_of m) \<le> newest_of ?ts"
      using assms(1) that by (simp add: newest_of_Max)
    then show ?thesis by (simp add: n(2) less_eq_rtime_def ns_def)
  qed
  have old: "too_old L tolerance (newest_of ?ts) (lib_time L (stamp_of m)) \<longleftrightarrow> tolerance * 1000000 < ns L n - ns L m"
    if "m \<in> set ms" for m
  proof -
    have "too_old L tolerance (newest_of ?ts) (lib_time L (stamp_of m)) \<longleftrightarrow>
        f_less (f_of_int binary64 tolerance) (age_ms (ns L n - ns L m))"
      using doc by (simp add: too_old_def age_ms_def n(2) seconds_documented_def ns_def)
    also have "\<dots> \<longleftrightarrow> tolerance * 1000000 < ns L n - ns L m"
      using top [OF that] span n(1) that tolerance_ms by (intro age_ms_exact) (auto simp: ns_def)
    finally show ?thesis .
  qed
  have "in_sync L ms \<longleftrightarrow> (\<forall>m\<in>set ms. ns L n - ns L m \<le> tolerance * 1000000)"
    unfolding gate using old by (auto simp: not_less)
  also have "\<dots> \<longleftrightarrow> (\<forall>a\<in>set ms. \<forall>b\<in>set ms. ns L a - ns L b \<le> tolerance * 1000000)"
    using top n(1) by force
  finally show ?thesis by (simp add: ns_def)
qed

end

interpretation cloud_gate: sync_gate clouds_in_sync pc_stamp sync_tolerance_ms
  by unfold_locales (simp_all add: clouds_in_sync_def Let_def list_all_iff sync_tolerance_ms_def)

interpretation imu_gate: sync_gate imus_in_sync im_stamp imu_sync_tolerance_ms
  by unfold_locales (simp_all add: imus_in_sync_def Let_def list_all_iff imu_sync_tolerance_ms_def)

section \<open>Ring numbers\<close>

definition ring_set :: "point list \<Rightarrow> int set" where
  "ring_set v = {uint r | p r. (p, Some r) \<in> set v}"

lemma ring_max_upper: "(p, Some r) \<in> set v \<Longrightarrow> uint r \<le> ring_max v"
  and ring_max_nonneg: "0 \<le> ring_max v"
proof -
  have mono: "m \<le> fold ring_step v m" for m v
  proof (induction v arbitrary: m)
    case (Cons q v)
    have "m \<le> ring_step q m" by (simp add: ring_step_def split: option.split)
    then show ?case using Cons.IH [of "ring_step q m"] by simp
  qed simp
  show "0 \<le> ring_max v" using mono by (simp add: ring_max_def)
  have "uint r \<le> fold ring_step v m" if "(p, Some r) \<in> set v" for m
    using that
  proof (induction v arbitrary: m)
    case (Cons q v)
    show ?case
    proof (cases "q = (p, Some r)")
      case True
      then have "uint r \<le> ring_step q m" by (simp add: ring_step_def)
      then show ?thesis using mono [of "ring_step q m" v] by simp
    next
      case False
      then show ?thesis using Cons by simp
    qed
  qed simp
  then show "(p, Some r) \<in> set v \<Longrightarrow> uint r \<le> ring_max v" by (simp add: ring_max_def)
qed

lemma cloud_view_ring: "(p, Some r) \<in> set (cloud_view c) \<Longrightarrow> has_ring c"
  by (cases "find_offsets c") (auto simp: cloud_view_def data_view_def point_view_def has_ring_def split: if_splits)

lemma next_ring_mono: "ring_offset \<le> next_ring ring_offset c"
  using ring_max_nonneg [of "cloud_view c"] by (simp add: next_ring_def)

lemma foldl_next_ring_mono: "ring_offset \<le> foldl next_ring ring_offset cs"
proof (induction cs arbitrary: ring_offset)
  case (Cons c cs)
  then show ?case using next_ring_mono [of ring_offset c] order_trans by fastforce
qed simp

lemma shifted_rings:
  assumes "q \<in> ring_set (map (transform_view L t ring_offset) (cloud_view c))"
    and "0 \<le> ring_offset" and "next_ring ring_offset c \<le> 65536"
  shows "ring_offset \<le> q \<and> q < next_ring ring_offset c"
proof -
  obtain p' r' where "(p', Some r') \<in> transform_view L t ring_offset ` set (cloud_view c)" and q: "q = uint r'"
    using assms(1) unfolding ring_set_def list.set_map by blast
  then obtain x where x: "x \<in> set (cloud_view c)" "transform_view L t ring_offset x = (p', Some r')"
    by (metis imageE)
  obtain p r where r: "(p, Some r) \<in> set (cloud_view c)" and "r' = word_of_int (uint r + ring_offset)"
    using x by (cases x; cases "snd x") (auto simp: transform_view_def split: prod.splits)
  then have r2: "q = uint (word_of_int (uint r + ring_offset) :: u16)" using q by simp
  have n: "next_ring ring_offset c = ring_offset + (ring_max (cloud_view c) + 1)"
    using cloud_view_ring [OF r] by (simp add: next_ring_def)
  have u: "uint r \<le> ring_max (cloud_view c)" "0 \<le> uint r" using ring_max_upper [OF r] by simp_all
  then have "0 \<le> uint r + ring_offset" "uint r + ring_offset < 2 ^ 16" using n assms(2,3) by simp_all
  moreover have "uint (word_of_int k :: u16) = k" if "0 \<le> k" "k < 2 ^ 16" for k
    using that by (simp add: uint_word_of_int take_bit_int_eq_self)
  ultimately have "q = uint r + ring_offset" unfolding r2 by blast
  then show ?thesis using n u by simp
qed

lemma ring_range:
  assumes "v \<in> set (combined_views L ts cs ring_offset)" and "q \<in> ring_set v"
    and "0 \<le> ring_offset" and "foldl next_ring ring_offset cs \<le> 65536"
  shows "ring_offset \<le> q \<and> q < foldl next_ring ring_offset cs"
  using assms
proof (induction L ts cs ring_offset rule: combined_views.induct)
  case (1 L t ts c cs ring_offset)
  note m = next_ring_mono [of ring_offset c] foldl_next_ring_mono [of "next_ring ring_offset c" cs]
  show ?case
  proof (cases "v \<in> set (combined_views L ts cs (next_ring ring_offset c))")
    case True
    then have "next_ring ring_offset c \<le> q \<and> q < foldl next_ring (next_ring ring_offset c) cs"
      using "1" m(1) by simp
    then show ?thesis using m by simp
  next
    case False
    then have "v = map (transform_view L t ring_offset) (cloud_view c)" using "1.prems"(1) by simp
    then show ?thesis
      using shifted_rings [of q L t ring_offset c] "1.prems" m by simp
  qed
qed simp_all

lemma combined_views_rings:
  assumes "0 \<le> ring_offset" and "foldl next_ring ring_offset cs \<le> 65536"
  shows "sorted_wrt (\<lambda>v w. \<forall>q\<in>ring_set v. \<forall>r\<in>ring_set w. q < r) (combined_views L ts cs ring_offset)"
  using assms
proof (induction L ts cs ring_offset rule: combined_views.induct)
  case (1 L t ts c cs ring_offset)
  have m: "ring_offset \<le> next_ring ring_offset c" "next_ring ring_offset c \<le> 65536"
    using next_ring_mono [of ring_offset c] foldl_next_ring_mono [of "next_ring ring_offset c" cs] "1.prems" by auto
  have "q < r" if "w \<in> set (combined_views L ts cs (next_ring ring_offset c))" "r \<in> ring_set w"
    "q \<in> ring_set (map (transform_view L t ring_offset) (cloud_view c))" for w q r
    using shifted_rings [OF that(3) "1.prems"(1) m(2)] ring_range [OF that(1,2)] "1.prems" m(1) by simp
  then show ?case using "1" m(1) by simp
qed simp_all

section \<open>What is published\<close>

text \<open>C31: The two synchronisation tests of the combiner, made in \<open>double\<close> on the age of each message
  against the newest one, decide exactly whether all time stamps lie within 25 ms (clouds) or
  10 ms (IMU messages) of each other, to the nanosecond, in whatever order the messages are kept.
\<close>

theorem sync_window_exact:
  assumes "seconds_documented L" and "cs \<noteq> []" and "ms \<noteq> []"
    and "\<forall>a\<in>set cs. \<forall>b\<in>set cs. ns_of (lib_time L (pc_stamp a)) - ns_of (lib_time L (pc_stamp b)) < 2 ^ 53"
    and "\<forall>a\<in>set ms. \<forall>b\<in>set ms. ns_of (lib_time L (im_stamp a)) - ns_of (lib_time L (im_stamp b)) < 2 ^ 53"
  shows "(clouds_in_sync L cs \<longleftrightarrow> (\<forall>a\<in>set cs. \<forall>b\<in>set cs.
       ns_of (lib_time L (pc_stamp a)) - ns_of (lib_time L (pc_stamp b)) \<le> 25000000)) \<and>
    (imus_in_sync L ms \<longleftrightarrow> (\<forall>a\<in>set ms. \<forall>b\<in>set ms.
       ns_of (lib_time L (im_stamp a)) - ns_of (lib_time L (im_stamp b)) \<le> 10000000))"
  using cloud_gate.in_sync_iff [OF assms(2,1,4)] imu_gate.in_sync_iff [OF assms(3,1,5)]
  by (simp add: sync_tolerance_ms_def imu_sync_tolerance_ms_def)


text \<open>C32: As long as the ring numbers of all inputs together fit in 16 bits, no ring number of the
  transformed cloud of one input is used in the cloud of another: they are in the order of the inputs.
\<close>

theorem combined_rings_disjoint:
  assumes ok: "list_all cloud_ok cs" and tr: "length ts = length cs"
      "\<And>k. k < length cs \<Longrightarrow> transform_for L tf s k (cs ! k) = Some (ts ! k)"
    and fit: "foldl next_ring 0 cs \<le> 65536"
  shows "\<exists>outs s1. transform_all L tf 0 cs 0 s = Some (Some outs, s1) \<and> length outs = length cs \<and>
    sorted_wrt (\<lambda>c d. \<forall>q\<in>ring_set (cloud_view c). \<forall>r\<in>ring_set (cloud_view d). q < r) outs"
proof -
  obtain outs s1 where all: "transform_all L tf 0 cs 0 s = Some (Some outs, s1)"
      "map cloud_view outs = combined_views L ts cs 0" "list_all2 (reframed (target_frame s)) cs outs"
    using transform_all_views [OF ok tr(1), of L tf s 0 0] tr(2) by auto
  have "sorted_wrt (\<lambda>v w. \<forall>q\<in>ring_set v. \<forall>r\<in>ring_set w. q < r) (map cloud_view outs)"
    unfolding all(2) by (rule combined_views_rings) (use fit in simp_all)
  then show ?thesis using all(1) list_all2_lengthD [OF all(3)] by (auto simp: sorted_wrt_map)
qed


section \<open>Two inputs\<close>

definition example_libs :: libs where
  "example_libs = \<lparr>lib_time = (\<lambda>t. Rtime (st_sec t * 1000000000 + uint (st_nanosec t))),
     lib_seconds = (\<lambda>n. f_div binary64 (f_of_int binary64 n) (f_of_int binary64 1000000000)),
     lib_matrix = (\<lambda>_. ((f_zero, f_zero, f_zero), (f_zero, f_zero, f_zero), (f_zero, f_zero, f_zero))),
     lib_mat_vec = (\<lambda>m v. v)\<rparr>"

definition example_fields :: "point_field list" where
  "example_fields =
     [\<lparr>pf_name = ''x'', pf_offset = 0, pf_datatype = 7, pf_count = 1\<rparr>,
      \<lparr>pf_name = ''y'', pf_offset = 4, pf_datatype = 7, pf_count = 1\<rparr>,
      \<lparr>pf_name = ''z'', pf_offset = 8, pf_datatype = 7, pf_count = 1\<rparr>,
      \<lparr>pf_name = ''ring'', pf_offset = 12, pf_datatype = 4, pf_count = 1\<rparr>]"

definition example_cloud :: "u32 \<Rightarrow> u16 \<Rightarrow> point_cloud2" where
  "example_cloud nanosec ring =
     \<lparr>pc_stamp = \<lparr>st_sec = 1, st_nanosec = nanosec\<rparr>, pc_frame_id = ''asdt1_optical'', pc_height = 1, pc_width = 1,
      pc_fields = example_fields, pc_is_bigendian = False, pc_point_step = 14, pc_row_step = 14,
      pc_data = u32_bytes 0x3F800000 @ u32_bytes 0 @ u32_bytes 0x40000000 @ u16_bytes ring, pc_is_dense = False\<rparr>"

definition example_tf :: tf_lookup where
  "example_tf i target frame t = Some \<lparr>tm_translation = (f_of_int binary64 (int i), f_zero, f_zero),
     tm_rotation = (f_zero, f_zero, f_zero, f_of_int binary64 1)\<rparr>"

definition example_clouds :: "point_cloud2 list" where
  "example_clouds = [example_cloud 0 23, example_cloud 25000000 5]"

definition example_combiner :: combiner where
  "example_combiner = (new_combiner [''a'', ''b''] [''i'', ''j''] ''base_link'')
     \<lparr>latest_clouds := map Some example_clouds\<rparr>"

definition example_transforms :: "target_transform list" where
  "example_transforms = map (\<lambda>i. \<lparr>tt_rotation = lib_matrix example_libs (f_zero, f_zero, f_zero, f_of_int binary64 1),
     tt_translation = (f_of_int binary64 (int i), f_zero, f_zero)\<rparr>) [0, 1]"

definition example_imu :: "u32 \<Rightarrow> imu_msg" where
  "example_imu nanosec =
     \<lparr>im_stamp = \<lparr>st_sec = 1, st_nanosec = nanosec\<rparr>, im_frame_id = ''asdt1_optical'',
      im_orientation = (f_zero, f_zero, f_zero, f_zero), im_orientation_covariance = replicate 9 f_zero,
      im_angular_velocity = (f_of_int binary64 1, f_zero, f_zero), im_angular_velocity_covariance = replicate 9 f_zero,
      im_linear_acceleration = (f_zero, f_zero, f_of_int binary64 9), im_linear_acceleration_covariance = replicate 9 f_zero\<rparr>"

lemma example_documented: "seconds_documented example_libs"
  by (simp add: seconds_documented_def example_libs_def)

lemma example_transform_for:
  assumes "k < length example_clouds"
  shows "transform_for example_libs example_tf example_combiner k (example_clouds ! k) = Some (example_transforms ! k)"
proof -
  have "k = 0 \<or> k = 1" using assms by (auto simp: example_clouds_def)
  then show ?thesis
    by (elim disjE)
      (simp_all add: transform_for_def get_transform_to_target_frame_def cached_transform_def example_combiner_def
        new_combiner_def example_tf_def example_transforms_def example_libs_def Let_def)
qed

lemma example_clouds_ok: "list_all cloud_ok example_clouds"
  by code_simp

lemma example_clouds_layout: "list_all (same_layout (hd example_clouds)) example_clouds"
  by (simp add: example_clouds_def example_cloud_def same_layout_def)

lemma example_points: "sum_list (map point_count example_clouds) = 2"
  by (simp add: example_clouds_def example_cloud_def point_count_def)

lemma sync_window_exact_witness:
  "clouds_in_sync example_libs example_clouds \<and>
   \<not> clouds_in_sync example_libs [example_cloud 0 0, example_cloud 25000001 0] \<and>
   imus_in_sync example_libs [example_imu 0, example_imu 10000000]"
  using sync_window_exact [OF example_documented, of example_clouds "[example_imu 0, example_imu 10000000]"]
    sync_window_exact [OF example_documented, of "[example_cloud 0 0, example_cloud 25000001 0]" "[example_imu 0]"]
  by (simp add: example_clouds_def example_cloud_def example_imu_def example_libs_def)

lemma example_clouds_sync: "clouds_in_sync example_libs example_clouds"
  by code_simp


lemma combined_rings_disjoint_witness:
  "foldl next_ring 0 example_clouds = 30 \<and>
   (\<exists>outs s1. transform_all example_libs example_tf 0 example_clouds 0 example_combiner = Some (Some outs, s1) \<and>
     length outs = 2 \<and> sorted_wrt (\<lambda>c d. \<forall>q\<in>ring_set (cloud_view c). \<forall>r\<in>ring_set (cloud_view d). q < r) outs)"
proof -
  have fit: "foldl next_ring 0 example_clouds = 30" by code_simp
  have "length example_transforms = length example_clouds" "length example_clouds = 2"
    by (simp_all add: example_clouds_def example_transforms_def)
  then show ?thesis
    using combined_rings_disjoint [OF example_clouds_ok _ example_transform_for] fit by auto
qed


end
