(* ===== verification/Calibration.thy ===== *)
theory Calibration
  imports Ros_Msgs
begin

text \<open>
  The calibration file (\<open>calibration_parser.cpp\<close>): the parser is created once, with the first
  file it is given, and keeps the camera entries that are complete. The YAML library is a
  parameter: what its nodes answer. A node of a document is of any type.
\<close>

section \<open>YAML nodes\<close>

text \<open>
  \<open>y_get\<close> is \<open>node[key]\<close>: it throws on a scalar, and answers \<open>None\<close> for an undefined node.
  \<open>y_items\<close> are the items of a sequence, \<open>None\<close> for any other node. \<open>y_string\<close> and \<open>y_float\<close>
  are \<open>as<std::string>()\<close> and \<open>as<float>()\<close>, which throw when the node does not convert.
\<close>

record 'n yaml =
  y_get :: "'n \<Rightarrow> string \<Rightarrow> exn + 'n option"
  y_items :: "'n \<Rightarrow> 'n list option"
  y_string :: "'n \<Rightarrow> exn + string"
  y_float :: "'n \<Rightarrow> exn + ieee"

section \<open>One entry\<close>

record camera_calibration =
  cc_hw_id :: string
  cc_description :: string
  cc_frame_id :: string
  cc_parent_frame_id :: string
  cc_rotation :: "ieee list list"
  cc_translation :: "ieee list"

definition f32_one :: ieee where "f32_one = f_of_int binary32 1"
definition f32_zero :: ieee where "f32_zero = f_of_int binary32 0"

text \<open>The extrinsic matrix starts as the identity; its rotation and translation are kept.\<close>

definition default_calibration :: camera_calibration where
  "default_calibration =
     \<lparr>cc_hw_id = [], cc_description = [], cc_frame_id = [], cc_parent_frame_id = [],
      cc_rotation = [[f32_one, f32_zero, f32_zero], [f32_zero, f32_one, f32_zero], [f32_zero, f32_zero, f32_one]],
      cc_translation = [f32_zero, f32_zero, f32_zero]\<rparr>"

definition required :: "'n yaml \<Rightarrow> 'n \<Rightarrow> string \<Rightarrow> exn + 'n" where
  "required y n key =
     try_then (y_get y n key) (\<lambda>r. case r of None \<Rightarrow> Inl Runtime_error | Some m \<Rightarrow> Inr m)"

definition optional_string :: "'n yaml \<Rightarrow> 'n \<Rightarrow> string \<Rightarrow> string \<Rightarrow> exn + string" where
  "optional_string y n key old =
     try_then (y_get y n key) (\<lambda>r. case r of None \<Rightarrow> Inr old | Some m \<Rightarrow> y_string y m)"

fun read_floats :: "'n yaml \<Rightarrow> 'n list \<Rightarrow> exn + ieee list" where
  "read_floats y [] = Inr []"
| "read_floats y (n # ns) = try_then (y_float y n) (\<lambda>x. try_then (read_floats y ns) (\<lambda>xs. Inr (x # xs)))"

text \<open>A sequence of three numbers: a row of the rotation, or the translation.\<close>

definition read_triple :: "'n yaml \<Rightarrow> 'n \<Rightarrow> exn + ieee list" where
  "read_triple y n =
     (case y_items y n of
        None \<Rightarrow> Inl Runtime_error
      | Some is \<Rightarrow> if length is \<noteq> 3 then Inl Runtime_error else read_floats y is)"

fun read_rows :: "'n yaml \<Rightarrow> 'n list \<Rightarrow> exn + ieee list list" where
  "read_rows y [] = Inr []"
| "read_rows y (n # ns) = try_then (read_triple y n) (\<lambda>r. try_then (read_rows y ns) (\<lambda>rs. Inr (r # rs)))"

definition read_rotation :: "'n yaml \<Rightarrow> 'n \<Rightarrow> exn + ieee list list" where
  "read_rotation y n =
     (case y_items y n of
        None \<Rightarrow> Inl Runtime_error
      | Some rows \<Rightarrow> if length rows \<noteq> 3 then Inl Runtime_error else read_rows y rows)"

definition read_camera :: "'n yaml \<Rightarrow> 'n \<Rightarrow> exn + camera_calibration" where
  "read_camera y cam =
     try_then (required y cam ''id'') (\<lambda>id_node.
     try_then (required y cam ''extrinsics'') (\<lambda>ext.
     try_then (required y ext ''rotation_matrix'') (\<lambda>R.
     try_then (required y ext ''translation_vector'') (\<lambda>T.
     try_then (y_string y id_node) (\<lambda>hw.
     try_then (optional_string y cam ''description'' []) (\<lambda>desc.
     try_then (optional_string y cam ''frame_id'' []) (\<lambda>frame0.
     try_then (optional_string y cam ''parent_frame_id'' []) (\<lambda>parent0.
     try_then (optional_string y ext ''frame_id'' frame0) (\<lambda>frame.
     try_then (optional_string y ext ''parent_frame_id'' parent0) (\<lambda>parent.
     try_then (read_rotation y R) (\<lambda>rot.
     try_then (read_triple y T) (\<lambda>tr.
       Inr \<lparr>cc_hw_id = hw, cc_description = desc, cc_frame_id = frame, cc_parent_frame_id = parent,
            cc_rotation = rot, cc_translation = tr\<rparr>))))))))))))"

section \<open>The file\<close>

text \<open>An entry that throws is skipped.\<close>

fun load_cameras :: "'n yaml \<Rightarrow> 'n list \<Rightarrow> camera_calibration list" where
  "load_cameras y [] = []"
| "load_cameras y (n # ns) =
     (case read_camera y n of Inl e \<Rightarrow> load_cameras y ns | Inr c \<Rightarrow> c # load_cameras y ns)"

text \<open>
  What a file name leads to: no file, a file that does not parse, or the root of its document.
\<close>

datatype 'n document = No_file | Not_yaml | Document 'n

definition load :: "'n yaml \<Rightarrow> 'n document \<Rightarrow> exn + camera_calibration list" where
  "load y d =
     (case d of
        No_file \<Rightarrow> Inr []
      | Not_yaml \<Rightarrow> Inr []
      | Document doc \<Rightarrow>
          try_then (y_get y doc ''cameras'') (\<lambda>r.
            case r of
              None \<Rightarrow> Inr []
            | Some cams \<Rightarrow> (case y_items y cams of None \<Rightarrow> Inr [] | Some ns \<Rightarrow> Inr (load_cameras y ns))))"

section \<open>The parser object\<close>

record parser =
  cp_filename :: string
  cp_cameras :: "camera_calibration list"

text \<open>The single instance; \<open>files\<close> are the documents behind the file names.\<close>

definition init :: "'n yaml \<Rightarrow> (string \<Rightarrow> 'n document) \<Rightarrow> string \<Rightarrow> parser option \<Rightarrow> (unit, parser option) outcome" where
  "init y files file inst =
     (case inst of
        Some p \<Rightarrow> Ret () (Some p)
      | None \<Rightarrow>
          (case load y (files file) of
             Inl e \<Rightarrow> Throw e None
           | Inr cs \<Rightarrow> Ret () (Some \<lparr>cp_filename = file, cp_cameras = cs\<rparr>)))"

definition get_instance :: "parser option \<Rightarrow> exn + parser" where
  "get_instance inst = (case inst of None \<Rightarrow> Inl Runtime_error | Some p \<Rightarrow> Inr p)"

fun get_calibration :: "string \<Rightarrow> camera_calibration list \<Rightarrow> camera_calibration option" where
  "get_calibration hw [] = None"
| "get_calibration hw (c # cs) = (if cc_hw_id c = hw then Some c else get_calibration hw cs)"

fun get_description :: "string \<Rightarrow> camera_calibration list \<Rightarrow> string" where
  "get_description hw [] = []"
| "get_description hw (c # cs) = (if cc_hw_id c = hw then cc_description c else get_description hw cs)"

definition have_calibration :: "parser \<Rightarrow> bool" where
  "have_calibration p \<longleftrightarrow> cp_cameras p \<noteq> []"

definition get_nbr_cameras :: "parser \<Rightarrow> nat" where
  "get_nbr_cameras p = length (cp_cameras p)"

section \<open>When reading succeeds\<close>

lemma required_Inr [throw_simps]: "required y n key = Inr m \<longleftrightarrow> y_get y n key = Inr (Some m)"
  by (auto simp: required_def throw_simps split: option.splits)

lemma read_floats_length: "read_floats y ns = Inr xs \<Longrightarrow> length xs = length ns"
  by (induction ns arbitrary: xs) (auto simp: throw_simps)

lemma read_triple_length: "read_triple y n = Inr xs \<Longrightarrow> length xs = 3"
  by (auto simp: read_triple_def dest: read_floats_length split: option.splits if_splits)

lemma read_rows_shape: "read_rows y ns = Inr rs \<Longrightarrow> length rs = length ns \<and> (\<forall>r\<in>set rs. length r = 3)"
  by (induction ns arbitrary: rs) (auto simp: throw_simps dest: read_triple_length)

definition well_shaped :: "camera_calibration \<Rightarrow> bool" where
  "well_shaped c \<longleftrightarrow>
     length (cc_rotation c) = 3 \<and> list_all (\<lambda>r. length r = 3) (cc_rotation c) \<and> length (cc_translation c) = 3"

lemma read_rotation_shape: "read_rotation y n = Inr rs \<Longrightarrow> length rs = 3 \<and> (\<forall>r\<in>set rs. length r = 3)"
  by (auto simp: read_rotation_def dest: read_rows_shape split: option.splits if_splits)

lemma read_camera_shape: "read_camera y n = Inr c \<Longrightarrow> well_shaped c"
  by (auto simp: read_camera_def throw_simps well_shaped_def list_all_iff
      dest: read_rotation_shape read_triple_length)

lemma load_cameras_set: "c \<in> set (load_cameras y ns) \<longleftrightarrow> (\<exists>n\<in>set ns. read_camera y n = Inr c)"
  by (induction ns) (auto split: sum.splits)

text \<open>The entry a lookup finds: the first complete one with the identifier.\<close>

lemma lookup_load:
  "get_calibration hw (load_cameras y ns) = Some c \<longleftrightarrow>
   (\<exists>us n vs. ns = us @ n # vs \<and> read_camera y n = Inr c \<and> cc_hw_id c = hw \<and>
      (\<forall>u\<in>set us. \<forall>d. read_camera y u = Inr d \<longrightarrow> cc_hw_id d \<noteq> hw))"
proof (induction ns)
  case (Cons m ns)
  show ?case
  proof (cases "\<exists>d. read_camera y m = Inr d \<and> cc_hw_id d = hw")
    case True
    then obtain d where d: "read_camera y m = Inr d" "cc_hw_id d = hw" by blast
    have "(\<exists>us n vs. m # ns = us @ n # vs \<and> read_camera y n = Inr c \<and> cc_hw_id c = hw \<and>
      (\<forall>u\<in>set us. \<forall>d. read_camera y u = Inr d \<longrightarrow> cc_hw_id d \<noteq> hw)) \<longleftrightarrow> c = d"
    proof
      assume "\<exists>us n vs. m # ns = us @ n # vs \<and> read_camera y n = Inr c \<and> cc_hw_id c = hw \<and>
        (\<forall>u\<in>set us. \<forall>d. read_camera y u = Inr d \<longrightarrow> cc_hw_id d \<noteq> hw)"
      then obtain us n vs where u: "m # ns = us @ n # vs" "read_camera y n = Inr c"
        "\<forall>u\<in>set us. \<forall>d. read_camera y u = Inr d \<longrightarrow> cc_hw_id d \<noteq> hw" by blast
      have "us = []" using u d by (cases us) auto
      then show "c = d" using u d by simp
    next
      assume "c = d"
      then show "\<exists>us n vs. m # ns = us @ n # vs \<and> read_camera y n = Inr c \<and> cc_hw_id c = hw \<and>
        (\<forall>u\<in>set us. \<forall>d. read_camera y u = Inr d \<longrightarrow> cc_hw_id d \<noteq> hw)"
        using d by (intro exI [of _ "[]"] exI [of _ m] exI [of _ ns]) simp
    qed
    then show ?thesis using d by auto
  next
    case False
    then have "get_calibration hw (load_cameras y (m # ns)) = get_calibration hw (load_cameras y ns)"
      by (auto split: sum.splits)
    also have "\<dots> = Some c \<longleftrightarrow> (\<exists>us n vs. m # ns = us @ n # vs \<and> read_camera y n = Inr c \<and> cc_hw_id c = hw \<and>
      (\<forall>u\<in>set us. \<forall>d. read_camera y u = Inr d \<longrightarrow> cc_hw_id d \<noteq> hw))"
      unfolding Cons.IH
    proof
      assume "\<exists>us n vs. ns = us @ n # vs \<and> read_camera y n = Inr c \<and> cc_hw_id c = hw \<and>
        (\<forall>u\<in>set us. \<forall>d. read_camera y u = Inr d \<longrightarrow> cc_hw_id d \<noteq> hw)"
      then obtain us n vs where "ns = us @ n # vs" "read_camera y n = Inr c" "cc_hw_id c = hw"
        "\<forall>u\<in>set us. \<forall>d. read_camera y u = Inr d \<longrightarrow> cc_hw_id d \<noteq> hw" by blast
      then show "\<exists>us n vs. m # ns = us @ n # vs \<and> read_camera y n = Inr c \<and> cc_hw_id c = hw \<and>
        (\<forall>u\<in>set us. \<forall>d. read_camera y u = Inr d \<longrightarrow> cc_hw_id d \<noteq> hw)"
        using False by (intro exI [of _ "m # us"] exI [of _ n] exI [of _ vs]) auto
    next
      assume "\<exists>us n vs. m # ns = us @ n # vs \<and> read_camera y n = Inr c \<and> cc_hw_id c = hw \<and>
        (\<forall>u\<in>set us. \<forall>d. read_camera y u = Inr d \<longrightarrow> cc_hw_id d \<noteq> hw)"
      then obtain us n vs where u: "m # ns = us @ n # vs" "read_camera y n = Inr c" "cc_hw_id c = hw"
        "\<forall>u\<in>set us. \<forall>d. read_camera y u = Inr d \<longrightarrow> cc_hw_id d \<noteq> hw" by blast
      then obtain us' where "us = m # us'" using False by (cases us) auto
      then show "\<exists>us n vs. ns = us @ n # vs \<and> read_camera y n = Inr c \<and> cc_hw_id c = hw \<and>
        (\<forall>u\<in>set us. \<forall>d. read_camera y u = Inr d \<longrightarrow> cc_hw_id d \<noteq> hw)" using u by auto
    qed
    finally show ?thesis .
  qed
qed simp

section \<open>Writing a calibration\<close>

text \<open>
  The document a list of calibrations is written as, over the constructors of a YAML library:
  a map, a sequence, a string and a number.
\<close>

record 'n yaml_out =
  o_map :: "(string \<times> 'n) list \<Rightarrow> 'n"
  o_seq :: "'n list \<Rightarrow> 'n"
  o_string :: "string \<Rightarrow> 'n"
  o_float :: "ieee \<Rightarrow> 'n"

text \<open>What is written is read back: the library's own promise.\<close>

definition reads_back :: "'n yaml \<Rightarrow> 'n yaml_out \<Rightarrow> bool" where
  "reads_back y w \<longleftrightarrow>
     (\<forall>kvs key. y_get y (o_map w kvs) key = Inr (map_of kvs key)) \<and>
     (\<forall>ns. y_items y (o_seq w ns) = Some ns) \<and>
     (\<forall>s. y_string y (o_string w s) = Inr s) \<and>
     (\<forall>x. y_float y (o_float w x) = Inr x)"

definition camera_doc :: "'n yaml_out \<Rightarrow> camera_calibration \<Rightarrow> 'n" where
  "camera_doc w c = o_map w
     [(''id'', o_string w (cc_hw_id c)), (''description'', o_string w (cc_description c)),
      (''extrinsics'', o_map w
        [(''frame_id'', o_string w (cc_frame_id c)), (''parent_frame_id'', o_string w (cc_parent_frame_id c)),
         (''rotation_matrix'', o_seq w (map (\<lambda>r. o_seq w (map (o_float w) r)) (cc_rotation c))),
         (''translation_vector'', o_seq w (map (o_float w) (cc_translation c)))])]"

definition calibration_doc :: "'n yaml_out \<Rightarrow> camera_calibration list \<Rightarrow> 'n" where
  "calibration_doc w cs = o_map w [(''cameras'', o_seq w (map (camera_doc w) cs))]"

lemma read_floats_back: "reads_back y w \<Longrightarrow> read_floats y (map (o_float w) xs) = Inr xs"
  by (induction xs) (auto simp: reads_back_def)

lemma read_triple_back: "reads_back y w \<Longrightarrow> length xs = 3 \<Longrightarrow> read_triple y (o_seq w (map (o_float w) xs)) = Inr xs"
  using read_floats_back [of y w xs] by (simp add: read_triple_def reads_back_def)

lemma read_rows_back:
  "reads_back y w \<Longrightarrow> list_all (\<lambda>r. length r = 3) rs \<Longrightarrow>
   read_rows y (map (\<lambda>r. o_seq w (map (o_float w) r)) rs) = Inr rs"
  by (induction rs) (auto simp: read_triple_back)

lemma read_camera_back: "reads_back y w \<Longrightarrow> well_shaped c \<Longrightarrow> read_camera y (camera_doc w c) = Inr c"
  using read_rows_back [of y w "cc_rotation c"] read_triple_back [of y w "cc_translation c"]
  by (simp add: read_camera_def camera_doc_def required_def optional_string_def read_rotation_def
      well_shaped_def reads_back_def)

lemma load_cameras_back:
  "reads_back y w \<Longrightarrow> list_all well_shaped cs \<Longrightarrow> load_cameras y (map (camera_doc w) cs) = cs"
  by (induction cs) (simp_all add: read_camera_back)

section \<open>Properties\<close>

text \<open>C36: A list of calibrations written as a YAML document is read back unchanged, in its order, by the
  first initialisation of the parser.
\<close>

theorem calibration_roundtrip:
  assumes "reads_back y w" and "list_all well_shaped cs" and "files file = Document (calibration_doc w cs)"
  shows "init y files file None = Ret () (Some \<lparr>cp_filename = file, cp_cameras = cs\<rparr>)"
  using assms load_cameras_back [OF assms(1,2)]
  by (simp add: init_def load_def calibration_doc_def reads_back_def)

text \<open>The calibration found for a hardware identifier is that of the first entry of the file
  that is complete and has this identifier: incomplete entries and what they contain do not
  matter, a calibration has a rotation of 3 x 3 and a translation of 3 numbers, and initialising
  the parser again, with any file, changes nothing.
\<close>

theorem calibration_lookup:
  assumes "init y files file None = Ret () (Some p)" and "files file = Document doc"
    and "y_get y doc ''cameras'' = Inr (Some cams)" and "y_items y cams = Some ns"
  shows "(get_calibration hw (cp_cameras p) = Some c \<longleftrightarrow>
      (\<exists>us n vs. ns = us @ n # vs \<and> read_camera y n = Inr c \<and> cc_hw_id c = hw \<and>
        (\<forall>u\<in>set us. \<forall>d. read_camera y u = Inr d \<longrightarrow> cc_hw_id d \<noteq> hw))) \<and>
    list_all well_shaped (cp_cameras p) \<and>
    init y files other (Some p) = Ret () (Some p)"
proof -
  have p: "cp_cameras p = load_cameras y ns"
    using assms by (auto simp: init_def load_def)
  have "list_all well_shaped (cp_cameras p)"
    by (auto simp: p list_all_iff load_cameras_set dest: read_camera_shape)
  then show ?thesis using lookup_load p by (simp add: init_def)
qed

text \<open>A document that is a scalar: the exception of the library leaves the parser uninitialised.\<close>

lemma scalar_document_throws:
  "files file = Document doc \<Longrightarrow> y_get y doc ''cameras'' = Inl e \<Longrightarrow> init y files file None = Throw e None"
  by (simp add: init_def load_def)

section \<open>Trees as documents\<close>

datatype ytree = Y_map "(string \<times> ytree) list" | Y_seq "ytree list" | Y_str string | Y_num ieee

definition tree_yaml :: "ytree yaml" where
  "tree_yaml = \<lparr>
     y_get = (\<lambda>n key. case n of Y_map kvs \<Rightarrow> Inr (map_of kvs key) | Y_seq _ \<Rightarrow> Inr None | _ \<Rightarrow> Inl Yaml_exception),
     y_items = (\<lambda>n. case n of Y_seq ns \<Rightarrow> Some ns | _ \<Rightarrow> None),
     y_string = (\<lambda>n. case n of Y_str s \<Rightarrow> Inr s | _ \<Rightarrow> Inl Yaml_exception),
     y_float = (\<lambda>n. case n of Y_num x \<Rightarrow> Inr x | _ \<Rightarrow> Inl Yaml_exception)\<rparr>"

definition tree_out :: "ytree yaml_out" where
  "tree_out = \<lparr>o_map = Y_map, o_seq = Y_seq, o_string = Y_str, o_float = Y_num\<rparr>"

lemma tree_reads_back: "reads_back tree_yaml tree_out"
  by (simp add: reads_back_def tree_yaml_def tree_out_def)

definition example_calibration :: "string \<Rightarrow> camera_calibration" where
  "example_calibration frame = default_calibration\<lparr>cc_hw_id := ''0001'', cc_frame_id := frame\<rparr>"

lemma example_shaped: "list_all well_shaped [example_calibration ''a'', example_calibration ''b'']"
  by (simp add: well_shaped_def example_calibration_def default_calibration_def)

lemma calibration_roundtrip_witness:
  "init tree_yaml (\<lambda>_. Document (calibration_doc tree_out [example_calibration ''a'', example_calibration ''b''])) ''c.yml'' None =
   Ret () (Some \<lparr>cp_filename = ''c.yml'', cp_cameras = [example_calibration ''a'', example_calibration ''b'']\<rparr>)"
  using calibration_roundtrip [OF tree_reads_back example_shaped,
      of "\<lambda>_. Document (calibration_doc tree_out [example_calibration ''a'', example_calibration ''b''])" "''c.yml''"]
  by simp

text \<open>An entry without extrinsics, then two with the same identifier.\<close>

definition example_entries :: "ytree list" where
  "example_entries = [Y_map [(''id'', Y_str ''0001'')], camera_doc tree_out (example_calibration ''a''),
     camera_doc tree_out (example_calibration ''b'')]"

lemma example_entries_load:
  "load_cameras tree_yaml example_entries = [example_calibration ''a'', example_calibration ''b'']"
proof -
  have "read_camera tree_yaml (Y_map [(''id'', Y_str ''0001'')]) = Inl Runtime_error"
    by (simp add: read_camera_def required_def tree_yaml_def)
  moreover have "well_shaped (example_calibration f)" for f
    by (simp add: well_shaped_def example_calibration_def default_calibration_def)
  ultimately show ?thesis
    using read_camera_back [OF tree_reads_back] by (simp add: example_entries_def)
qed

lemma calibration_lookup_witness:
  "\<exists>us n vs. example_entries = us @ n # vs \<and> read_camera tree_yaml n = Inr (example_calibration ''a'') \<and>
     (\<forall>m\<in>set us. \<forall>d. read_camera tree_yaml m = Inr d \<longrightarrow> cc_hw_id d \<noteq> ''0001'')"
proof -
  let ?files = "\<lambda>_. Document (Y_map [(''cameras'', Y_seq example_entries)])"
  let ?p = "\<lparr>cp_filename = ''c.yml'', cp_cameras = [example_calibration ''a'', example_calibration ''b'']\<rparr>"
  have g: "y_get tree_yaml (Y_map [(''cameras'', Y_seq example_entries)]) ''cameras'' = Inr (Some (Y_seq example_entries))"
    "y_items tree_yaml (Y_seq example_entries) = Some example_entries"
    by (simp_all add: tree_yaml_def)
  then have i: "init tree_yaml ?files ''c.yml'' None = Ret () (Some ?p)"
    using example_entries_load by (simp add: init_def load_def)
  have "get_calibration ''0001'' (cp_cameras ?p) = Some (example_calibration ''a'')"
    by (simp add: example_calibration_def)
  then show ?thesis
    using calibration_lookup [OF i refl g, of "''0001''" "example_calibration ''a''"] by blast
qed

end
