(* ===== verification/Driver_Node.thy ===== *)
theory Driver_Node
  imports Calibration Lifecycle Combiner
begin

text \<open>
  The driver node (\<open>asdt1_driver_node.cpp\<close>, \<open>licenses_info.cpp\<close>): its constructor, the
  callbacks of the device, the change of parameters and the services. What ROS and Eigen
  compute (the clock, the message form of a time, the quaternion of a rotation) and what starting
  and stopping the threads leave of the device are parameters.
\<close>

section \<open>Parameters of the model and state\<close>

record node_libs =
  nl_stamp :: "u64 \<Rightarrow> stamp"
  nl_now :: stamp
  nl_quat :: "ieee list list \<Rightarrow> quat"
  nl_what :: "exn \<Rightarrow> string"

text \<open>What \<open>start\<close> and \<open>stop\<close> leave of the device, threads included.\<close>

record dev_ops =
  do_start :: "dev \<Rightarrow> (unit, dev) outcome"
  do_stop :: "dev \<Rightarrow> (unit, dev) outcome"

record transform_out =
  tf_stamp :: stamp
  tf_parent :: string
  tf_child :: string
  tf_translation :: "ieee list"
  tf_rotation :: quat

record node =
  nd_kind :: device_kind
  nd_dev :: dev
  nd_calibration :: "parser option"
  nd_fields :: "point_field list"
  nd_depth_frame_id :: string
  nd_parent_frame_id :: string
  nd_clouds :: "point_cloud2 list"
  nd_imus :: "imu_msg list"
  nd_transforms :: "transform_out list"

definition color_camera_frame_id :: string where "color_camera_frame_id = ''camera_system_optical''"
definition depth_frame_id :: string where "depth_frame_id = ''asdt1_optical''"

section \<open>Version and licenses\<close>

text \<open>The first match of \<open><version>([^<]+)</version>\<close>; its group has no \<open><\<close> and is not empty.\<close>

definition version_here :: "string \<Rightarrow> string option" where
  "version_here xml =
     (if starts_with xml ''<version>'' then
        let tail = drop 9 xml; v = takeWhile (\<lambda>c. c \<noteq> CHR ''<'') tail
        in if v \<noteq> [] \<and> starts_with (drop (length v) tail) ''</version>'' then Some v else None
      else None)"

fun regex_search_version :: "string \<Rightarrow> string option" where
  "regex_search_version [] = None"
| "regex_search_version (c # cs) =
     (case version_here (c # cs) of Some v \<Rightarrow> Some v | None \<Rightarrow> regex_search_version cs)"

text \<open>
  \<open>built_in\<close> is the version the build put in; \<open>package_xml\<close> is the text of the package
  description, empty when the file does not open, \<open>None\<close> when looking for it throws.
\<close>

definition get_driver_version :: "string \<Rightarrow> string option \<Rightarrow> string" where
  "get_driver_version built_in package_xml =
     (if built_in \<noteq> [] then built_in
      else case package_xml of None \<Rightarrow> [] | Some xml \<Rightarrow> (case regex_search_version xml of Some v \<Rightarrow> v | None \<Rightarrow> []))"

definition license_rule :: string where
  "license_rule = replicate 80 (CHR ''='') @ [CHR 0x0A]"

definition get_licenses_info :: "(string \<times> string) list \<Rightarrow> string" where
  "get_licenses_info licenses =
     ''This SW contains the following open source components:'' @ [CHR 0x0A] @
     concat (map (\<lambda>(name, body). license_rule @ name @ [CHR 0x0A] @ license_rule @ body @ [CHR 0x0A]) licenses)"

section \<open>Constructor\<close>

definition string_to_sync_mode :: "string \<Rightarrow> exn + sync_mode" where
  "string_to_sync_mode s =
     (if s = ''none'' then Inr Sync_none
      else if s = ''master'' then Inr Sync_master
      else if s = ''slave'' then Inr Sync_slave
      else Inl Out_of_range)"

record node_params =
  np_calibration_file :: string
  np_serial_number :: int
  np_mode :: string
  np_framerate :: int
  np_sync_mode :: string
  np_output_format :: string

definition default_params :: node_params where
  "default_params =
     \<lparr>np_calibration_file = ''config/calibration.yml'', np_serial_number = - 1, np_mode = ''30MSTD'',
      np_framerate = 30, np_sync_mode = ''none'', np_output_format = ''XYZ''\<rparr>"

text \<open>Narrowing a 64-bit parameter to \<open>int\<close>.\<close>

definition to_int32 :: "int \<Rightarrow> int" where
  "to_int32 i = sint (word_of_int i :: 32 word)"

definition serial_number_text :: "int \<Rightarrow> string" where
  "serial_number_text n = (if 0 < to_int32 n then dec_str (to_int32 n) else [])"

definition configure_device :: "node_params \<Rightarrow> dev \<Rightarrow> dev" where
  "configure_device p s =
     (let s = set_frame_rate (to_int32 (np_framerate p)) s;
          sync = (case string_to_sync_mode (np_sync_mode p) of Inl _ \<Rightarrow> Sync_none | Inr m \<Rightarrow> m);
          s = set_sync_mode sync s;
          idx = get_mode_nbr (np_mode p);
          idx = (if idx < 0 then get_mode_nbr ''30MSTD'' else idx)
      in snd (set_mode idx s))"

definition float_field :: "string \<Rightarrow> u32 \<Rightarrow> point_field" where
  "float_field name off = \<lparr>pf_name = name, pf_offset = off, pf_datatype = float32_field, pf_count = 1\<rparr>"

definition msg_fields :: "string \<Rightarrow> point_field list" where
  "msg_fields pc_type =
     [float_field ''x'' 0, float_field ''y'' 4, float_field ''z'' 8] @
     (if pc_type = ''XYZITR'' then
        [\<lparr>pf_name = ''intensity'', pf_offset = 12, pf_datatype = uint32_field, pf_count = 1\<rparr>,
         \<lparr>pf_name = ''time'', pf_offset = 16, pf_datatype = uint32_field, pf_count = 1\<rparr>,
         \<lparr>pf_name = ''ring'', pf_offset = 20, pf_datatype = uint16_field, pf_count = 1\<rparr>]
      else [])"

text \<open>
  The whole constructor: \<open>inst\<close> is the calibration instance of the process, \<open>env\<close> gives the new
  device its environment.
\<close>

definition new_node ::
  "'n yaml \<Rightarrow> (string \<Rightarrow> 'n document) \<Rightarrow> dev_ops \<Rightarrow> (dev \<Rightarrow> dev) \<Rightarrow> node_params \<Rightarrow> parser option \<Rightarrow> (node, parser option) outcome" where
  "new_node y files ops env p inst =
     seq (init y files (np_calibration_file p) inst) (\<lambda>_ inst.
       case create (np_output_format p) of
         Inl e \<Rightarrow> Throw e inst
       | Inr kind \<Rightarrow>
           let dev = configure_device p (env (new_dev (serial_number_text (np_serial_number p))));
               node = \<lambda>dev. \<lparr>nd_kind = kind, nd_dev = dev, nd_calibration = inst,
                 nd_fields = msg_fields (np_output_format p), nd_depth_frame_id = depth_frame_id,
                 nd_parent_frame_id = color_camera_frame_id, nd_clouds = [], nd_imus = [], nd_transforms = []\<rparr>
           in (case do_start ops dev of
                 Ret _ dev \<Rightarrow> Ret (node dev) inst
               | Throw e _ \<Rightarrow> Throw e inst
               | Block _ \<Rightarrow> Block inst))"

section \<open>Connection\<close>

definition mm_to_m :: ieee where "mm_to_m = round_frac binary32 False 1 1000"

definition on_cam_connection :: "node_libs \<Rightarrow> bool \<Rightarrow> device_info \<Rightarrow> node \<Rightarrow> (unit, node) outcome" where
  "on_cam_connection L conn info s =
     (if \<not> conn then Ret () s
      else case get_instance (nd_calibration s) of
        Inl e \<Rightarrow> Throw e s
      | Inr cp \<Rightarrow>
          let found = get_calibration (hw_id info) (cp_cameras cp);
              c = (case found of Some c \<Rightarrow> c | None \<Rightarrow> default_calibration);
              depth = (if found = None \<or> cc_frame_id c = [] then depth_frame_id else cc_frame_id c);
              parent = (if found = None \<or> cc_parent_frame_id c = [] then color_camera_frame_id
                        else cc_parent_frame_id c);
              t = \<lparr>tf_stamp = nl_now L, tf_parent = parent, tf_child = depth,
                   tf_translation = map (\<lambda>x. f_cast binary64 (f_mul binary32 x mm_to_m)) (cc_translation c),
                   tf_rotation = nl_quat L (cc_rotation c)\<rparr>
          in Ret () (s\<lparr>nd_depth_frame_id := depth, nd_parent_frame_id := parent,
                       nd_transforms := nd_transforms s @ [t]\<rparr>))"

section \<open>Point clouds\<close>

text \<open>
  The message of a cloud without its data: the sizes are computed in \<open>uint32_t\<close>.
\<close>

definition cloud_header :: "node_libs \<Rightarrow> node \<Rightarrow> u64 \<Rightarrow> nat \<Rightarrow> u32 \<Rightarrow> point_cloud2" where
  "cloud_header L s frame_ts n psize =
     \<lparr>pc_stamp = nl_stamp L frame_ts, pc_frame_id = nd_depth_frame_id s, pc_height = 1, pc_width = of_nat n,
      pc_fields = nd_fields s, pc_is_bigendian = False, pc_point_step = psize, pc_row_step = psize * of_nat n,
      pc_data = [], pc_is_dense = False\<rparr>"

definition byte_count :: "point_cloud2 \<Rightarrow> nat" where
  "byte_count m = unat (pc_row_step m * pc_height m)"

definition xyz_bytes :: "ieee list \<Rightarrow> u8 list" where
  "xyz_bytes p = float_bytes (p ! 0) @ float_bytes (p ! 1) @ float_bytes (p ! 2)"

text \<open>
  The packed structure of a point: \<open>None\<close> where the conversion of a float to an integer is
  undefined.
\<close>

definition xyzitr_bytes :: "ieee list \<Rightarrow> u8 list option" where
  "xyzitr_bytes p = do {
     i \<leftarrow> f_to_uint 32 (p ! 3);
     t \<leftarrow> f_to_uint 32 (p ! 4);
     r \<leftarrow> f_to_uint 16 (p ! 5);
     Some (xyz_bytes p @ u32_bytes (word_of_int i) @ u32_bytes (word_of_int t) @ u16_bytes (word_of_int r))}"

fun pack_points :: "ieee list list \<Rightarrow> u8 list option" where
  "pack_points [] = Some []"
| "pack_points (p # ps) = do { b \<leftarrow> xyzitr_bytes p; bs \<leftarrow> pack_points ps; Some (b @ bs) }"

definition on_point_cloud :: "node_libs \<Rightarrow> u64 \<Rightarrow> ieee list list \<Rightarrow> node \<Rightarrow> node option" where
  "on_point_cloud L frame_ts points s =
     (case nd_kind s of
        Kind_cdc \<Rightarrow>
          let m = cloud_header L s frame_ts (length points) 12
          in Some (s\<lparr>nd_clouds := nd_clouds s @
               [m\<lparr>pc_data := take (byte_count m) (concat (map xyz_bytes points))\<rparr>]\<rparr>)
      | Kind_hist \<Rightarrow>
          let m = cloud_header L s frame_ts (length points) 22
          in do {
            bs \<leftarrow> pack_points points;
            if length bs \<le> byte_count m then Some (s\<lparr>nd_clouds := nd_clouds s @ [m\<lparr>pc_data := bs\<rparr>]\<rparr>) else None})"

section \<open>IMU samples\<close>

definition decimal64 :: "int \<Rightarrow> int \<Rightarrow> ieee" where
  "decimal64 n d = round_frac binary64 False n d"

definition diagonal :: "ieee \<Rightarrow> ieee list" where
  "diagonal v = [v, f_zero, f_zero, f_zero, v, f_zero, f_zero, f_zero, v]"

definition accel_variance :: ieee where "accel_variance = decimal64 325895 100000000000"
definition gyro_variance :: ieee where "gyro_variance = decimal64 643051 100000000000"

definition vec3_of :: "ieee list \<Rightarrow> vec3" where
  "vec3_of v = (f_cast binary64 (v ! 0), f_cast binary64 (v ! 1), f_cast binary64 (v ! 2))"

text \<open>The quaternion of a message that sets none is the identity.\<close>

definition imu_message :: "node_libs \<Rightarrow> node \<Rightarrow> imu_sample \<Rightarrow> imu_msg" where
  "imu_message L s sample =
     \<lparr>im_stamp = nl_stamp L (is_timestamp sample), im_frame_id = nd_depth_frame_id s,
      im_orientation = (f_zero, f_zero, f_zero, f_of_int binary64 1),
      im_orientation_covariance = (replicate 9 f_zero)[0 := f_of_int binary64 (- 1)],
      im_angular_velocity = vec3_of (is_gyro sample), im_angular_velocity_covariance = diagonal gyro_variance,
      im_linear_acceleration = vec3_of (is_accel sample), im_linear_acceleration_covariance = diagonal accel_variance\<rparr>"

definition on_imu_samples :: "node_libs \<Rightarrow> imu_sample list \<Rightarrow> node \<Rightarrow> node" where
  "on_imu_samples L samples s = s\<lparr>nd_imus := nd_imus s @ map (imu_message L s) samples\<rparr>"

section \<open>Parameters\<close>

datatype param_value = P_string string | P_integer int | P_other

record set_result =
  sr_successful :: bool
  sr_reason :: string

definition accepted :: set_result where "accepted = \<lparr>sr_successful = True, sr_reason = []\<rparr>"

definition rejected :: "string \<Rightarrow> set_result" where
  "rejected reason = \<lparr>sr_successful = False, sr_reason = reason\<rparr>"

text \<open>One parameter: rejected with a reason, or taken, and whether the device has to reboot for it.\<close>

definition set_parameter :: "dev_ops \<Rightarrow> string \<times> param_value \<Rightarrow> dev \<Rightarrow> (string + bool, dev) outcome" where
  "set_parameter ops nv s =
     (case nv of (name, v) \<Rightarrow>
        if name = ''calibration_file'' \<or> name = ''serial_number'' then
          Ret (Inl (''Parameter '' @ [CHR 0x27] @ name @ [CHR 0x27] @ '' cannot be changed at runtime'')) s
        else if name = ''mode'' then
          (case v of
             P_string m \<Rightarrow>
               let idx = get_mode_nbr m
               in if idx < 0 then
                    Ret (Inl (''Parameter '' @ [CHR 0x27] @ ''mode'' @ [CHR 0x27] @ '' must be one of: '' @
                      get_available_modes_str)) s
                  else seq (do_stop ops s) (\<lambda>_ s. Ret (Inr True) (snd (set_mode idx s)))
           | _ \<Rightarrow> Ret (Inl (''Parameter '' @ [CHR 0x27] @ ''mode'' @ [CHR 0x27] @ '' must be an string'')) s)
        else if name = ''framerate'' then
          (case v of
             P_integer i \<Rightarrow>
               if to_int32 i < 0 \<or> 30 < to_int32 i then
                 Ret (Inl (''Parameter '' @ [CHR 0x27] @ ''framerate'' @ [CHR 0x27] @ '' must be >= 0'')) s
               else Ret (Inr True) (set_frame_rate (to_int32 i) s)
           | _ \<Rightarrow> Ret (Inl (''Parameter '' @ [CHR 0x27] @ ''framerate'' @ [CHR 0x27] @ '' must be an integer'')) s)
        else if name = ''sync_mode'' then
          (case v of
             P_string m \<Rightarrow>
               (case string_to_sync_mode m of
                  Inl _ \<Rightarrow>
                    Ret (Inl (''Parameter '' @ [CHR 0x27] @ ''sync_mode'' @ [CHR 0x27] @
                      '' must be one of: master, slave, none'')) s
                | Inr sync \<Rightarrow> Ret (Inr True) (set_sync_mode sync s))
           | _ \<Rightarrow> Ret (Inl (''Parameter '' @ [CHR 0x27] @ ''sync_mode'' @ [CHR 0x27] @ '' must be a string'')) s)
        else Ret (Inr False) s)"

fun set_parameters :: "dev_ops \<Rightarrow> (string \<times> param_value) list \<Rightarrow> bool \<Rightarrow> dev \<Rightarrow> (string + bool, dev) outcome" where
  "set_parameters ops [] reboot_needed s = Ret (Inr reboot_needed) s"
| "set_parameters ops (p # ps) reboot_needed s =
     seq (set_parameter ops p s) (\<lambda>r s.
       case r of
         Inl reason \<Rightarrow> Ret (Inl reason) s
       | Inr b \<Rightarrow> set_parameters ops ps (reboot_needed \<or> b) s)"

definition on_parameters_set :: "dev_ops \<Rightarrow> (string \<times> param_value) list \<Rightarrow> dev \<Rightarrow> (set_result, dev) outcome" where
  "on_parameters_set ops ps s =
     seq (set_parameters ops ps False s) (\<lambda>r s.
       case r of
         Inl reason \<Rightarrow> Ret (rejected reason) s
       | Inr b \<Rightarrow>
           if b then seq (reboot (do_stop ops) (do_start ops) s) (\<lambda>_ s. Ret accepted s)
           else Ret accepted s)"

section \<open>Services\<close>

text \<open>A response: success and message. A null dereference is not an exception the handler catches.\<close>

definition on_reboot :: "node_libs \<Rightarrow> dev_ops \<Rightarrow> dev \<Rightarrow> (bool \<times> string, dev) outcome" where
  "on_reboot L ops s =
     (case reboot (do_stop ops) (do_start ops) s of
        Ret _ s \<Rightarrow> Ret (True, ''Reboot requested'') s
      | Throw e s \<Rightarrow> if e = Null_pointer then Throw e s else Ret (False, ''Failed to reboot: '' @ nl_what L e) s
      | Block s \<Rightarrow> Block s)"

fun sync_mode_number :: "sync_mode \<Rightarrow> int" where
  "sync_mode_number Sync_none = 0"
| "sync_mode_number Sync_master = 1"
| "sync_mode_number Sync_slave = 2"

definition on_get_device_info :: "dev \<Rightarrow> bool \<times> string" where
  "on_get_device_info s =
     (True, ''hw_id='' @ hw_id (dev_info s) @ '', version='' @ device_version (dev_info s) @
        '', sync_mode='' @ dec_str (sync_mode_number (dev_sync_mode s)))"

definition on_get_driver_version :: "string \<Rightarrow> string option \<Rightarrow> bool \<times> string" where
  "on_get_driver_version built_in package_xml =
     (let version = get_driver_version built_in package_xml
      in if version \<noteq> [] then (True, version) else (False, ''Driver version unavailable''))"

definition on_get_licenses :: "(string \<times> string) list \<Rightarrow> bool \<times> string" where
  "on_get_licenses licenses = (True, get_licenses_info licenses)"

text \<open>The combiner node answers in the same way.\<close>

definition combiner_on_get_licenses :: "(string \<times> string) list \<Rightarrow> bool \<times> string" where
  "combiner_on_get_licenses licenses = (True, get_licenses_info licenses)"

definition on_start_streaming :: "dev_ops \<Rightarrow> dev \<Rightarrow> (bool \<times> string, dev) outcome" where
  "on_start_streaming ops s = seq (do_start ops s) (\<lambda>_ s. Ret (True, ''Streaming enabled'') s)"

definition on_stop_streaming :: "dev_ops \<Rightarrow> dev \<Rightarrow> (bool \<times> string, dev) outcome" where
  "on_stop_streaming ops s = seq (do_stop ops s) (\<lambda>_ s. Ret (True, ''Streaming disabled'') s)"

section \<open>The configuration of the device\<close>

text \<open>
  What the node relies on when it starts and stops the device: the configuration is its own
  affair, the threads do not touch it.
\<close>

locale device_control =
  fixes ops :: dev_ops
  assumes start_config: "config (final_state (do_start ops s)) = config s"
    and stop_config: "config (final_state (do_stop ops s)) = config s"

definition valid_config :: "dev \<Rightarrow> bool" where
  "valid_config s \<longleftrightarrow> valid_mode (dev_mode s) \<and> 1 \<le> frame_rate_hz s \<and> frame_rate_hz s \<le> 30"

lemma valid_config_cong: "config t = config s \<Longrightarrow> valid_config t = valid_config s"
  by (simp add: valid_config_def config_def)

lemma seq_config:
  assumes "config (final_state m) = c" and "\<And>x t. m = Ret x t \<Longrightarrow> config (final_state (k x t)) = c"
  shows "config (final_state (seq m k)) = c"
  using assms by (cases m) simp_all

definition keeps_config :: "(dev \<Rightarrow> ('a, dev) outcome) \<Rightarrow> bool" where
  "keeps_config f \<longleftrightarrow> (\<forall>s. config (final_state (f s)) = config s)"

lemma keeps_config_dev_op: "dev_op f \<Longrightarrow> keeps_config f"
  by (simp add: keeps_config_def dev_op.config_unchanged)

lemma keeps_config_seq: "keeps_config f \<Longrightarrow> (\<And>x. keeps_config (k x)) \<Longrightarrow> keeps_config (\<lambda>s. seq (f s) k)"
  unfolding keeps_config_def by (intro allI seq_config) (auto, metis final_state.simps(1))

lemma keeps_config_serial_open: "keeps_config serial_open"
  by (simp add: keeps_config_def serial_open_def act_def config_def)

lemma setters_config:
  "config (snd (set_mode m s)) = (if valid_mode m then m else dev_mode s, frame_rate_hz s, dev_serial_number s, dev_sync_mode s)"
  "config (set_frame_rate hz s) =
     (dev_mode s, if 1 \<le> hz \<and> hz \<le> 30 then hz else frame_rate_hz s, dev_serial_number s, dev_sync_mode s)"
  "config (set_sync_mode sm s) = (dev_mode s, frame_rate_hz s, dev_serial_number s, sm)"
  by (auto simp: config_def set_mode_def set_frame_rate_def set_sync_mode_def valid_mode_def)

lemma set_mode_valid: "valid_config s \<Longrightarrow> valid_config (snd (set_mode m s))"
  and set_frame_rate_valid: "valid_config s \<Longrightarrow> valid_config (set_frame_rate hz s)"
  and set_sync_mode_valid: "valid_config s \<Longrightarrow> valid_config (set_sync_mode sm s)"
  by (auto simp: valid_config_def set_mode_def set_frame_rate_def set_sync_mode_def valid_mode_def)

context device_control
begin

lemma reboot_config: "config (final_state (reboot (do_stop ops) (do_start ops) s)) = config s"
proof (cases "has_serial s")
  case True
  have "keeps_config (do_stop ops)" "keeps_config (do_start ops)"
    by (simp_all add: keeps_config_def stop_config start_config)
  then have "keeps_config (\<lambda>s. seq (do_stop ops s) (\<lambda>_ s. seq (serial_open s) (\<lambda>_ s. seq (serial_flush s) (\<lambda>_ s.
      seq (send_and_receive ''reboot'' s) (\<lambda>_ s. seq (serial_close s) (\<lambda>_. do_start ops))))))"
    by (intro keeps_config_seq keeps_config_serial_open keeps_config_dev_op [OF dev_op_serial_flush]
        keeps_config_dev_op [OF dev_op_send_and_receive] keeps_config_dev_op [OF dev_op_serial_close])
  then show ?thesis using True unfolding keeps_config_def reboot_def by simp
qed (simp add: reboot_def)

lemma stop_and_set_mode_valid:
  assumes v: "valid_config s"
  shows "valid_config (final_state (seq (do_stop ops s) (\<lambda>_ s. Ret (Inr True :: string + bool) (snd (set_mode idx s)))))"
proof -
  have "valid_config (final_state (do_stop ops s))" using v valid_config_cong [OF stop_config] by blast
  then show ?thesis using set_mode_valid by (cases "do_stop ops s") simp_all
qed

lemma set_parameter_valid:
  assumes v: "valid_config s"
  shows "valid_config (final_state (set_parameter ops nv s))"
proof (cases nv)
  case (Pair name pv)
  note valids = v stop_and_set_mode_valid [OF v] set_frame_rate_valid [OF v] set_sync_mode_valid [OF v]
  show ?thesis
  proof (cases pv)
    case (P_string m)
    then show ?thesis
      using valids unfolding set_parameter_def Pair
      by (cases "string_to_sync_mode m") (simp_all add: Let_def)
  next
    case (P_integer i)
    then show ?thesis using valids unfolding set_parameter_def Pair by simp
  next
    case P_other
    then show ?thesis using valids unfolding set_parameter_def Pair by simp
  qed
qed

lemma set_parameters_valid: "valid_config s \<Longrightarrow> valid_config (final_state (set_parameters ops ps b s))"
proof (induction ps arbitrary: b s)
  case (Cons p ps)
  have "valid_config (final_state (set_parameter ops p s))" using Cons.prems by (rule set_parameter_valid)
  then show ?case using Cons.IH by (cases "set_parameter ops p s") (auto split: sum.split)
qed simp

lemma on_parameters_set_valid: "valid_config s \<Longrightarrow> valid_config (final_state (on_parameters_set ops ps s))"
proof -
  assume v: "valid_config s"
  show ?thesis
  proof (cases "set_parameters ops ps False s")
    case (Ret r t)
    then have t: "valid_config t" using set_parameters_valid [OF v, of ps False] by simp
    have "valid_config (final_state (reboot (do_stop ops) (do_start ops) t))"
      using t reboot_config valid_config_cong by blast
    then have "valid_config (final_state (seq (reboot (do_stop ops) (do_start ops) t) (\<lambda>_ s. Ret accepted s)))"
      by (cases "reboot (do_stop ops) (do_start ops) t") simp_all
    then show ?thesis using Ret t by (auto simp: on_parameters_set_def split: sum.split)
  qed (use set_parameters_valid [OF v, of ps False] in \<open>simp_all add: on_parameters_set_def\<close>)
qed

end

text \<open>The threads of the model keep the configuration: the node's own devices meet the contract.\<close>

lemma later_stop_flag [simp]: "later s (s\<lparr>running := False\<rparr>)"
  by (auto simp: later_def config_def)

lemma dev_op_send_acks [dev_ops]: "dev_op (send_acks cs)"
proof (induction cs)
  case Nil
  show ?case unfolding send_acks.simps by (rule dev_op_Ret) simp
next
  case (Cons c cs)
  show ?case unfolding send_acks.simps by (intro dev_op_seq dev_op_send_and_receive_ack Cons)
qed

lemma run_exit_config: "config (final_state (run_exit s)) = config s"
proof -
  obtain r s1 where p: "poll s = (r, s1)" by (cases "poll s")
  have "keeps_config (\<lambda>s. seq (if \<not> r \<and> has_serial s then send_acks [''fsync 0'', ''trgin disable''] s else Ret () s)
      (\<lambda>_ s. seq (Ret () (act (Connect_cb False (dev_info s)) s))
      (\<lambda>_ s. seq (if has_serial s then serial_close s else Ret () s) (\<lambda>_ s. Ret () (s\<lparr>running := False\<rparr>)))))"
    by (intro keeps_config_dev_op dev_op_seq dev_op_if dev_op_send_acks dev_op_serial_close dev_op_Ret)
      (auto simp: later_def config_def act_def)
  then show ?thesis
    using poll_later [OF p] laterD(3) p unfolding keeps_config_def run_exit_def by fastforce
qed

lemma start_dev_config: "config (final_state (start_dev kind s)) = config s"
  by (cases kind) (simp_all add: start_dev_def start_impl_cdc_def config_def Let_def)

definition model_ops :: "device_kind \<Rightarrow> dev_ops" where
  "model_ops kind = \<lparr>do_start = start_dev kind, do_stop = stop_dev run_exit\<rparr>"

interpretation control: device_control "model_ops kind" for kind
proof
  fix s :: dev
  show "config (final_state (do_start (model_ops kind) s)) = config s"
    by (simp add: model_ops_def start_dev_config)
  show "config (final_state (do_stop (model_ops kind) s)) = config s"
    using run_exit_config [of "s\<lparr>running := False\<rparr>"] by (simp add: model_ops_def stop_dev_def config_def)
qed

section \<open>Changing parameters\<close>

text \<open>Which parameters the node takes, and what they make of mode, frame rate and synchronisation.\<close>

definition acceptable :: "string \<times> param_value \<Rightarrow> bool" where
  "acceptable nv \<longleftrightarrow>
     (case nv of (name, v) \<Rightarrow>
        name \<noteq> ''calibration_file'' \<and> name \<noteq> ''serial_number'' \<and>
        (name = ''mode'' \<longrightarrow> (case v of P_string m \<Rightarrow> 0 \<le> get_mode_nbr m | _ \<Rightarrow> False)) \<and>
        (name = ''framerate'' \<longrightarrow> (case v of P_integer i \<Rightarrow> 0 \<le> to_int32 i \<and> to_int32 i \<le> 30 | _ \<Rightarrow> False)) \<and>
        (name = ''sync_mode'' \<longrightarrow> (case v of P_string m \<Rightarrow> m \<in> {''none'', ''master'', ''slave''} | _ \<Rightarrow> False)))"

definition needs_reboot :: "string \<times> param_value \<Rightarrow> bool" where
  "needs_reboot nv \<longleftrightarrow> fst nv \<in> {''mode'', ''framerate'', ''sync_mode''}"

definition apply_param :: "string \<times> param_value \<Rightarrow> int \<times> int \<times> string \<times> sync_mode \<Rightarrow> int \<times> int \<times> string \<times> sync_mode" where
  "apply_param nv c =
     (case (nv, c) of ((name, v), (m, hz, sn, sync)) \<Rightarrow>
        (if name = ''mode'' then case v of P_string x \<Rightarrow> get_mode_nbr x | _ \<Rightarrow> m else m,
         if name = ''framerate'' then case v of P_integer i \<Rightarrow> if 1 \<le> to_int32 i then to_int32 i else hz | _ \<Rightarrow> hz else hz,
         sn,
         if name = ''sync_mode'' then
           case v of P_string x \<Rightarrow> (if x = ''master'' then Sync_master else if x = ''slave'' then Sync_slave else Sync_none)
           | _ \<Rightarrow> sync
         else sync))"

definition stops_device :: "dev_ops \<Rightarrow> bool" where
  "stops_device ops \<longleftrightarrow> (\<forall>s. \<exists>t. do_stop ops s = Ret () t \<and> config t = config s \<and> \<not> running t)"

lemma string_to_sync_mode_iff:
  "(\<exists>m. string_to_sync_mode x = Inr m) \<longleftrightarrow> x \<in> {''none'', ''master'', ''slave''}"
  by (auto simp: string_to_sync_mode_def)

lemma string_to_sync_mode_value:
  "string_to_sync_mode x = Inr m \<Longrightarrow>
   m = (if x = ''master'' then Sync_master else if x = ''slave'' then Sync_slave else Sync_none)"
  by (auto simp: string_to_sync_mode_def split: if_splits)

lemma get_mode_nbr_valid: "0 \<le> get_mode_nbr m \<Longrightarrow> valid_mode (get_mode_nbr m)"
  using mode_search_range [of m 0 dt1_modes_list] by (auto simp: get_mode_nbr_def valid_mode_def)

text \<open>One parameter.\<close>

lemma set_parameter_other:
  "fst nv \<notin> {''calibration_file'', ''serial_number'', ''mode'', ''framerate'', ''sync_mode''} \<Longrightarrow>
   set_parameter ops nv s = Ret (Inr False) s"
  by (cases nv) (simp add: set_parameter_def)

lemma config_set_frame_rate:
  "config (set_frame_rate hz s) =
     (fst (config s), if 1 \<le> hz \<and> hz \<le> 30 then hz else fst (snd (config s)), snd (snd (config s)))"
  by (simp add: config_def set_frame_rate_def)

lemma set_parameter_acceptable:
  assumes "acceptable nv" and ops: "stops_device ops"
  shows "\<exists>t. set_parameter ops nv s = Ret (Inr (needs_reboot nv)) t \<and> config t = apply_param nv (config s) \<and>
    (fst nv = ''mode'' \<longrightarrow> \<not> running t) \<and> (running t \<longrightarrow> running s)"
proof -
  obtain name v where nv: "nv = (name, v)" by (cases nv)
  obtain m hz sn sync where c: "config s = (m, hz, sn, sync)" by (cases "config s")
  consider (mode) "name = ''mode''" | (rate) "name = ''framerate''" | (sync) "name = ''sync_mode''"
    | (other) "name \<notin> {''mode'', ''framerate'', ''sync_mode''}" by blast
  then show ?thesis
  proof cases
    case mode
    then obtain x where x: "v = P_string x" "0 \<le> get_mode_nbr x"
      using assms(1) by (cases v) (auto simp: acceptable_def nv)
    obtain t where t: "do_stop ops s = Ret () t" "config t = config s" "\<not> running t"
      using ops unfolding stops_device_def by blast
    have "set_parameter ops nv s = Ret (Inr True) (snd (set_mode (get_mode_nbr x) t))"
      using mode x t(1) by (simp add: set_parameter_def nv)
    moreover have "snd (set_mode (get_mode_nbr x) t) = t\<lparr>dev_mode := get_mode_nbr x\<rparr>"
      using get_mode_nbr_valid [OF x(2)] by (auto simp: set_mode_def valid_mode_def)
    ultimately show ?thesis
      using mode x t c by (auto simp: nv needs_reboot_def apply_param_def config_def)
  next
    case rate
    then obtain i where i: "v = P_integer i" "0 \<le> to_int32 i" "to_int32 i \<le> 30"
      using assms(1) by (cases v) (auto simp: acceptable_def nv)
    have "set_parameter ops nv s = Ret (Inr True) (set_frame_rate (to_int32 i) s)"
      using rate i by (simp add: set_parameter_def nv)
    then show ?thesis
      using rate i c by (auto simp: nv needs_reboot_def apply_param_def set_frame_rate_def config_def)
  next
    case sync
    then obtain x where x: "v = P_string x" "x \<in> {''none'', ''master'', ''slave''}"
      using assms(1) by (cases v) (auto simp: acceptable_def nv)
    then obtain y where y: "string_to_sync_mode x = Inr y" using string_to_sync_mode_iff by blast
    have "set_parameter ops nv s = Ret (Inr True) (set_sync_mode y s)"
      using sync x y by (simp add: set_parameter_def nv)
    then show ?thesis
      using sync x string_to_sync_mode_value [OF y] c
      by (auto simp: nv needs_reboot_def apply_param_def set_sync_mode_def config_def)
  next
    case other
    then have "set_parameter ops nv s = Ret (Inr False) s"
      using assms(1) by (intro set_parameter_other) (auto simp: acceptable_def nv)
    then show ?thesis using other c by (auto simp: nv needs_reboot_def apply_param_def)
  qed
qed

lemma set_parameter_unacceptable:
  assumes "\<not> acceptable nv"
  shows "\<exists>reason. set_parameter ops nv s = Ret (Inl reason) s"
proof -
  obtain name v where nv: "nv = (name, v)" by (cases nv)
  consider (fixed) "name = ''calibration_file'' \<or> name = ''serial_number''" | (mode) "name = ''mode''"
    | (rate) "name = ''framerate''" | (sync) "name = ''sync_mode''"
    using assms unfolding acceptable_def nv prod.case by blast
  then show ?thesis
  proof cases
    case fixed
    then show ?thesis by (auto simp: set_parameter_def nv)
  next
    case mode
    then show ?thesis using assms by (cases v) (auto simp: set_parameter_def acceptable_def nv)
  next
    case rate
    then show ?thesis using assms by (cases v) (auto simp: set_parameter_def acceptable_def nv)
  next
    case sync
    show ?thesis
    proof (cases v)
      case (P_string x)
      then have "\<not> (\<exists>m. string_to_sync_mode x = Inr m)"
        using assms sync string_to_sync_mode_iff by (auto simp: acceptable_def nv)
      then obtain e where "string_to_sync_mode x = Inl e" by (cases "string_to_sync_mode x") auto
      then show ?thesis using sync P_string by (simp add: set_parameter_def nv)
    qed (use sync in \<open>simp_all add: set_parameter_def nv\<close>)
  qed
qed

lemma set_parameters_split:
  assumes ops: "stops_device ops"
  shows "\<exists>t. config t = fold apply_param (takeWhile acceptable ps) (config s) \<and>
    (\<forall>v. (''mode'', v) \<in> set (takeWhile acceptable ps) \<longrightarrow> \<not> running t) \<and> (running t \<longrightarrow> running s) \<and>
    (if list_all acceptable ps then set_parameters ops ps b s = Ret (Inr (b \<or> list_ex needs_reboot ps)) t
     else \<exists>reason. set_parameters ops ps b s = Ret (Inl reason) t)"
proof (induction ps arbitrary: b s)
  case Nil
  show ?case by (intro exI [of _ s]) simp
next
  case (Cons p ps)
  show ?case
  proof (cases "acceptable p")
    case True
    then obtain u where u: "set_parameter ops p s = Ret (Inr (needs_reboot p)) u" "config u = apply_param p (config s)"
      "fst p = ''mode'' \<longrightarrow> \<not> running u" "running u \<longrightarrow> running s"
      using set_parameter_acceptable [OF _ ops] by blast
    obtain t where t: "config t = fold apply_param (takeWhile acceptable ps) (config u)"
      "\<forall>v. (''mode'', v) \<in> set (takeWhile acceptable ps) \<longrightarrow> \<not> running t" "running t \<longrightarrow> running u"
      "if list_all acceptable ps
       then set_parameters ops ps (b \<or> needs_reboot p) u = Ret (Inr ((b \<or> needs_reboot p) \<or> list_ex needs_reboot ps)) t
       else \<exists>reason. set_parameters ops ps (b \<or> needs_reboot p) u = Ret (Inl reason) t"
      using Cons.IH by blast
    show ?thesis using True u t by (intro exI [of _ t]) (auto split: if_splits)
  next
    case False
    then obtain reason where "set_parameter ops p s = Ret (Inl reason) s" using set_parameter_unacceptable by blast
    then show ?thesis using False by (intro exI [of _ s]) simp
  qed
qed


definition example_ops :: dev_ops where
  "example_ops = \<lparr>do_start = (\<lambda>s. Ret () (s\<lparr>running := True\<rparr>)), do_stop = (\<lambda>s. Ret () (s\<lparr>running := False\<rparr>))\<rparr>"

lemma example_ops_stop: "stops_device example_ops"
  by (simp add: stops_device_def example_ops_def config_def)


text \<open>C35: Whatever the parameters of the node are, the device is created with a mode of the table and a
  frame rate of 1 to 30 per second, and no change of parameters at run time, accepted or not,
  returning or throwing, ends with any other configuration.
\<close>

theorem node_configuration_valid:
  assumes "\<And>s. config (final_state (do_start ops s)) = config s" and "\<And>s. config (final_state (do_stop ops s)) = config s"
  shows "valid_config (configure_device p (new_dev n)) \<and>
    (valid_config s \<longrightarrow> valid_config (final_state (on_parameters_set ops ps s)))"
proof
  have "valid_config (set_frame_rate hz (new_dev n))" for hz
    by (simp add: valid_config_def set_frame_rate_def new_dev_def valid_mode_def)
  then show "valid_config (configure_device p (new_dev n))"
    by (simp add: configure_device_def Let_def set_mode_valid set_sync_mode_valid)
  show "valid_config s \<longrightarrow> valid_config (final_state (on_parameters_set ops ps s))"
    using device_control.on_parameters_set_valid [OF device_control.intro [OF assms]] by blast
qed

lemma node_configuration_valid_witness:
  "valid_config (configure_device (default_params\<lparr>np_framerate := 0, np_mode := ''none''\<rparr>) (new_dev [])) \<and>
   valid_config (final_state (on_parameters_set (model_ops Kind_cdc) [(''framerate'', P_integer 0)] (new_dev [])))"
proof -
  have "valid_config (new_dev [])" by (simp add: valid_config_def new_dev_def valid_mode_def)
  then show ?thesis
    using node_configuration_valid [OF control.start_config control.stop_config, of
        "default_params\<lparr>np_framerate := 0, np_mode := ''none''\<rparr>" "[]" "new_dev []" Kind_cdc "[(''framerate'', P_integer 0)]"]
    by blast
qed

section \<open>The point clouds the node publishes\<close>

text \<open>The points of a message as the combiner reads them.\<close>

definition point_of :: "device_kind \<Rightarrow> ieee list \<Rightarrow> point" where
  "point_of kind p =
     ((p ! 0, p ! 1, p ! 2),
      case kind of Kind_cdc \<Rightarrow> None | Kind_hist \<Rightarrow> map_option word_of_int (f_to_uint 16 (p ! 5)))"

definition encodable :: "device_kind \<Rightarrow> ieee list \<Rightarrow> bool" where
  "encodable kind p \<longleftrightarrow>
     f_canon binary32 (p ! 0) \<and> f_canon binary32 (p ! 1) \<and> f_canon binary32 (p ! 2) \<and>
     (kind = Kind_hist \<longrightarrow> f_to_uint 32 (p ! 3) \<noteq> None \<and> f_to_uint 32 (p ! 4) \<noteq> None \<and> f_to_uint 16 (p ! 5) \<noteq> None)"

definition format_of :: "device_kind \<Rightarrow> string" where
  "format_of kind = (case kind of Kind_cdc \<Rightarrow> ''XYZ'' | Kind_hist \<Rightarrow> ''XYZITR'')"

definition node_offsets :: "device_kind \<Rightarrow> offsets" where
  "node_offsets kind =
     \<lparr>off_x = 0, off_y = 4, off_z = 8, off_intensity = (case kind of Kind_cdc \<Rightarrow> - 1 | Kind_hist \<Rightarrow> 12),
      off_time = (case kind of Kind_cdc \<Rightarrow> - 1 | Kind_hist \<Rightarrow> 16),
      off_ring = (case kind of Kind_cdc \<Rightarrow> - 1 | Kind_hist \<Rightarrow> 20)\<rparr>"

definition point_size :: "device_kind \<Rightarrow> nat" where
  "point_size kind = (case kind of Kind_cdc \<Rightarrow> 12 | Kind_hist \<Rightarrow> 22)"

lemma node_fields_offsets:
  "pc_fields m = msg_fields (format_of kind) \<Longrightarrow> find_offsets m = Some (node_offsets kind)"
  by (cases kind)
    (simp_all add: find_offsets_def msg_fields_def format_of_def field_is_def float_field_def node_offsets_def Let_def
      float32_field_def uint32_field_def uint16_field_def)

lemma node_layout: "layout_ok (node_offsets kind) (point_size kind)"
  by (cases kind) (simp_all add: layout_ok_def node_offsets_def point_size_def)

lemma data_view_blocks:
  assumes lay: "layout_ok o1 k" and len: "\<forall>b\<in>set bs. length b = k"
  shows "data_view o1 k (length bs) (concat bs) = map (\<lambda>b. point_view o1 b 0) bs"
  using len
proof (induction bs)
  case (Cons b bs)
  have "data_view o1 k (1 + length bs) (b @ concat bs) = data_view o1 k 1 b @ data_view o1 k (length bs) (concat bs)"
    using Cons.prems by (intro data_view_append [OF lay]) simp
  then show ?case using Cons by (simp add: data_view_def)
qed (simp add: data_view_def)

lemma length_xyz_bytes [simp]: "length (xyz_bytes p) = 12"
  by (simp add: xyz_bytes_def)

lemma xyzitr_bytes_Some:
  "xyzitr_bytes p = Some b \<longleftrightarrow> (\<exists>i t r. f_to_uint 32 (p ! 3) = Some i \<and> f_to_uint 32 (p ! 4) = Some t \<and>
     f_to_uint 16 (p ! 5) = Some r \<and>
     b = xyz_bytes p @ u32_bytes (word_of_int i) @ u32_bytes (word_of_int t) @ u16_bytes (word_of_int r))"
  by (auto simp: xyzitr_bytes_def bind_eq_Some_conv)

lemma le32_at: "length xs = n \<Longrightarrow> le32 (xs @ u32_bytes w @ ys) n = w"
  using le32_u32_bytes [of xs w ys] by simp

lemma le16_at: "length xs = n \<Longrightarrow> le16 (xs @ u16_bytes w @ ys) n = w"
  using le16_u16_bytes [of xs w ys] by simp

lemma xyz_bytes_view:
  assumes "encodable kind p"
  shows "f32_of_bits (le32 (xyz_bytes p @ ys) 0) = p ! 0" "f32_of_bits (le32 (xyz_bytes p @ ys) 4) = p ! 1"
    "f32_of_bits (le32 (xyz_bytes p @ ys) 8) = p ! 2"
proof -
  have "le32 (xyz_bytes p @ ys) 0 = f32_bits (p ! 0)"
    using le32_at [of "[]" 0 "f32_bits (p ! 0)" "float_bytes (p ! 1) @ float_bytes (p ! 2) @ ys"]
    by (simp add: xyz_bytes_def)
  moreover have "le32 (xyz_bytes p @ ys) 4 = f32_bits (p ! 1)"
    using le32_at [of "float_bytes (p ! 0)" 4 "f32_bits (p ! 1)" "float_bytes (p ! 2) @ ys"]
    by (simp add: xyz_bytes_def)
  moreover have "le32 (xyz_bytes p @ ys) 8 = f32_bits (p ! 2)"
    using le32_at [of "float_bytes (p ! 0) @ float_bytes (p ! 1)" 8 "f32_bits (p ! 2)" ys]
    by (simp add: xyz_bytes_def)
  ultimately show "f32_of_bits (le32 (xyz_bytes p @ ys) 0) = p ! 0" "f32_of_bits (le32 (xyz_bytes p @ ys) 4) = p ! 1"
    "f32_of_bits (le32 (xyz_bytes p @ ys) 8) = p ! 2"
    using assms by (simp_all add: encodable_def f32_bits_roundtrip)
qed

lemma cdc_block_view:
  assumes "encodable Kind_cdc p"
  shows "point_view (node_offsets Kind_cdc) (xyz_bytes p) 0 = point_of Kind_cdc p"
  using xyz_bytes_view [OF assms, of "[]"] by (simp add: point_view_def node_offsets_def point_of_def)

lemma hist_block_view:
  assumes "encodable Kind_hist p" and "xyzitr_bytes p = Some b"
  shows "length b = 22" and "point_view (node_offsets Kind_hist) b 0 = point_of Kind_hist p"
proof -
  obtain i t r where b: "b = xyz_bytes p @ u32_bytes (word_of_int i) @ u32_bytes (word_of_int t) @ u16_bytes (word_of_int r)"
    and r: "f_to_uint 16 (p ! 5) = Some r"
    using assms(2) xyzitr_bytes_Some by blast
  show "length b = 22" by (simp add: b)
  have "le16 b 20 = word_of_int r"
    using le16_at [of "xyz_bytes p @ u32_bytes (word_of_int i) @ u32_bytes (word_of_int t)" 20 "word_of_int r" "[]"]
    by (simp add: b)
  then show "point_view (node_offsets Kind_hist) b 0 = point_of Kind_hist p"
    using xyz_bytes_view [OF assms(1)] r by (simp add: point_view_def node_offsets_def point_of_def b)
qed

lemma pack_points_blocks:
  assumes "\<forall>p\<in>set ps. encodable Kind_hist p"
  shows "\<exists>bs. pack_points ps = Some (concat bs) \<and> length bs = length ps \<and> (\<forall>b\<in>set bs. length b = 22) \<and>
    map (\<lambda>b. point_view (node_offsets Kind_hist) b 0) bs = map (point_of Kind_hist) ps"
  using assms
proof (induction ps)
  case (Cons p ps)
  obtain bs where bs: "pack_points ps = Some (concat bs)" "length bs = length ps" "\<forall>b\<in>set bs. length b = 22"
    "map (\<lambda>b. point_view (node_offsets Kind_hist) b 0) bs = map (point_of Kind_hist) ps"
    using Cons by auto
  have p: "encodable Kind_hist p" using Cons.prems by simp
  then obtain b where b: "xyzitr_bytes p = Some b" by (auto simp: encodable_def xyzitr_bytes_def)
  show ?case using bs b hist_block_view [OF p b] by (intro exI [of _ "b # bs"]) simp
qed simp

lemma header_sizes:
  assumes "n * k < 2 ^ 32" and "m = cloud_header L s ts n (of_nat k)" and "0 < k"
  shows "byte_count m = n * k" and "point_count m = n" and "k < 2 ^ 32 \<Longrightarrow> unat (pc_point_step m) = k"
proof -
  have "n \<le> n * k" using assms(3) by simp
  then have n: "n < 2 ^ 32" using assms(1) by linarith
  then show "point_count m = n" by (simp add: assms(2) point_count_def cloud_header_def unat_of_nat)
  show "k < 2 ^ 32 \<Longrightarrow> unat (pc_point_step m) = k" by (simp add: assms(2) cloud_header_def unat_of_nat)
  have "byte_count m = unat (of_nat k * of_nat n :: u32)" by (simp add: assms(2) byte_count_def cloud_header_def)
  also have "(of_nat k * of_nat n :: u32) = of_nat (n * k)" by (simp add: mult.commute)
  also have "unat (of_nat (n * k) :: u32) = n * k" using assms(1) by (simp only: unat_of_nat) simp
  finally show "byte_count m = n * k" .
qed

lemma on_point_cloud_view:
  assumes fields: "nd_fields s = msg_fields (format_of (nd_kind s))"
    and enc: "\<forall>p\<in>set points. encodable (nd_kind s) p"
    and fits: "length points * 22 < 2 ^ 32"
  shows "\<exists>m. on_point_cloud L frame_ts points s = Some (s\<lparr>nd_clouds := nd_clouds s @ [m]\<rparr>) \<and>
    cloud_ok m \<and> cloud_view m = map (point_of (nd_kind s)) points \<and>
    unat (pc_width m) = length points \<and> pc_height m = 1 \<and>
    pc_stamp m = nl_stamp L frame_ts \<and> pc_frame_id m = nd_depth_frame_id s"
proof -
  let ?k = "point_size (nd_kind s)"
  define h where "h = cloud_header L s frame_ts (length points) (of_nat ?k)"
  have k: "0 < ?k" "?k \<le> 22" "?k < 2 ^ 32" by (cases "nd_kind s"; simp add: point_size_def)+
  have "length points * ?k \<le> length points * 22" using k(2) by (rule mult_le_mono2)
  then have small: "length points * ?k < 2 ^ 32" using fits by linarith
  note size = header_sizes [OF small h_def k(1)]
  obtain bs where run: "on_point_cloud L frame_ts points s = Some (s\<lparr>nd_clouds := nd_clouds s @ [h\<lparr>pc_data := concat bs\<rparr>]\<rparr>)"
    and bs: "length bs = length points" "\<forall>b\<in>set bs. length b = ?k"
      "map (\<lambda>b. point_view (node_offsets (nd_kind s)) b 0) bs = map (point_of (nd_kind s)) points"
  proof (cases "nd_kind s")
    case Kind_cdc
    have "length (concat (map xyz_bytes points)) = byte_count h"
      using size(1) Kind_cdc by (simp add: length_concat comp_def sum_list_triv point_size_def)
    then have "on_point_cloud L frame_ts points s =
        Some (s\<lparr>nd_clouds := nd_clouds s @ [h\<lparr>pc_data := concat (map xyz_bytes points)\<rparr>]\<rparr>)"
      using Kind_cdc by (simp add: on_point_cloud_def h_def Let_def point_size_def)
    moreover have "map (\<lambda>b. point_view (node_offsets Kind_cdc) b 0) (map xyz_bytes points) = map (point_of Kind_cdc) points"
      using enc cdc_block_view Kind_cdc by simp
    ultimately show thesis using Kind_cdc by (intro that [of "map xyz_bytes points"]) (simp_all add: point_size_def)
  next
    case Kind_hist
    obtain bs where b: "pack_points points = Some (concat bs)" "length bs = length points" "\<forall>b\<in>set bs. length b = 22"
      "map (\<lambda>b. point_view (node_offsets Kind_hist) b 0) bs = map (point_of Kind_hist) points"
      using pack_points_blocks enc Kind_hist by metis
    have "length (concat bs) = length bs * 22" using b(3) by (induction bs) simp_all
    then have "length (concat bs) = byte_count h"
      using size(1) Kind_hist b(2) by (simp add: point_size_def)
    then show thesis
      using Kind_hist b by (intro that [of bs]) (simp_all add: on_point_cloud_def h_def Let_def point_size_def)
  qed
  define m where "m = h\<lparr>pc_data := concat bs\<rparr>"
  have pc: "point_count m = length points" "unat (pc_point_step m) = ?k"
    using size(2) size(3) [OF k(3)] by (simp_all add: m_def point_count_def)
  have off: "find_offsets m = Some (node_offsets (nd_kind s))"
    using fields by (intro node_fields_offsets) (simp add: m_def h_def cloud_header_def)
  have "length (concat bs) = length bs * ?k" using bs(2) by (induction bs) simp_all
  then have ok: "cloud_ok m" using off pc node_layout bs(1) by (simp add: cloud_ok_def) (simp add: m_def)
  have "cloud_view m = data_view (node_offsets (nd_kind s)) ?k (length bs) (concat bs)"
    using off pc bs(1) by (simp add: cloud_view_def) (simp add: m_def)
  also have "\<dots> = map (point_of (nd_kind s)) points" using data_view_blocks [OF node_layout bs(2)] bs(3) by simp
  finally have "cloud_view m = map (point_of (nd_kind s)) points" .
  moreover have "unat (pc_width m) = length points" "pc_height m = 1"
    using pc(1) by (simp_all add: m_def h_def cloud_header_def point_count_def)
  ultimately show ?thesis using run ok
    by (intro exI [of _ m]) (simp add: m_def h_def cloud_header_def)
qed

text \<open>Every cloud of the device becomes one message which the combiner can read: it is well formed,
  in the depth frame, with one point per point of the device, in their order, whose coordinates are
  the very floats of the device and whose ring, in histogram mode, is the integer of the sixth number.
\<close>

theorem driver_cloud_view:
  assumes fields: "nd_fields s = msg_fields (format_of (nd_kind s))"
    and enc: "\<forall>p\<in>set points. encodable (nd_kind s) p"
    and fits: "length points * 22 < 2 ^ 32"
  shows "\<exists>m. on_point_cloud L frame_ts points s = Some (s\<lparr>nd_clouds := nd_clouds s @ [m]\<rparr>) \<and>
    cloud_ok m \<and> cloud_view m = map (point_of (nd_kind s)) points \<and>
    unat (pc_width m) = length points \<and> pc_height m = 1 \<and>
    pc_stamp m = nl_stamp L frame_ts \<and> pc_frame_id m = nd_depth_frame_id s"
  using assms by (rule on_point_cloud_view)

definition example_node :: node where
  "example_node =
     \<lparr>nd_kind = Kind_hist, nd_dev = new_dev [], nd_calibration = None, nd_fields = msg_fields ''XYZITR'',
      nd_depth_frame_id = depth_frame_id, nd_parent_frame_id = color_camera_frame_id,
      nd_clouds = [], nd_imus = [], nd_transforms = []\<rparr>"

definition example_node_libs :: node_libs where
  "example_node_libs =
     \<lparr>nl_stamp = (\<lambda>ns. \<lparr>st_sec = uint ns div 1000000000, st_nanosec = word_of_int (uint ns mod 1000000000)\<rparr>),
      nl_now = \<lparr>st_sec = 0, st_nanosec = 0\<rparr>, nl_quat = (\<lambda>_. (f_zero, f_zero, f_zero, f_zero)), nl_what = (\<lambda>_. [])\<rparr>"

definition example_point :: "ieee list" where
  "example_point = map (f_of_int binary32) [1, - 2, 3, 200, 4000, 7]"

lemma driver_cloud_view_witness:
  "\<exists>m. on_point_cloud example_node_libs 5000000000 [example_point, example_point] example_node =
      Some (example_node\<lparr>nd_clouds := [m]\<rparr>) \<and>
    cloud_ok m \<and> unat (pc_width m) = 2 \<and> pc_frame_id m = ''asdt1_optical'' \<and>
    cloud_view m = replicate 2 ((f_of_int binary32 1, f_of_int binary32 (- 2), f_of_int binary32 3), Some 7)"
proof -
  have r: "f_to_uint 16 (f_of_int binary32 7) = Some 7" and "f_to_uint 32 (f_of_int binary32 200) = Some 200"
    and "f_to_uint 32 (f_of_int binary32 4000) = Some 4000"
    by code_simp+
  then have "\<forall>p\<in>set [example_point, example_point]. encodable (nd_kind example_node) p"
    by (simp add: encodable_def example_point_def example_node_def)
  from driver_cloud_view [OF _ this, of example_node_libs 5000000000]
  obtain m where m: "on_point_cloud example_node_libs 5000000000 [example_point, example_point] example_node =
      Some (example_node\<lparr>nd_clouds := nd_clouds example_node @ [m]\<rparr>)" "cloud_ok m"
    "cloud_view m = map (point_of (nd_kind example_node)) [example_point, example_point]"
    "unat (pc_width m) = 2" "pc_frame_id m = nd_depth_frame_id example_node"
    by (auto simp: example_node_def format_of_def)
  then show ?thesis
    using r by (intro exI [of _ m])
      (simp add: example_node_def point_of_def example_point_def depth_frame_id_def numeral_2_eq_2)
qed

end
