(* ===== verification/Spec2Isabelle.thy ===== *)
theory Spec2Isabelle
  imports Prelude Float_Model Modes List_Ports Device_Text Serial_Port Serial_Config Serial_Calls Serial_Windows Port_Lists Device_IO Device_Run Imu Cdc Hist
    Video Media Lifecycle Ros_Msgs Combiner Calibration Driver_Node
begin

text \<open>
  A model of the ROS 2 driver of the Sony AS-DT1 depth sensor (directory
  \<open>src/asdt1_driver\<close> of the repository).

  \<^bold>\<open>The program.\<close> A sensor hangs on a USB serial port and, in histogram mode, also on a video
  device. \<open>dt1_device\<close> owns a serial thread which finds the port, checks the firmware and the
  mode of the sensor, configures it and then receives frames until it is stopped. The subclass
  \<open>dt1_device_cdc\<close> takes the points from the serial frames, \<open>dt1_device_hist\<close> takes only time
  stamps and IMU records from them and starts a second thread which gets histogram frames from
  V4L2. The node \<open>ASDT1_Driver\<close> creates the device, turns its callbacks into ROS messages, and
  changes its configuration on request, with extrinsics from a calibration file. A second node,
  \<open>PointCloudCombiner\<close>, merges the clouds and the IMU messages of several drivers. The vendored
  library \<open>dependencies/serial\<close> is the serial port.

  \<^bold>\<open>Conventions.\<close> Code that can fail is a function from a state to an \<open>outcome\<close>: \<open>Ret\<close> with the
  result and the state left, \<open>Throw\<close> with the exception, or \<open>Block\<close> when it waits for something
  that never comes; \<open>seq\<close> composes. Pure code that can throw has the type \<open>exn + 'a\<close>. \<open>None\<close>
  is undefined behaviour of C++ (a float out of the range of the integer it is cast to, a division
  by zero). Machine integers are words, and \<open>float\<close> and \<open>double\<close> are IEEE 754 values computed on
  integers. What is outside the program is data of the model, in the order in which the code asks
  for it: received bytes, silences and the loss of the line (\<open>rx_stream\<close>), results of system
  calls, replies of \<open>ioctl\<close>, values of the clock. The other thread is seen in one way only,
  by clearing \<open>_running\<close>: \<open>stop_in\<close> says at which read of the flag this has happened, so a
  theorem for every \<open>stop_in\<close> holds for every interleaving with \<open>stop()\<close>. Callbacks and commands
  are recorded in \<open>actions\<close>. A library the code calls and does not contain (the YAML parser,
  the time arithmetic of \<open>rclcpp\<close>, \<open>tf2\<close>, the matrix product of Eigen) is a record of
  functions, an argument of the definitions; where a theorem needs documented behaviour of it, this
  is a named hypothesis.

  \<^bold>\<open>The theories\<close> and the files they model, below \<open>src/asdt1_driver\<close>:

  \<^item> \<open>Prelude\<close>: machine types, exceptions and \<open>outcome\<close>, the operations of \<open>std::string\<close>, little-endian
    words, lemma collections (\<open>outcome_simps\<close>, \<open>string_simps\<close>).
  \<^item> \<open>Float_Model\<close>: binary32 and binary64 with round to nearest even; error bounds of the operations and the
    32-bit pattern of a value.
  \<^item> \<open>Modes\<close>: \<open>src/device/dt1_modes.cpp\<close>, the mode table and its lookup.
  \<^item> \<open>List_Ports\<close>, \<open>Port_Lists\<close>: \<open>impl/list_ports/list_ports_linux.cc\<close>, \<open>_osx.cc\<close> and \<open>_win.cc\<close> of the serial
    library.
  \<^item> \<open>Serial_Port\<close>: \<open>read\<close>, \<open>write\<close>, \<open>open\<close>, \<open>close\<close> and the timers of \<open>impl/unix.cc\<close> on system calls, and
    the byte stream they implement, with \<open>readline\<close> of \<open>serial.cc\<close>.
  \<^item> \<open>Serial_Config\<close>: \<open>reconfigurePort\<close> on a terminal that is a state, the setters, waiting, the modem
    lines (\<open>impl/unix.cc\<close>) and \<open>readlines\<close> (\<open>serial.cc\<close>).
  \<^item> \<open>Serial_Calls\<close>: the calls of \<open>serial.cc\<close>: reading into containers, \<open>readline\<close> with any end of line and limit,
    and the two mutexes of \<open>impl/unix.cc\<close> under which the calls of several threads run, as a step function.
  \<^item> \<open>Serial_Windows\<close>: \<open>impl/win.cc\<close>.
  \<^item> \<open>Device_Text\<close>: the static text routines of \<open>src/device/dt1_device.cpp\<close> (\<open>find_port\<close>, \<open>get_hw_id\<close>,
    \<open>is_supported_device\<close>).
  \<^item> \<open>Device_IO\<close>: the state \<open>dev\<close> of a device, its line protocol and its setters (same file).
  \<^item> \<open>Device_Run\<close>: the serial thread \<open>run\<close>: connection, set-up, receive loop, exit (same file).
  \<^item> \<open>Imu\<close>: \<open>read_imu\<close>, \<open>read_timestamp\<close>, \<open>unpack_imu_data\<close> (same file).
  \<^item> \<open>Cdc\<close>: \<open>src/device/dt1_device_cdc.cpp\<close>.
  \<^item> \<open>Hist\<close>, \<open>Video\<close>, \<open>Media\<close>: \<open>src/device/dt1_device_hist.cpp\<close> and \<open>hist_frame.h\<close>: unpacking a frame and the
    serial side; the video thread; finding the video node of a serial number.
  \<^item> \<open>Lifecycle\<close>: \<open>start\<close>, \<open>stop\<close>, \<open>reboot\<close> and the destructors against both threads, as a step relation of
    the owner and the threads.
  \<^item> \<open>Ros_Msgs\<close>: the messages the nodes exchange and \<open>std::memcpy\<close> on their bytes; \<open>rtime\<close> is an instance of
    \<open>linorder\<close>.
  \<^item> \<open>Calibration\<close>: \<open>src/calibration_parser.cpp\<close>.
  \<^item> \<open>Combiner\<close>: \<open>src/point_cloud_combiner_node.cpp\<close>.
  \<^item> \<open>Driver_Node\<close>: \<open>src/asdt1_driver_node.cpp\<close>, \<open>src/licenses_info.cpp\<close>.
  \<^item> \<open>Spec2Isabelle\<close>: the path of a frame from the sensor through the driver to the combiner, in both modes.

  \<^bold>\<open>Interfaces.\<close>

  \<^item> \<open>dev_op\<close> (\<open>Device_IO\<close>): what every operation of the serial thread keeps of the device: \<open>later s t\<close> says
    that input is only consumed, \<open>_running\<close> only cleared, the configuration untouched and \<open>actions\<close> only
    extended. \<open>consuming_op\<close> extends it by the consumption of input on return; \<open>frame_reader\<close>
    (\<open>Device_Run\<close>) by the same while the device runs, and it is what \<open>run\<close> asks of the virtual
    \<open>process_serial_data\<close>. Interpretations: \<open>readline\<close>, \<open>prompt\<close>, \<open>until\<close>, \<open>ser_write\<close>, \<open>imu_rd\<close>, \<open>tm_rd\<close>,
    and \<open>cdc\<close> and \<open>hist\<close> for the two frame readers.
  \<^item> \<open>scan_order\<close> (\<open>Cdc\<close>): an offset function puts the points into the slots of the block one to one
    (\<open>full_res\<close>, \<open>half_res\<close>).
  \<^item> \<open>sync_gate\<close> (\<open>Combiner\<close>): waiting for all inputs within a tolerance (\<open>cloud_gate\<close>, \<open>imu_gate\<close>).
  \<^item> \<open>device_control\<close> (\<open>Driver_Node\<close>): what the node relies on when it starts and stops its device (\<open>control\<close>,
    on the model of the device).

  \<^bold>\<open>What is shown.\<close>

  \<^item> The serial port: the system-call loops of \<open>read\<close> implement the byte stream, \<open>write\<close> ends by its time
    limit, the configuration sets the line that was asked for and Windows sets the same one;
    what a failed \<open>open\<close>, a sticky parity and refused settings leave behind. The calls of
    several threads exclude each other as their locks say and never wait for each other in a circle; \<open>readline\<close>
    stays in its array exactly when the limit is not shorter than the end of line.
  \<^item> The device thread: a connection phase that ends with the device running has passed the firmware gate
    and found the mode; the set-up sends exactly the configured commands; the thread ends with the port
    closed and the disconnection announced; where it waits for ever and where it throws out of the
    thread function.
  \<^item> Frames: a CDC frame that arrives is published whole, with the slots of the scan order and the local
    time; histogram frames are unpacked to the valid points, inside the frame, with the same rings as CDC; the
    depth threshold and the 20-bit coordinates are exact in float; IMU times follow the reset record.
  \<^item> Video and life cycle: a video thread that has ended and was stopped has released all it took; a
    joined device is at rest; a device whose threads ended by themselves is not released.
  \<^item> Nodes: a cloud of the device is a message the combiner can read, for a frame of either mode point by point; the combined cloud is the
    concatenation of the transformed inputs within 25 ms, with disjoint rings; calibrations survive
    writing and reading; a change of parameters takes them up to the first one rejected.

  \<^bold>\<open>Termination and bounds.\<close> Loops that consume input are functions with the number of items to come as
  their measure, or structural on the list of results the environment gives; a list that ends while the
  code still wants more is \<open>Block\<close>, and so is \<open>main_loop\<close> without fuel. \<open>cdc_loop_fuel\<close> and
  \<open>frame_reader.main_loop_enough\<close> show that fuel above the number of items to come is never used up: the
  result no longer depends on it, and the loop then blocks only where its frame reader blocks.
  \<open>readline_limit\<close> is the 65536 of \<open>serial.h\<close>.

  \<^bold>\<open>Not modelled.\<close> Logging. The mutexes of the nodes and the parser: each guards a whole routine, which is
  one step here. The getters of the serial library, and its Windows mutexes, which have the same protocol as those
  of Linux. The wide-character build of the Windows port list with its \<open>utf8_encode\<close>. The creation of
  publishers, services and subscriptions. The example program of the serial library and its integer type names
  (\<open>serial_example.cc\<close>, \<open>v8stdint.h\<close>), launch files, build files and data. A store to \<open>_running\<close> is seen by
  every later read: the weaker orders of the C++ memory model are left out.
\<close>

section \<open>From the sensor to the combiner\<close>

text \<open>
  What the sensor sends for a point: the coordinates of its first peak, the four bits after them
  and the seven bytes of the second peak.
\<close>

type_synonym sent_point = "(int \<times> int \<times> int) \<times> int \<times> u8 list"

definition sent_bytes :: "sent_point \<Rightarrow> u8 list" where
  "sent_bytes q = (case q of ((x, y, z), w, tail) \<Rightarrow> pack_peak x y z w @ tail)"

definition sendable :: "sent_point \<Rightarrow> bool" where
  "sendable q \<longleftrightarrow> (case q of ((x, y, z), w, tail) \<Rightarrow> fits20 x \<and> fits20 y \<and> fits20 z \<and> length tail = 7)"

definition metric :: "int \<times> int \<times> int \<Rightarrow> ieee \<times> ieee \<times> ieee" where
  "metric c =
     (case c of (x, y, z) \<Rightarrow>
        if x = 0 \<and> y = 0 \<and> z = 0 then (F_NaN, F_NaN, F_NaN) else (quarter_mm (- y), quarter_mm x, quarter_mm z))"

lemma length_sent_bytes: "sendable q \<Longrightarrow> length (sent_bytes q) = 15"
  by (auto simp: sendable_def sent_bytes_def pack_peak_def Let_def split: prod.splits)

lemma length_block: "\<forall>q\<in>set qs. sendable q \<Longrightarrow> length (concat (map sent_bytes qs)) = 15 * length qs"
  by (induction qs) (simp_all add: length_sent_bytes)

lemma peak_at_block:
  assumes q: "\<forall>q\<in>set qs. sendable q" and i: "i < length qs"
  shows "peak_at (concat (map sent_bytes qs)) (15 * i) = (case fst (qs ! i) of (x, y, z) \<Rightarrow> peak_of x y z)"
proof -
  obtain x y z w tail where p: "qs ! i = ((x, y, z), w, tail)" by (metis prod.exhaust)
  have s: "sendable (qs ! i)" using q i by simp
  let ?pre = "concat (map sent_bytes (take i qs))" and ?suf = "tail @ concat (map sent_bytes (drop (Suc i) qs))"
  have "concat (map sent_bytes (take i qs @ qs ! i # drop (Suc i) qs)) = ?pre @ pack_peak x y z w @ ?suf"
    by (simp add: p sent_bytes_def)
  then have "concat (map sent_bytes qs) = ?pre @ pack_peak x y z w @ ?suf"
    by (simp only: id_take_nth_drop [OF i, symmetric])
  moreover have "length ?pre = 15 * i"
    using length_block [of "take i qs"] q i by (auto dest: in_set_takeD)
  ultimately show ?thesis
    using extract_packed [of x y z ?suf ?pre w] s p by (simp add: peak_at_def sendable_def)
qed

lemma point_slot_range:
  assumes "valid_mode m" and "p < nat (mode_points m)"
  shows "point_slot m p < nat (mode_points m)"
proof (rule mode_points_cases [of m])
  show "valid_mode m" by (rule assms(1))
qed (use assms(2) full_res.slot_range half_res.slot_range in \<open>simp_all add: point_slot_def\<close>)

lemma point_count_bound: "valid_mode m \<Longrightarrow> nat (mode_points m) \<le> 576"
  by (erule mode_points_cases) simp_all

lemma quarter_mm_canon: "f_canon binary32 (quarter_mm v)"
proof -
  have "f_canon binary32 (F_Fin False (2 ^ 23) (- 25))" by (simp add: binary32_def)
  then show ?thesis unfolding quarter_mm_def by (intro f_mul_canon32 f_div_canon32 f_of_int_canon32)
qed

lemma peak_encodable: "encodable Kind_cdc (peak_of x y z)"
  by (simp add: encodable_def peak_of_def quarter_mm_canon numeral_2_eq_2)

lemma point_of_peak: "point_of Kind_cdc (case c of (x, y, z) \<Rightarrow> peak_of x y z) = (metric c, None)"
  by (cases c) (simp add: point_of_def peak_of_def metric_def numeral_2_eq_2)

text \<open>The cloud unpacked from a block of sent points, as the node encodes it.\<close>

lemma cloud_of_block:
  fixes pts :: "sent_point list" and m :: int
  defines "cloud \<equiv> map (\<lambda>p. peak_at (concat (map sent_bytes pts)) (15 * point_slot m p)) [0..<length pts]"
  assumes m: "valid_mode m" and pts: "length pts = nat (mode_points m)" "\<forall>p\<in>set pts. sendable p"
  shows "\<forall>p\<in>set cloud. encodable Kind_cdc p"
    and "map (point_of Kind_cdc) cloud = map (\<lambda>p. (metric (fst (pts ! point_slot m p)), None)) [0..<length pts]"
    and "length cloud * 22 < 2 ^ 32"
proof -
  have slot: "point_slot m p < length pts" if "p < length pts" for p
    using point_slot_range [OF m] that unfolding pts(1) by this
  have cl: "cloud = map (\<lambda>p. case fst (pts ! point_slot m p) of (x, y, z) \<Rightarrow> peak_of x y z) [0..<length pts]"
    unfolding cloud_def using peak_at_block [OF pts(2)] slot by (intro map_cong) auto
  show "\<forall>p\<in>set cloud. encodable Kind_cdc p"
    unfolding cl using peak_encodable by (auto split: prod.split)
  show "map (point_of Kind_cdc) cloud = map (\<lambda>p. (metric (fst (pts ! point_slot m p)), None)) [0..<length pts]"
    unfolding cl by (simp add: point_of_peak)
  have "length pts \<le> 576" using point_count_bound [OF m] unfolding pts(1) by this
  then show "length cloud * 22 < 2 ^ 32" by (simp add: cl)
qed

text \<open>C1: A frame of the sensor arrives at the combiner: the message the node publishes for it can be read
  by the combiner, and its points are, slot by slot of the scan, the quarter millimetres the sensor
  sent, turned to metres with the axes of the camera (points without an echo are not numbers),
  stamped with the local time of the frame.
\<close>

theorem sensor_frame_reaches_combiner:
  assumes "listening s" "cdc_ready s" and "now_q s = recv # q"
    and "0 \<le> ts1" "ts1 < 2 ^ 64" "0 \<le> ts2" "ts2 < 2 ^ 64"
    and pts: "length pts = nat (mode_points (dev_mode s))" "\<forall>p\<in>set pts. sendable p"
    and "\<forall>d\<in>set recs. length d = 16 \<and> take 3 d \<noteq> ''END''"
    and "rx_stream s = map Rx_byte (frame_text ts1 (map char_of_byte (concat (map sent_bytes pts))) recs ts2) @ r"
    and t: "t = recv - (word_of_int ts2 * 1000000 - word_of_int ts1 * 1000000 :: u64)"
    and n: "nd_kind n = Kind_cdc" "nd_fields n = msg_fields ''XYZ''"
  shows "\<exists>u cloud m. process_serial_data_cdc s = Ret () u \<and>
    (\<exists>later. actions u = actions s @ Cloud_cb t cloud # later) \<and>
    on_point_cloud L t cloud n = Some (n\<lparr>nd_clouds := nd_clouds n @ [m]\<rparr>) \<and> cloud_ok m \<and>
    pc_stamp m = nl_stamp L t \<and> pc_frame_id m = nd_depth_frame_id n \<and>
    cloud_view m = map (\<lambda>p. (metric (fst (pts ! point_slot (dev_mode s) p)), None)) [0..<length pts]"
proof -
  let ?block = "concat (map sent_bytes pts)"
  define cloud where "cloud = map (\<lambda>p. peak_at ?block (15 * point_slot (dev_mode s) p)) [0..<length pts]"
  have mode: "valid_mode (dev_mode s)" using assms(2) by (simp add: cdc_ready_def)
  note sent = cloud_of_block [OF mode pts, folded cloud_def]
  have len: "length (map char_of_byte ?block) = nat (mode_points (dev_mode s)) * 15"
    using length_block [OF pts(2)] pts(1) by simp
  have bytes: "map byte_of (map char_of_byte ?block) = ?block" by (simp add: comp_def)
  let ?imu = "fst (unpack_loop (word_of_int ts1 * 1000000) (recv - word_of_int ts2 * 1000000) False
    (latest_imu_sample_ts s) (map (map byte_of) recs))"
  have "\<exists>u. process_serial_data_cdc s = Ret () u \<and> rx_stream u = r \<and>
      actions u = actions s @ Cloud_cb t cloud # (if ?imu = [] then [] else [Imu_cb ?imu])"
    using process_cdc_frame [OF assms(1-7) len assms(10,11)] unfolding bytes cloud_def pts(1) t .
  then obtain u where u: "process_serial_data_cdc s = Ret () u" "\<exists>later. actions u = actions s @ Cloud_cb t cloud # later"
    by (elim exE conjE) (rule that, assumption, rule exI, assumption)
  have "nd_fields n = msg_fields (format_of (nd_kind n))" using n by (simp add: format_of_def)
  then obtain m where "on_point_cloud L t cloud n = Some (n\<lparr>nd_clouds := nd_clouds n @ [m]\<rparr>)" "cloud_ok m"
    "cloud_view m = map (point_of (nd_kind n)) cloud" "pc_stamp m = nl_stamp L t" "pc_frame_id m = nd_depth_frame_id n"
    using on_point_cloud_view [of n cloud L t] sent(1,3) n(1) by metis
  then show ?thesis using u sent(2) n(1)
    by (intro exI [of _ u] exI [of _ cloud] exI [of _ m] conjI) simp_all
qed

definition example_sent :: sent_point where
  "example_sent = ((4000, - 8000, 12000), 0, replicate 7 0)"

definition example_cdc :: dev where
  "example_cdc = sample_cdc\<lparr>rx_stream :=
     map Rx_byte (frame_text 1 (map char_of_byte (concat (map sent_bytes (replicate 288 example_sent)))) [] 4)\<rparr>"

definition example_cdc_node :: node where
  "example_cdc_node = example_node\<lparr>nd_kind := Kind_cdc, nd_fields := msg_fields ''XYZ''\<rparr>"

lemma sensor_frame_reaches_combiner_witness:
  "\<exists>u cloud m. process_serial_data_cdc example_cdc = Ret () u \<and>
    on_point_cloud example_node_libs 6000000 cloud example_cdc_node = Some (example_cdc_node\<lparr>nd_clouds := [m]\<rparr>) \<and>
    cloud_ok m \<and> cloud_view m = replicate 288 ((quarter_mm 8000, quarter_mm 4000, quarter_mm 12000), None)"
proof -
  let ?pts = "replicate 288 example_sent"
  have n: "mode_points 3 = 288" by (simp add: mode_points_def mode_table)
  have ready: "listening example_cdc" "cdc_ready example_cdc" "now_q example_cdc = 9000000 # []"
    "dev_mode example_cdc = 3" "valid_mode 3"
    by (simp_all add: listening_def cdc_ready_def valid_mode_def example_cdc_def sample_cdc_def new_dev_def n)
  have sent: "\<forall>p\<in>set ?pts. sendable p" by (simp add: sendable_def example_sent_def fits20_def)
  have rx: "rx_stream example_cdc =
      map Rx_byte (frame_text 1 (map char_of_byte (concat (map sent_bytes ?pts))) [] 4) @ []"
    by (simp add: example_cdc_def)
  have len: "length ?pts = nat (mode_points (dev_mode example_cdc))" by (simp add: ready(4) n)
  from sensor_frame_reaches_combiner [OF ready(1-3) _ _ _ _ len sent _ rx, of 6000000 example_cdc_node example_node_libs]
  obtain u cloud m where "process_serial_data_cdc example_cdc = Ret () u"
    "on_point_cloud example_node_libs 6000000 cloud example_cdc_node =
      Some (example_cdc_node\<lparr>nd_clouds := nd_clouds example_cdc_node @ [m]\<rparr>)" "cloud_ok m"
    and view: "cloud_view m = map (\<lambda>p. (metric (fst (?pts ! point_slot 3 p)), None)) [0..<288]"
    by (auto simp: example_cdc_node_def ready(4))
  moreover have "(metric (fst (?pts ! point_slot 3 p)), None :: u16 option) =
      ((quarter_mm 8000, quarter_mm 4000, quarter_mm 12000), None)" if "p < 288" for p
    using point_slot_range [OF ready(5), of p] that by (simp add: n metric_def example_sent_def)
  then have "map (\<lambda>p. (metric (fst (?pts ! point_slot 3 p)), None :: u16 option)) [0..<288] =
      replicate 288 ((quarter_mm 8000, quarter_mm 4000, quarter_mm 12000), None)"
    by (intro nth_equalityI) simp_all
  ultimately show ?thesis
    by (intro exI [of _ u] exI [of _ cloud] exI [of _ m]) (simp add: example_cdc_node_def example_node_def)
qed

section \<open>Histogram frames\<close>

text \<open>
  What the combiner is to see of a histogram frame: bank by bank, the coordinates of every point that
  counts, and its line as the ring.
\<close>

definition hist_view :: "u8 list \<Rightarrow> int \<Rightarrow> point list" where
  "hist_view fr m =
     concat (map (\<lambda>b. List.map_filter
         (\<lambda>mp. map_option (\<lambda>p. ((p ! 0, p ! 1, p ! 2), Some (of_nat (bank_to_ring b mp m)))) (hist_point fr m b mp))
         [0..<48]) [0..<used_banks m])"

lemma map_map_filter:
  assumes "\<And>x y. x \<in> set xs \<Longrightarrow> f x = Some y \<Longrightarrow> g y = h x y"
  shows "map g (List.map_filter f xs) = List.map_filter (\<lambda>x. map_option (h x) (f x)) xs"
  using assms by (induction xs) (auto simp: List.map_filter_def split: option.split)

lemma hist_points_view:
  assumes "valid_mode m" "times_fit fr"
  shows "\<forall>p\<in>set (hist_points fr m). encodable Kind_hist p"
    and "map (point_of Kind_hist) (hist_points fr m) = hist_view fr m"
proof -
  show "\<forall>p\<in>set (hist_points fr m). encodable Kind_hist p"
    using hist_point_fits assms by (fastforce elim: hist_points_from simp: encodable_def)
  have "map (point_of Kind_hist) (List.map_filter (hist_point fr m b) [0..<48]) =
      List.map_filter (\<lambda>mp. map_option (\<lambda>p. ((p ! 0, p ! 1, p ! 2), Some (of_nat (bank_to_ring b mp m))))
        (hist_point fr m b mp)) [0..<48]"
    if "b < used_banks m" for b
  proof (rule map_map_filter)
    fix mp p
    assume "mp \<in> set [0..<48]" "hist_point fr m b mp = Some p"
    then show "point_of Kind_hist p = ((p ! 0, p ! 1, p ! 2), Some (of_nat (bank_to_ring b mp m)))"
      using hist_point_fits [of fr m b mp p] assms that by (simp add: point_of_def)
  qed
  then show "map (point_of Kind_hist) (hist_points fr m) = hist_view fr m"
    unfolding hist_points_def hist_view_def map_concat map_map
    by (intro arg_cong [where f = concat] map_cong refl) (simp add: comp_def)
qed

text \<open>C2: A histogram frame arrives at the combiner: when the device runs and has its clock, unpacking a frame makes
  one cloud, the message the node publishes for it can be read by the combiner, and its points are those of
  the frame that count, bank by bank, with the floats of their coordinates and their line as the ring; no
  conversion on the way is undefined as long as no bank is more than 8589934 counts of the sensor clock after
  the first.
\<close>

theorem hist_frame_reaches_combiner:
  assumes mode: "valid_mode (dev_mode s)" and run: "poll s = (True, s1)" and clock: "0 < clock_offset s"
    and times: "times_fit fr"
    and n: "nd_kind n = Kind_hist" "nd_fields n = msg_fields ''XYZITR''"
    and t: "t = ucast (cpu_ts fr) * 1000000 + clock_offset s"
  shows "\<exists>cloud m. actions (unpack_hist_frame fr s) = actions s @ [Cloud_cb t cloud] \<and>
    on_point_cloud L t cloud n = Some (n\<lparr>nd_clouds := nd_clouds n @ [m]\<rparr>) \<and> cloud_ok m \<and>
    pc_stamp m = nl_stamp L t \<and> pc_frame_id m = nd_depth_frame_id n \<and>
    cloud_view m = hist_view fr (dev_mode s)"
proof -
  let ?cloud = "hist_points fr (dev_mode s)"
  have "length ?cloud \<le> 576"
    using unpack_frame_points_eq [OF mode, of fr "[]"] point_count_bound [OF mode]
    by (metis length_take min.cobounded1 le_trans)
  then have "length ?cloud * 22 < 2 ^ 32" by simp
  moreover have "nd_fields n = msg_fields (format_of (nd_kind n))" using n by (simp add: format_of_def)
  ultimately obtain m where "on_point_cloud L t ?cloud n = Some (n\<lparr>nd_clouds := nd_clouds n @ [m]\<rparr>)" "cloud_ok m"
    "cloud_view m = map (point_of Kind_hist) ?cloud" "pc_stamp m = nl_stamp L t" "pc_frame_id m = nd_depth_frame_id n"
    using on_point_cloud_view [of n ?cloud L t] hist_points_view(1) [OF mode times] n(1) by metis
  then show ?thesis
    using unpack_hist_frame_publishes [OF mode run clock] hist_points_view(2) [OF mode times] t
    by (intro exI [of _ ?cloud] exI [of _ m]) simp
qed

text \<open>
  A frame of zeros but for one byte: the depth of the first point of the first bank is 4096 quarter
  millimetres.
\<close>

definition example_frame :: "u8 list" where
  "example_frame = (replicate 806400 0)[peak_at_off 0 0 + 13 := 16]"

definition example_hist :: dev where
  "example_hist = (new_dev [])\<lparr>running := True, dev_mode := 3, clock_offset := 5\<rparr>"

lemma example_times: "times_fit example_frame"
proof -
  have "sensor_ts example_frame b = 0" if "b < 24" for b
    using that by (simp add: sensor_ts_def example_frame_def Let_def peak_at_off_def sizeof_bank_def sizeof_ebd_def
        sizeof_mp_def off_first_def sizeof_peak_def off_sensor_ts_def nth_list_update) presburger
  then show ?thesis by (simp add: times_fit_def list_all_iff)
qed

lemma example_point_counts: "hist_view example_frame 3 \<noteq> []"
proof -
  have at: "example_frame ! i = (if i = peak_at_off 0 0 + 13 then 16 else 0)" if "i < 806400" for i
    using that by (simp add: example_frame_def nth_list_update)
  have p: "first_peak example_frame 0 0 = \<lparr>pk_x = 0, pk_y = 0, pk_z = 4096, pk_height = 0, pk_err = 0\<rparr>"
    by (simp add: first_peak_def Let_def le24_def le32_def at peak_at_off_def sizeof_ebd_def off_first_def)
  have "\<not> take_high example_frame 3 0 0" by (simp add: take_high_def cdc_mode_20m_def)
  then have "hist_point example_frame 3 0 0 \<noteq> None" using depth_gate [of 4096] by (simp add: hist_point_def p)
  then have "List.map_filter (\<lambda>mp. map_option (\<lambda>p. ((p ! 0, p ! 1, p ! 2), Some (of_nat (bank_to_ring 0 mp 3) :: u16)))
      (hist_point example_frame 3 0 mp)) [0..<48] \<noteq> []"
    by (simp add: List.map_filter_def filter_empty_conv, intro bexI [of _ 0]) simp_all
  moreover have "0 < used_banks 3" by (simp add: used_banks_def mode_table)
  ultimately show ?thesis unfolding hist_view_def concat_eq_Nil_conv by (auto intro!: bexI [of _ 0])
qed

lemma hist_frame_reaches_combiner_witness:
  "\<exists>cloud m. actions (unpack_hist_frame example_frame example_hist) = [Cloud_cb 5 cloud] \<and>
    on_point_cloud example_node_libs 5 cloud example_node = Some (example_node\<lparr>nd_clouds := [m]\<rparr>) \<and>
    cloud_ok m \<and> cloud_view m = hist_view example_frame 3 \<and> cloud_view m \<noteq> []"
proof -
  have dev: "valid_mode (dev_mode example_hist)" "poll example_hist = (True, example_hist)" "0 < clock_offset example_hist"
    "dev_mode example_hist = 3" "actions example_hist = []"
    by (simp_all add: example_hist_def new_dev_def valid_mode_def poll_def)
  have node: "nd_kind example_node = Kind_hist" "nd_fields example_node = msg_fields ''XYZITR''" "nd_clouds example_node = []"
    by (simp_all add: example_node_def)
  have "cpu_ts example_frame = 0"
    by (simp add: cpu_ts_def le32_def example_frame_def off_cpu_ts_def off_sensor_ts_def peak_at_off_def sizeof_ebd_def
        off_first_def nth_list_update)
  then have t: "5 = ucast (cpu_ts example_frame) * 1000000 + clock_offset example_hist"
    by (simp add: example_hist_def new_dev_def)
  obtain cloud m where "actions (unpack_hist_frame example_frame example_hist) = [Cloud_cb 5 cloud]"
    "on_point_cloud example_node_libs 5 cloud example_node = Some (example_node\<lparr>nd_clouds := [m]\<rparr>)"
    "cloud_ok m" "cloud_view m = hist_view example_frame 3"
    using hist_frame_reaches_combiner [OF dev(1-3) example_times node(1,2) t, of example_node_libs]
    unfolding dev(4,5) node(3) by auto
  then show ?thesis using example_point_counts by (intro exI [of _ cloud] exI [of _ m]) simp
qed

end
